(* ===== verification/Prelude.thy ===== *)
theory Prelude
  imports Main "HOL-Library.Word"
begin

text \<open>
  What every component shares: the outcome type of C code (a value, or the kind of undefined
  behaviour the code runs into), the collections of rewrite rules the component proofs use, the
  names of the C integer types, and generic lemmas on lists, functions and words.
\<close>

unbundle bit_operations_syntax

section \<open>Machine integers\<close>

type_synonym u8 = "8 word"
type_synonym u16 = "16 word"
type_synonym u32 = "32 word"

section \<open>Outcomes of C code\<close>

text \<open>
  A function that can read or write outside an object, read a local variable that was never
  assigned, or overflow an \<open>int\<close>, returns \<open>Inl\<close> of what went wrong; a function that returns is \<open>Inr\<close> of its result.
\<close>

datatype ub = OutOfBounds | Uninitialised | SignedOverflow

type_synonym 'a c = "ub + 'a"

definition bind_c :: "'e + 'a \<Rightarrow> ('a \<Rightarrow> 'e + 'b) \<Rightarrow> 'e + 'b" where
  "bind_c r f = (case r of Inl e \<Rightarrow> Inl e | Inr x \<Rightarrow> f x)"

named_theorems c_simps \<open>equations that run the outcome type and the C library model\<close>
named_theorems inv_intros \<open>introduction rules that preserve a component's invariant\<close>

lemma bind_c_Inl [simp, c_simps]: "bind_c (Inl e) f = Inl e"
  and bind_c_Inr [simp, c_simps]: "bind_c (Inr x) f = f x"
  by (simp_all add: bind_c_def)

lemma bind_c_eq_Inr: "bind_c r f = Inr y \<longleftrightarrow> (\<exists>x. r = Inr x \<and> f x = Inr y)"
  by (auto simp: bind_c_def split: sum.splits)

lemma bind_c_cong [fundef_cong]:
  "r = r' \<Longrightarrow> (\<And>x. r' = Inr x \<Longrightarrow> f x = g x) \<Longrightarrow> bind_c r f = bind_c r' g"
  by (cases r') auto

lemma bind_c_InrI: "r = Inr x \<Longrightarrow> f x = Inr y \<Longrightarrow> bind_c r f = Inr y"
  by simp

text \<open>
  Code that may also wait for ever: \<open>None\<close> if it does not return. \<open>safe_o P\<close> says that nothing goes wrong,
  and that the result has \<open>P\<close> if there is one.
\<close>

definition bind_o :: "'a c option \<Rightarrow> ('a \<Rightarrow> 'b c option) \<Rightarrow> 'b c option" where
  "bind_o r f = (case r of None \<Rightarrow> None | Some (Inl e) \<Rightarrow> Some (Inl e) | Some (Inr x) \<Rightarrow> f x)"

definition safe_o :: "('a \<Rightarrow> bool) \<Rightarrow> 'a c option \<Rightarrow> bool" where
  "safe_o P r = (case r of None \<Rightarrow> True | Some (Inl e) \<Rightarrow> False | Some (Inr x) \<Rightarrow> P x)"

lemma bind_o_simps [simp, c_simps]:
  "bind_o None f = None" "bind_o (Some (Inl e)) f = Some (Inl e)" "bind_o (Some (Inr x)) f = f x"
  by (simp_all add: bind_o_def)

lemma bind_o_eq_Inr: "bind_o r f = Some (Inr y) \<longleftrightarrow> (\<exists>x. r = Some (Inr x) \<and> f x = Some (Inr y))"
  by (auto simp: bind_o_def split: option.splits sum.splits)

lemma bind_o_return: "bind_o r (\<lambda>x. Some (Inr x)) = r"
  by (auto simp: bind_o_def split: option.splits sum.splits)

lemma safe_o_simps [simp]: "safe_o P None" "\<not> safe_o P (Some (Inl e))" "safe_o P (Some (Inr x)) = P x"
  by (simp_all add: safe_o_def)

lemma safe_o_bind: "safe_o P r \<Longrightarrow> (\<And>x. P x \<Longrightarrow> safe_o Q (f x)) \<Longrightarrow> safe_o Q (bind_o r f)"
  by (cases r; cases "the r") (simp_all add: bind_o_def safe_o_def)

lemma safe_o_mono: "safe_o P r \<Longrightarrow> (\<And>x. P x \<Longrightarrow> Q x) \<Longrightarrow> safe_o Q r"
  by (auto simp: safe_o_def split: option.splits sum.splits)

lemma safe_o_result: "safe_o P r \<Longrightarrow> r = Some (Inr x) \<Longrightarrow> P x"
  by simp

lemma safe_o_returns: "safe_o P r \<Longrightarrow> r \<noteq> None \<Longrightarrow> \<exists>x. r = Some (Inr x) \<and> P x"
  by (auto simp: safe_o_def split: option.splits sum.splits)

text \<open>An access to an array.\<close>

definition array_at :: "'a list \<Rightarrow> nat \<Rightarrow> 'a c" where
  "array_at xs i = (if i < length xs then Inr (xs ! i) else Inl OutOfBounds)"

section \<open>Arrays as functions from indexes\<close>

text \<open>\<open>blit f a xs\<close> is the array \<open>f\<close> after the values \<open>xs\<close> were stored from index \<open>a\<close> on.\<close>

definition blit :: "(nat \<Rightarrow> 'a) \<Rightarrow> nat \<Rightarrow> 'a list \<Rightarrow> nat \<Rightarrow> 'a" where
  "blit f a xs = (\<lambda>i. if a \<le> i \<and> i < a + length xs then xs ! (i - a) else f i)"

lemma blit_Nil [simp]: "blit f a [] = f"
  by (auto simp: blit_def fun_eq_iff)

lemma blit_Cons: "blit f a (x # xs) = blit (f(a := x)) (Suc a) xs"
proof
  fix i
  show "blit f a (x # xs) i = blit (f(a := x)) (Suc a) xs i"
    by (cases "i = a") (auto simp: blit_def nth_Cons' Suc_diff_le)
qed

lemma blit_outside: "i < a \<or> a + length xs \<le> i \<Longrightarrow> blit f a xs i = f i"
  by (auto simp: blit_def)

lemma blit_inside: "i < length xs \<Longrightarrow> blit f a xs (a + i) = xs ! i"
  by (simp add: blit_def)

section \<open>Numbers\<close>

lemma int_div256: "int n div 256 = int (n div 256)"
  and int_mod256: "int n mod 256 = int (n mod 256)"
  by (simp_all add: zdiv_int zmod_int)

section \<open>Lists\<close>

lemma takeWhile_append_stop:
  "\<forall>x \<in> set xs. P x \<Longrightarrow> \<not> P y \<Longrightarrow> takeWhile P (xs @ y # ys) = xs"
  by (induction xs) auto

lemma dropWhile_hd_stop: "xs = [] \<or> \<not> P (hd xs) \<Longrightarrow> dropWhile P xs = xs"
  by (cases xs) auto

lemma drop_Suc_append: "drop (Suc (length xs)) (xs @ y # ys) = ys"
  by simp

end
