(* ===== verification/CLib.thy ===== *)
theory CLib
  imports Prelude "HOL-Library.Char_ord"
begin

text \<open>
  The functions of the C library the programs rest on, over C strings given as the character
  list before the terminating zero: character classes, number conversions of scanf and atoi,
  string comparison, reading lines.
\<close>

section \<open>Character classes\<close>

abbreviation ascii :: "char \<Rightarrow> nat" where
  "ascii c \<equiv> of_char c"

definition isspace :: "char \<Rightarrow> bool" where
  "isspace c \<longleftrightarrow> ascii c = 32 \<or> 9 \<le> ascii c \<and> ascii c \<le> 13"

definition isdigit :: "char \<Rightarrow> bool" where
  "isdigit c \<longleftrightarrow> 48 \<le> ascii c \<and> ascii c \<le> 57"

definition digit_val :: "char \<Rightarrow> nat option" where
  "digit_val c = (let n = ascii c in
     if 48 \<le> n \<and> n \<le> 57 then Some (n - 48)
     else if 97 \<le> n \<and> n \<le> 102 then Some (n - 87)
     else if 65 \<le> n \<and> n \<le> 70 then Some (n - 55)
     else None)"

definition isxdigit :: "char \<Rightarrow> bool" where
  "isxdigit c \<longleftrightarrow> digit_val c \<noteq> None"

definition hex_value :: "string \<Rightarrow> nat" where
  "hex_value ds = foldl (\<lambda>a c. 16 * a + the (digit_val c)) 0 ds"

section \<open>sscanf of one hexadecimal field\<close>

text \<open>
  One conversion \<open>%<w>x\<close>: leading white space is skipped (reaching the end of the string there is
  the result EOF), then an optional sign and an optional \<open>0x\<close> prefix are read, all counted in the
  width, then hexadecimal digits. No digit at all is a matching failure (sscanf returns 0). The
  value of a negative field wraps to the unsigned type and reads as the negative number again in
  the \<open>int\<close> it is stored in.
\<close>

datatype scan = Scan_EOF | Scan_Fail | Scan_Val int

definition hex_digits :: "nat \<Rightarrow> string \<Rightarrow> string" where
  "hex_digits w t =
     (if 2 \<le> w \<and> 2 \<le> length t \<and> hd t = CHR ''0'' \<and> t ! 1 \<in> {CHR ''x'', CHR ''X''}
      then CHR ''0'' # takeWhile isxdigit (take (w - 2) (drop 2 t))
      else takeWhile isxdigit (take w t))"

definition scan_hex :: "nat \<Rightarrow> string \<Rightarrow> scan" where
  "scan_hex w s = (case dropWhile isspace s of
       [] \<Rightarrow> Scan_EOF
     | c # cs \<Rightarrow>
         (let neg = (c = CHR ''-'');
              signed = (neg \<or> c = CHR ''+'');
              ds = (if signed then hex_digits (w - 1) cs else hex_digits w (c # cs))
          in if ds = [] then Scan_Fail
             else Scan_Val ((if neg then - 1 else 1) * int (hex_value ds))))"

text \<open>sscanf at offset \<open>off\<close> of a string: past the terminating zero it reads out of bounds.\<close>

definition scan_at :: "string \<Rightarrow> nat \<Rightarrow> nat \<Rightarrow> scan c" where
  "scan_at line off w =
     (if off \<le> length line then Inr (scan_hex w (drop off line)) else Inl OutOfBounds)"

section \<open>Printing a byte in hexadecimal\<close>

definition hex_char :: "nat \<Rightarrow> char" where
  "hex_char n = char_of (let d = n mod 16 in if d < 10 then 48 + d else 55 + d)"

definition hex2 :: "nat \<Rightarrow> string" where
  "hex2 n = [hex_char (n div 16), hex_char n]"

definition hex4 :: "nat \<Rightarrow> string" where
  "hex4 n = [hex_char (n div 4096), hex_char (n div 256), hex_char (n div 16), hex_char n]"

lemma length_hex [simp]: "length (hex2 n) = 2" "length (hex4 n) = 4"
  by (simp_all add: hex2_def hex4_def)

lemma hex_digit_le: "n mod 16 \<le> (15::nat)"
  using mod_less_divisor [of 16 n] by linarith

lemma ascii_hex_char: "ascii (hex_char n) = (if n mod 16 < 10 then 48 + n mod 16 else 55 + n mod 16)"
proof -
  show ?thesis using hex_digit_le [of n] by (simp add: hex_char_def Let_def)
qed

lemma hex_char_props:
  "digit_val (hex_char n) = Some (n mod 16)"
  "\<not> isspace (hex_char n)"
  using hex_digit_le [of n] by (auto simp: digit_val_def isspace_def ascii_hex_char Let_def)

lemma hex_char_neq:
  "hex_char n \<noteq> CHR ''-''" "hex_char n \<noteq> CHR ''+''"
  "hex_char n \<noteq> CHR ''x''" "hex_char n \<noteq> CHR ''X''"
proof -
  have "ascii (hex_char n) \<le> 70" "ascii (hex_char n) \<noteq> 45" "ascii (hex_char n) \<noteq> 43"
    using hex_digit_le [of n] by (simp_all add: ascii_hex_char)
  then show "hex_char n \<noteq> CHR ''-''" "hex_char n \<noteq> CHR ''+''"
    "hex_char n \<noteq> CHR ''x''" "hex_char n \<noteq> CHR ''X''" by auto
qed

lemma isxdigit_hex_char: "isxdigit (hex_char n)"
  by (simp add: isxdigit_def hex_char_props)

lemmas hex_char_simps [simp, c_simps] = hex_char_props hex_char_neq isxdigit_hex_char

text \<open>A field of exactly the width's number of digits is read as their value.\<close>

lemma hex_digits_map:
  "hex_digits (length ns) (map hex_char ns @ t) = map hex_char ns"
proof -
  have "\<not> (2 \<le> length ns \<and> 2 \<le> length (map hex_char ns @ t) \<and>
      hd (map hex_char ns @ t) = CHR ''0'' \<and> (map hex_char ns @ t) ! 1 \<in> {CHR ''x'', CHR ''X''})"
    by (auto simp: nth_append)
  then have "hex_digits (length ns) (map hex_char ns @ t)
           = takeWhile isxdigit (take (length ns) (map hex_char ns @ t))"
    unfolding hex_digits_def by (rule if_not_P)
  moreover have "takeWhile isxdigit (map hex_char ns) = map hex_char ns"
    by (simp add: takeWhile_eq_all_conv)
  ultimately show ?thesis by simp
qed

lemma foldl_hex_map:
  "foldl (\<lambda>a c. 16 * a + the (digit_val c)) b (map hex_char ns) = foldl (\<lambda>a n. 16 * a + n mod 16) b ns"
  by (induction ns arbitrary: b) simp_all

lemma scan_hex_map:
  assumes "ns \<noteq> []"
  shows "scan_hex (length ns) (map hex_char ns @ t)
       = Scan_Val (int (foldl (\<lambda>a n. 16 * a + n mod 16) 0 ns))"
proof -
  obtain m ms where ns: "ns = m # ms" using assms by (cases ns) auto
  have "dropWhile isspace (map hex_char ns @ t) = hex_char m # (map hex_char ms @ t)"
    by (simp add: ns)
  moreover have "hex_digits (length ns) (hex_char m # (map hex_char ms @ t)) = map hex_char ns"
    using hex_digits_map [of ns t] by (simp add: ns)
  ultimately show ?thesis
    using assms by (simp add: scan_hex_def Let_def hex_value_def foldl_hex_map)
qed

lemma scan_hex2 [simp, c_simps]: "scan_hex 2 (hex2 n @ t) = Scan_Val (int (n mod 256))"
proof -
  have "16 * (n div 16 mod 16) + n mod 16 = n mod 256"
    using mod_mult2_eq [of n 16 16] by simp
  then show ?thesis
    using scan_hex_map [of "[n div 16, n]" t] by (simp add: hex2_def numeral_2_eq_2)
qed

lemma four_nibbles:
  "(a::nat) = 16 * p + q \<Longrightarrow> b = 256 * r + a \<Longrightarrow> c = 4096 * s + b \<Longrightarrow>
   16 * (16 * (16 * s + r) + p) + q = c"
  by simp

lemma scan_hex4 [simp, c_simps]: "scan_hex 4 (hex4 n @ t) = Scan_Val (int (n mod 65536))"
proof -
  let ?ns = "[n div 4096, n div 256, n div 16, n]"
  have "scan_hex 4 (hex4 n @ t) = scan_hex (length ?ns) (map hex_char ?ns @ t)"
    by (intro arg_cong2 [where f = scan_hex]) (simp_all add: hex4_def)
  also have "\<dots> = Scan_Val (int (foldl (\<lambda>a n. 16 * a + n mod 16) 0 ?ns))"
    by (rule scan_hex_map) simp
  also have "foldl (\<lambda>a n. 16 * a + n mod 16) 0 ?ns
      = 16 * (16 * (16 * (n div 4096 mod 16) + n div 256 mod 16) + n div 16 mod 16) + n mod 16"
    by simp
  also have "\<dots> = n mod 65536"
    using mod_mult2_eq [of n 16 16] mod_mult2_eq [of n 256 16] mod_mult2_eq [of n 4096 16]
    by (intro four_nibbles [of "n mod 256" _ _ "n mod 4096"]) simp_all
  finally show ?thesis .
qed

section \<open>Strings and lines\<close>

text \<open>
  fgets with a buffer of \<open>n\<close> bytes: at most \<open>n - 1\<close> characters, up to and including a newline.
  What the code sees of the line is a C string, so it ends before the first zero character.
\<close>

definition fgets_len :: "nat \<Rightarrow> string \<Rightarrow> nat" where
  "fgets_len n s = (let pre = takeWhile (\<lambda>c. c \<noteq> CHR 0x0A) (take (n - 1) s)
     in if length pre < n - 1 \<and> length pre < length s then Suc (length pre) else length pre)"

definition c_string :: "string \<Rightarrow> string" where
  "c_string s = takeWhile (\<lambda>c. c \<noteq> CHR 0x00) s"

lemma fgets_len_pos: "s \<noteq> [] \<Longrightarrow> 1 < n \<Longrightarrow> 0 < fgets_len n s"
  by (cases s) (auto simp: fgets_len_def Let_def take_Cons')

abbreviation newline :: char where
  "newline \<equiv> CHR 0x0A"

lemma fgets_len_line:
  assumes "newline \<notin> set l" "length l < n - 1"
  shows "fgets_len n (l @ newline # s) = Suc (length l)"
proof -
  obtain k where k: "n - 1 - length l = Suc k"
    using assms(2) by (cases "n - 1 - length l") auto
  have "take (n - 1) (l @ newline # s) = l @ newline # take k s"
    using k assms(2) by simp
  moreover have "takeWhile (\<lambda>c. c \<noteq> newline) (l @ newline # take k s) = l"
    using assms(1) by (intro takeWhile_append_stop) auto
  ultimately show ?thesis using assms(2) by (simp add: fgets_len_def)
qed

lemma c_string_id: "CHR 0x00 \<notin> set s \<Longrightarrow> c_string s = s"
  by (simp add: c_string_def) (metis takeWhile_eq_all_conv)

text \<open>The lines a loop over fgets sees in a file.\<close>

function fgets_lines :: "nat \<Rightarrow> string \<Rightarrow> string list" where
  "fgets_lines n s = (if s = [] \<or> n \<le> 1 then []
     else let k = fgets_len n s in c_string (take k s) # fgets_lines n (drop k s))"
  by pat_completeness auto
termination
  by (relation "measure (\<lambda>(n, s). length s)") (auto simp: fgets_len_pos)

declare fgets_lines.simps [simp del]

lemma fgets_lines_Nil [simp]: "fgets_lines n [] = []"
  by (simp add: fgets_lines.simps)

lemma fgets_lines_line:
  assumes "newline \<notin> set l" "CHR 0x00 \<notin> set l" "length l < n - 1"
  shows "fgets_lines n (l @ newline # s) = (l @ [newline]) # fgets_lines n s"
proof -
  have "c_string (l @ [newline]) = l @ [newline]" using assms(2) by (intro c_string_id) simp
  then show ?thesis
    using fgets_len_line [OF assms(1,3), of s] assms(3)
    by (subst fgets_lines.simps) (auto simp: Let_def)
qed

lemma fgets_lines_concat:
  "\<forall>l \<in> set ls. newline \<notin> set l \<and> CHR 0x00 \<notin> set l \<and> length l < n - 1 \<Longrightarrow>
   fgets_lines n (concat (map (\<lambda>l. l @ [newline]) ls)) = map (\<lambda>l. l @ [newline]) ls"
  by (induction ls) (simp_all add: fgets_lines_line)

section \<open>atoi\<close>

text \<open>
  The conversion of glibc: white space, a sign and decimal digits; the value is limited to the range
  of \<open>long\<close> and its low 32 bits are the result.
\<close>

definition dec_value :: "string \<Rightarrow> int" where
  "dec_value ds = foldl (\<lambda>a c. 10 * a + int (ascii c - 48)) 0 ds"

definition atoi :: "string \<Rightarrow> int" where
  "atoi s = (let t = dropWhile isspace s;
                 neg = (t \<noteq> [] \<and> hd t = CHR ''-'');
                 u = (if t \<noteq> [] \<and> hd t \<in> {CHR ''-'', CHR ''+''} then tl t else t);
                 v = (if neg then - dec_value (takeWhile isdigit u) else dec_value (takeWhile isdigit u))
             in signed_take_bit 31 (max (- (2 ^ 63)) (min (2 ^ 63 - 1) v)))"

section \<open>Printing numbers\<close>

text \<open>The conversions \<open>%0<w>x\<close> and \<open>%d\<close>.\<close>

fun digits_of :: "nat \<Rightarrow> nat \<Rightarrow> nat list" where
  "digits_of b n = (if b < 2 \<or> n < b then [n] else digits_of b (n div b) @ [n mod b])"

declare digits_of.simps [simp del]

definition lower_digit :: "nat \<Rightarrow> char" where
  "lower_digit d = char_of (if d < 10 then 48 + d else 87 + d)"

definition print_hex :: "nat \<Rightarrow> nat \<Rightarrow> string" where
  "print_hex w n = (let ds = map lower_digit (digits_of 16 n) in replicate (w - length ds) (CHR ''0'') @ ds)"

definition print_dec :: "int \<Rightarrow> string" where
  "print_dec i = (if i < 0 then ''-'' else []) @ map lower_digit (digits_of 10 (nat \<bar>i\<bar>))"

end
