(* ===== verification/Interfaces.thy ===== *)
theory Interfaces
  imports CLib
begin

text \<open>
  The contracts between the components, as locales: what the provider promises in the assumptions,
  what a client concludes in the lemmas. Each is interpreted on the model of the provider, in that
  component's theory.
\<close>

section \<open>A firmware image read in blocks\<close>

text \<open>
  Clients ask whether a range holds data and for the bytes of a range; \<open>content\<close> is the image they
  stand for, blank where the file wrote nothing.
\<close>

locale image_source =
  fixes covered :: "int \<Rightarrow> int \<Rightarrow> bool"
    and bytes :: "int \<Rightarrow> int \<Rightarrow> u8 list"
    and content :: "nat \<Rightarrow> u8"
    and limit :: nat
  assumes bytes_content: "a + n < limit \<Longrightarrow> bytes (int a) (int n) = map content [a..<a + n]"
    and uncovered_blank:
      "\<not> covered (int a) (int b) \<Longrightarrow> b < limit \<Longrightarrow> a \<le> i \<Longrightarrow> i \<le> b \<Longrightarrow> content i = 0xFF"
begin

lemma bytes_nth: "a + n < limit \<Longrightarrow> i < n \<Longrightarrow> bytes (int a) (int n) ! i = content (a + i)"
  by (simp add: bytes_content)

lemma length_bytes: "a + n < limit \<Longrightarrow> length (bytes (int a) (int n)) = n"
  by (simp add: bytes_content)

text \<open>A block of \<open>n\<close> bytes is either asked for or blank.\<close>

lemma block_blank:
  assumes "\<not> covered (int a) (int a + int n - 1)" "0 < n" "a + n \<le> limit" "i < n"
  shows "content (a + i) = 0xFF"
proof -
  have "int a + int n - 1 = int (a + n - 1)" using assms(2) by (simp add: of_nat_diff)
  then show ?thesis
    using uncovered_blank [of a "a + n - 1" "a + i"] assms by simp
qed

end

section \<open>A device that takes reports\<close>

text \<open>
  A device that is ready takes every report of its format, stays ready, and records what the
  report asks for.
\<close>

locale report_device =
  fixes send :: "u8 list \<Rightarrow> nat \<Rightarrow> 'w \<Rightarrow> bool \<times> 'w"
    and ready :: "'w \<Rightarrow> bool"
    and wellformed :: "u8 list \<Rightarrow> bool"
    and log :: "'w \<Rightarrow> 'c list"
    and effect :: "u8 list \<Rightarrow> 'c list"
  assumes send_ok: "ready w \<Longrightarrow> wellformed r \<Longrightarrow>
      fst (send r t w) \<and> ready (snd (send r t w)) \<and> log (snd (send r t w)) = log w @ effect r"

end
