(* ===== verification/IntelHex.thy ===== *)
theory IntelHex
  imports Interfaces
begin

text \<open>
  The Intel hex reader of the firmware loader (\<open>hid_bootloader_cli.c\<close>): \<open>parse_hex_line\<close>,
  \<open>read_intel_hex\<close>, \<open>ihex_bytes_within_range\<close> and \<open>ihex_get_data\<close>, over the static variables of
  that section of the file. The arrays are functions from indexes, and an access at an index that
  is not below \<open>MAX_MEMORY_SIZE\<close> is the outcome \<open>OutOfBounds\<close>.
\<close>

section \<open>State\<close>

definition MAX_MEMORY_SIZE :: nat where
  "MAX_MEMORY_SIZE = 0x10000"

record hexfile =
  firmware_image :: "nat \<Rightarrow> u8"
  firmware_mask :: "nat \<Rightarrow> u8"
  end_record_seen :: bool
  byte_count :: int
  extended_addr :: u32

section \<open>One line\<close>

text \<open>
  The address arithmetic \<open>addr + extended_addr + n\<close> mixes \<open>int\<close> with \<open>unsigned int\<close>, so it is
  done modulo 2 to the 32.
\<close>

definition hex_index :: "hexfile \<Rightarrow> int \<Rightarrow> int \<Rightarrow> nat" where
  "hex_index st addr n = unat (word_of_int addr + extended_addr st + word_of_int n :: u32)"

text \<open>
  The data loop of \<open>parse_hex_line\<close>; \<open>off\<close> is the offset of \<open>ptr\<close> in the line. The second
  component is the final checksum accumulator, or \<open>None\<close> where the loop returned 0.
\<close>

function hex_data ::
  "hexfile \<Rightarrow> string \<Rightarrow> nat \<Rightarrow> int \<Rightarrow> int \<Rightarrow> nat \<Rightarrow> int \<Rightarrow> (hexfile \<times> int option) c" where
  "hex_data st line off addr len num cks =
     (if int num = len then Inr (st, Some cks)
      else case scan_at line off 2 of
          Inl e \<Rightarrow> Inl e
        | Inr (Scan_Val v) \<Rightarrow>
            (let i = (word_of_int v :: u8); idx = hex_index st addr (int num)
             in if idx < MAX_MEMORY_SIZE
                then let st' = st\<lparr>firmware_image := (firmware_image st)(idx := i),
                                  firmware_mask := (firmware_mask st)(idx := 1)\<rparr>
                     in if num + 1 \<ge> 256 then Inr (st', None)
                        else hex_data st' line (off + 2) addr len (num + 1) (cks + uint i)
                else Inl OutOfBounds)
        | Inr _ \<Rightarrow> Inr (st, None))"
  by pat_completeness auto
termination
  by (relation "measure (\<lambda>(st, line, off, addr, len, num, cks). 256 - num)") auto

declare hex_data.simps [simp del]

text \<open>An extended address record (code 2 or 4, length 2): \<open>shift\<close> is 4 or 16.\<close>

definition hex_extended :: "hexfile \<Rightarrow> string \<Rightarrow> int \<Rightarrow> nat \<Rightarrow> (hexfile \<times> bool) c" where
  "hex_extended st line cks shift =
     bind_c (scan_at line 9 4) (\<lambda>r. case r of
       Scan_Fail \<Rightarrow> Inr (st, True)
     | Scan_EOF \<Rightarrow> Inl Uninitialised
     | Scan_Val i \<Rightarrow>
         (let cks' = cks + ((i div 256) mod 256 + i mod 256)
          in bind_c (scan_at line 13 2) (\<lambda>r. case r of
               Scan_Fail \<Rightarrow> Inr (st, True)
             | Scan_EOF \<Rightarrow> Inl Uninitialised
             | Scan_Val cksum \<Rightarrow>
                 if (cks' mod 256 + cksum mod 256) mod 256 \<noteq> 0 then Inr (st, True)
                 else Inr (st\<lparr>extended_addr := push_bit shift (word_of_int i)\<rparr>, True))))"

text \<open>
  After the header fields \<open>len\<close>, \<open>addr\<close> and \<open>code\<close>; the Boolean is the returned 1 or 0.
\<close>

definition hex_body :: "hexfile \<Rightarrow> string \<Rightarrow> int \<Rightarrow> int \<Rightarrow> int \<Rightarrow> (hexfile \<times> bool) c" where
  "hex_body st line len addr code =
     (if hex_index st addr len \<ge> MAX_MEMORY_SIZE then Inr (st, False)
      else let cks = len mod 256 + (addr div 256) mod 256 + addr mod 256 + code mod 256
      in if code \<noteq> 0
         then if code = 1 then Inr (st\<lparr>end_record_seen := True\<rparr>, True)
              else if code = 2 \<and> len = 2 then hex_extended st line cks 4
              else if code = 4 \<and> len = 2 then hex_extended st line cks 16
              else Inr (st, True)
         else bind_c (hex_data (st\<lparr>byte_count := byte_count st + len\<rparr>) line 9 addr len 0 cks)
            (\<lambda>(st', r). case r of
               None \<Rightarrow> Inr (st', False)
             | Some cks' \<Rightarrow>
                 bind_c (scan_at line (9 + 2 * nat len) 2) (\<lambda>r. case r of
                   Scan_Fail \<Rightarrow> Inr (st', False)
                 | Scan_EOF \<Rightarrow> Inl Uninitialised
                 | Scan_Val cksum \<Rightarrow>
                     Inr (st', (cks' mod 256 + cksum mod 256) mod 256 = 0))))"

definition parse_hex_line :: "hexfile \<Rightarrow> string \<Rightarrow> (hexfile \<times> bool) c" where
  "parse_hex_line st line =
     (if line = [] \<or> hd line \<noteq> CHR '':'' then Inr (st, False)
      else if length line < 11 then Inr (st, False)
      else bind_c (scan_at line 1 2) (\<lambda>r. case r of
        Scan_Fail \<Rightarrow> Inr (st, False)
      | Scan_EOF \<Rightarrow> Inl Uninitialised
      | Scan_Val len \<Rightarrow>
          if int (length line) < 11 + len * 2 then Inr (st, False)
          else bind_c (scan_at line 3 4) (\<lambda>r. case r of
            Scan_Fail \<Rightarrow> Inr (st, False)
          | Scan_EOF \<Rightarrow> Inl Uninitialised
          | Scan_Val addr \<Rightarrow>
              bind_c (scan_at line 7 2) (\<lambda>r. case r of
                Scan_Fail \<Rightarrow> Inr (st, False)
              | Scan_EOF \<Rightarrow> Inl Uninitialised
              | Scan_Val code \<Rightarrow> hex_body st line len addr code))))"

section \<open>A whole file\<close>

text \<open>
  The reading loop. The Boolean input says whether the end-of-file flag of the program's standard
  input is set, which the code tests (it only reads \<open>fp\<close>).
\<close>

function hex_lines :: "bool \<Rightarrow> hexfile \<Rightarrow> string \<Rightarrow> (hexfile \<times> int) c" where
  "hex_lines stdin_eof st s =
     (if s = [] then Inr (st, byte_count st)
      else let n = fgets_len 1024 s; buf = c_string (take n s)
      in bind_c (if buf \<noteq> [] then parse_hex_line st buf else Inr (st, True)) (\<lambda>(st', ok).
           if \<not> ok then Inr (st', - 2)
           else if end_record_seen st' then Inr (st', byte_count st')
           else if stdin_eof then Inr (st', byte_count st')
           else hex_lines stdin_eof st' (drop n s)))"
  by pat_completeness auto
termination
  by (relation "measure (\<lambda>(e, st, s). length s)") (auto simp: fgets_len_pos)

declare hex_lines.simps [simp del]

definition hex_reset :: hexfile where
  "hex_reset = \<lparr>firmware_image = (\<lambda>_. 0xFF), firmware_mask = (\<lambda>_. 0),
                end_record_seen = False, byte_count = 0, extended_addr = 0\<rparr>"

text \<open>\<open>read_intel_hex\<close> on the contents of the named file, \<open>None\<close> where it cannot be opened.\<close>

definition read_intel_hex :: "bool \<Rightarrow> string option \<Rightarrow> (hexfile \<times> int) c" where
  "read_intel_hex stdin_eof f = (case f of
       None \<Rightarrow> Inr (hex_reset, - 1)
     | Some s \<Rightarrow> hex_lines stdin_eof hex_reset s)"

section \<open>Reading the image\<close>

definition ihex_bytes_within_range :: "hexfile \<Rightarrow> int \<Rightarrow> int \<Rightarrow> bool" where
  "ihex_bytes_within_range st begin' end' =
     (if begin' < 0 \<or> begin' \<ge> int MAX_MEMORY_SIZE \<or> end' < 0 \<or> end' \<ge> int MAX_MEMORY_SIZE
      then False
      else list_ex (\<lambda>i. firmware_mask st i \<noteq> 0) [nat begin' ..< Suc (nat end')])"

definition ihex_get_data :: "hexfile \<Rightarrow> int \<Rightarrow> int \<Rightarrow> u8 list" where
  "ihex_get_data st addr len =
     (if addr < 0 \<or> len < 0 \<or> addr + len \<ge> int MAX_MEMORY_SIZE
      then replicate (nat len) 255
      else map (\<lambda>i. if firmware_mask st i \<noteq> 0 then firmware_image st i else 255)
             [nat addr ..< nat addr + nat len])"

section \<open>The record format\<close>

text \<open>
  A record as the Intel hex format writes it: a colon, the number of data bytes, the load address,
  the record type, the data and the checksum byte, all in hexadecimal.
\<close>

definition hex_bytes :: "u8 list \<Rightarrow> string" where
  "hex_bytes bs = concat (map (\<lambda>b. hex2 (unat b)) bs)"

definition ihex_raw :: "nat \<Rightarrow> nat \<Rightarrow> u8 list \<Rightarrow> nat \<Rightarrow> string" where
  "ihex_raw code a bs ck =
     '':'' @ hex2 (length bs) @ hex4 a @ hex2 code @ hex_bytes bs @ hex2 ck"

definition ihex_sum :: "nat \<Rightarrow> nat \<Rightarrow> u8 list \<Rightarrow> nat" where
  "ihex_sum code a bs =
     length bs mod 256 + a div 256 mod 256 + a mod 256 + code mod 256 + sum_list (map unat bs)"

definition ihex_checksum :: "nat \<Rightarrow> nat \<Rightarrow> u8 list \<Rightarrow> nat" where
  "ihex_checksum code a bs = (256 - ihex_sum code a bs mod 256) mod 256"

definition ihex_record :: "nat \<Rightarrow> nat \<Rightarrow> u8 list \<Rightarrow> string" where
  "ihex_record code a bs = ihex_raw code a bs (ihex_checksum code a bs)"

text \<open>The state after the bytes \<open>bs\<close> were loaded at \<open>a\<close> relative to the extended address.\<close>

definition hex_load :: "hexfile \<Rightarrow> nat \<Rightarrow> u8 list \<Rightarrow> hexfile" where
  "hex_load st a bs = st\<lparr>firmware_image := blit (firmware_image st) (unat (extended_addr st) + a) bs,
     firmware_mask := blit (firmware_mask st) (unat (extended_addr st) + a)
                        (replicate (length bs) 1)\<rparr>"

lemma length_hex_bytes [simp]: "length (hex_bytes bs) = 2 * length bs"
  by (induction bs) (simp_all add: hex_bytes_def)

lemma hex_bytes_Cons [simp]: "hex_bytes (b # bs) = hex2 (unat b) @ hex_bytes bs"
  and hex_bytes_Nil [simp]: "hex_bytes [] = []"
  by (simp_all add: hex_bytes_def)

lemma int_sum_bound: "(x::nat) + y + z < n \<Longrightarrow> int y + int x + int z < int n"
  by linarith

lemma hex_index_nowrap:
  assumes "unat (extended_addr st) + a + n < 2 ^ 32"
  shows "hex_index st (int a) (int n) = unat (extended_addr st) + a + n"
proof -
  have "uint (word_of_int (int a) + extended_addr st + word_of_int (int n) :: u32)
      = (int a + int (unat (extended_addr st)) + int n) mod 2 ^ 32"
    by (simp add: uint_word_ariths unsigned_of_int unsigned_of_nat take_bit_eq_mod zmod_int mod_simps)
  also have "\<dots> = int a + int (unat (extended_addr st)) + int n"
  proof (rule mod_pos_pos_trivial)
    have "int (2 ^ 32) = (2::int) ^ 32" by simp
    then show "int a + int (unat (extended_addr st)) + int n < 2 ^ 32"
      using int_sum_bound [OF assms] by (simp only:)
  qed simp
  finally have "int (hex_index st (int a) (int n)) = int (unat (extended_addr st) + a + n)"
    unfolding hex_index_def uint_nat by linarith
  then show ?thesis by (rule of_nat_eq_iff [THEN iffD1])
qed

lemma scan_at_hex2 [simp, c_simps]:
  "off = length pre \<Longrightarrow> scan_at (pre @ hex2 n @ t) off 2 = Inr (Scan_Val (int (n mod 256)))"
  by (simp add: scan_at_def)

lemma scan_at_hex4 [simp, c_simps]:
  "off = length pre \<Longrightarrow> scan_at (pre @ hex4 n @ t) off 4 = Inr (Scan_Val (int (n mod 65536)))"
  by (simp add: scan_at_def)

lemma hex_load_Cons:
  "hex_load st (a + n) (b # bs) =
   hex_load (st\<lparr>firmware_image := (firmware_image st)(unat (extended_addr st) + a + n := b),
                firmware_mask := (firmware_mask st)(unat (extended_addr st) + a + n := 1)\<rparr>)
     (a + Suc n) bs"
  by (simp add: hex_load_def blit_Cons add.assoc)

lemma hex_data_loads:
  assumes "num + length bs \<le> 255"
    and "unat (extended_addr st) + a + (num + length bs) < MAX_MEMORY_SIZE"
  shows "hex_data st (pre @ hex_bytes bs @ t) (length pre) (int a) (int (num + length bs)) num cks
     = Inr (hex_load st (a + num) bs, Some (cks + int (sum_list (map unat bs))))"
  using assms
proof (induction bs arbitrary: st pre num cks)
  case Nil
  then show ?case by (simp add: hex_data.simps hex_load_def)
next
  case (Cons b bs)
  let ?i = "unat (extended_addr st) + a + num"
  let ?st = "st\<lparr>firmware_image := (firmware_image st)(?i := b),
                firmware_mask := (firmware_mask st)(?i := 1)\<rparr>"
  have idx: "hex_index st (int a) (int num) = ?i"
    using Cons.prems by (intro hex_index_nowrap) (simp add: MAX_MEMORY_SIZE_def)
  have byte: "unat b mod 256 = unat b" for b :: u8
    using unsigned_less [of b, where 'a = nat] by simp
  have scan: "scan_at (pre @ hex2 (unat b) @ t) (length pre) 2 = Inr (Scan_Val (uint b))" for t
    by (simp add: byte)
  have "hex_data st (pre @ hex_bytes (b # bs) @ t) (length pre) (int a)
          (int (num + length (b # bs))) num cks
      = hex_data ?st ((pre @ hex2 (unat b)) @ hex_bytes bs @ t) (length (pre @ hex2 (unat b)))
          (int a) (int (Suc num + length bs)) (Suc num) (cks + int (unat b))"
    using Cons.prems by (subst hex_data.simps) (simp add: scan idx Let_def del: scan_at_hex2)
  also have "\<dots> = Inr (hex_load ?st (a + Suc num) bs,
                      Some (cks + int (unat b) + int (sum_list (map unat bs))))"
    using Cons.prems by (subst Cons.IH) simp_all
  also have "\<dots> = Inr (hex_load st (a + num) (b # bs),
                      Some (cks + int (sum_list (map unat (b # bs)))))"
    by (simp add: hex_load_Cons)
  finally show ?case .
qed

section \<open>What a record does\<close>

lemma ihex_sum_parts:
  "int (length bs) mod 256 + (int a div 256) mod 256 + int a mod 256 + int code mod 256
     + int (sum_list (map unat bs)) = int (ihex_sum code a bs)"
  by (simp add: ihex_sum_def zdiv_int zmod_int)

text \<open>The header fields of a record are read back.\<close>

lemma parse_raw_header:
  assumes "length bs \<le> 255" "a < 65536" "code < 256"
  shows "parse_hex_line st (ihex_raw code a bs ck @ t)
       = hex_body st (ihex_raw code a bs ck @ t) (int (length bs)) (int a) (int code)"
proof -
  let ?l = "ihex_raw code a bs ck @ t"
  have "scan_at ?l 1 2 = Inr (Scan_Val (int (length bs)))"
    using scan_at_hex2 [of 1 "'':''"] assms(1) by (simp add: ihex_raw_def del: scan_at_hex2)
  moreover have "scan_at ?l 3 4 = Inr (Scan_Val (int a))"
    using scan_at_hex4 [of 3 "'':'' @ hex2 (length bs)"] assms(2)
    by (simp add: ihex_raw_def del: scan_at_hex4)
  moreover have "scan_at ?l 7 2 = Inr (Scan_Val (int code))"
    using scan_at_hex2 [of 7 "'':'' @ hex2 (length bs) @ hex4 a"] assms(3)
    by (simp add: ihex_raw_def del: scan_at_hex2)
  ultimately show ?thesis
    by (simp add: parse_hex_line_def) (simp add: ihex_raw_def)
qed

text \<open>
  A data record that fits is loaded whatever its checksum byte is; the line is accepted exactly
  if the bytes add up to 0 modulo 256.
\<close>

lemma parse_raw_data:
  assumes "length bs \<le> 255" "a < 65536"
    and "unat (extended_addr st) + a + length bs < MAX_MEMORY_SIZE"
  shows "parse_hex_line st (ihex_raw 0 a bs ck @ t)
       = Inr (hex_load (st\<lparr>byte_count := byte_count st + int (length bs)\<rparr>) a bs,
              (ihex_sum 0 a bs + ck) mod 256 = 0)"
proof -
  let ?st = "st\<lparr>byte_count := byte_count st + int (length bs)\<rparr>"
  let ?pre = "'':'' @ hex2 (length bs) @ hex4 a @ hex2 0"
  have line: "ihex_raw 0 a bs ck @ t = ?pre @ hex_bytes bs @ (hex2 ck @ t)"
    by (simp add: ihex_raw_def)
  have range: "hex_index st (int a) (int (length bs)) < MAX_MEMORY_SIZE"
    using assms(3) by (subst hex_index_nowrap) (simp_all add: MAX_MEMORY_SIZE_def)
  have load: "hex_data ?st (ihex_raw 0 a bs ck @ t) 9 (int a) (int (length bs)) 0 s
      = Inr (hex_load ?st a bs, Some (s + int (sum_list (map unat bs))))" for s
    using hex_data_loads [of 0 bs ?st a ?pre "hex2 ck @ t" s] assms unfolding line by simp
  have ck: "scan_at (ihex_raw 0 a bs ck @ t) (9 + 2 * length bs) 2
      = Inr (Scan_Val (int (ck mod 256)))"
    using scan_at_hex2 [of "9 + 2 * length bs" "?pre @ hex_bytes bs" ck t] unfolding line by simp
  have "(int m mod 256 + int (ck mod 256)) mod 256 = int ((m + ck) mod 256)" for m
    by (simp add: zmod_int mod_simps)
  then have mod: "(int m mod 256 + int (ck mod 256)) mod 256 = 0 \<longleftrightarrow> (m + ck) mod 256 = 0" for m
    by simp
  show ?thesis
    using range ihex_sum_parts [of bs a 0]
    by (simp add: parse_raw_header assms hex_body_def not_le load ck mod)
qed

text \<open>
  What the reader makes of one record. It follows the code: a record that does not end below
  0x10000 is refused, whatever its type, and only data and extended address records have
  their checksum tested.
\<close>

definition record_effect :: "hexfile \<Rightarrow> nat \<Rightarrow> nat \<Rightarrow> u8 list \<Rightarrow> nat \<Rightarrow> hexfile \<times> bool" where
  "record_effect st rtype a bs ck =
     (let good = (ihex_sum rtype a bs + ck) mod 256 = 0;
          seg = 256 * unat (bs ! 0) + unat (bs ! 1)
      in if unat (extended_addr st) + a + length bs \<ge> MAX_MEMORY_SIZE then (st, False)
         else if rtype = 0 then (hex_load (st\<lparr>byte_count := byte_count st + int (length bs)\<rparr>) a bs, good)
         else if rtype = 1 then (st\<lparr>end_record_seen := True\<rparr>, True)
         else if rtype = 2 \<and> length bs = 2 \<and> good
           then (st\<lparr>extended_addr := word_of_nat (seg * 16)\<rparr>, True)
         else if rtype = 4 \<and> length bs = 2 \<and> good
           then (st\<lparr>extended_addr := word_of_nat (seg * 65536)\<rparr>, True)
         else (st, True))"

lemma hex_char_cong: "m mod 16 = n mod 16 \<Longrightarrow> hex_char m = hex_char n"
  by (simp add: hex_char_def)

lemma hex2_pair:
  assumes "y < 256"
  shows "hex2 x @ hex2 y = hex4 (256 * x + y)"
proof -
  have hi: "(256 * x + y) div 256 = x" using assms by simp
  moreover have "(256 * x + y) div 4096 = x div 16"
    using div_mult2_eq [of "256 * x + y" 256 16] hi by simp
  moreover have "(256 * x + y) div 16 mod 16 = y div 16 mod 16"
  proof -
    have "256 * x + y = y + 16 * (16 * x)" by simp
    then have "(256 * x + y) div 16 = y div 16 + 16 * x" by (simp only: div_mult_self2)
    then show ?thesis by simp
  qed
  moreover have "(256 * x + y) mod 16 = y mod 16"
    using mod_mult_self2 [of y 16 "16 * x"] by (simp add: add.commute mult.assoc)
  ultimately have "hex_char ((256 * x + y) div 4096) = hex_char (x div 16)"
    "hex_char ((256 * x + y) div 256) = hex_char x"
    "hex_char ((256 * x + y) div 16) = hex_char (y div 16)"
    "hex_char (256 * x + y) = hex_char y"
    by (simp_all only: hex_char_def)
  then show ?thesis by (simp add: hex2_def hex4_def)
qed

lemma hex_extended_raw:
  assumes "length bs = 2" and "s = int (length bs) mod 256 + (int a div 256) mod 256 + int a mod 256
     + int rtype mod 256"
  shows "hex_extended st (ihex_raw rtype a bs ck @ t) s shift
     = Inr (if (ihex_sum rtype a bs + ck) mod 256 = 0
            then st\<lparr>extended_addr := push_bit shift (word_of_nat (256 * unat (bs ! 0) + unat (bs ! 1)))\<rparr>
            else st, True)"
proof -
  obtain x y where bs: "bs = [x, y]"
    using assms(1) by (auto simp: length_Suc_conv numeral_2_eq_2)
  define seg where "seg = 256 * unat x + unat y"
  have xy: "unat x < 256" "unat y < 256"
    using unsigned_less [of x, where 'a = nat] unsigned_less [of y, where 'a = nat] by simp_all
  let ?pre = "'':'' @ hex2 (length bs) @ hex4 a @ hex2 rtype"
  have line: "ihex_raw rtype a bs ck @ t = ?pre @ hex4 seg @ (hex2 ck @ t)"
    using hex2_pair [OF xy(2), of "unat x"] by (simp add: ihex_raw_def bs seg_def)
  have scan: "scan_at (ihex_raw rtype a bs ck @ t) 9 4 = Inr (Scan_Val (int seg))"
    using scan_at_hex4 [of 9 ?pre seg "hex2 ck @ t"] xy unfolding line by (simp add: seg_def)
  have ck: "scan_at (ihex_raw rtype a bs ck @ t) 13 2 = Inr (Scan_Val (int (ck mod 256)))"
    using scan_at_hex2 [of 13 "?pre @ hex4 seg" ck t] unfolding line by simp
  have "seg div 256 mod 256 = unat x" "seg mod 256 = unat y"
    using xy by (simp_all add: seg_def)
  then have parts: "int seg div 256 mod 256 = int (unat x)" "int seg mod 256 = int (unat y)"
    by (simp_all only: int_div256 int_mod256)
  have "s + (int seg div 256 mod 256 + int seg mod 256) = int (ihex_sum rtype a bs)"
    using xy assms(2) ihex_sum_parts [of bs a rtype] unfolding parts by (simp add: bs)
  then have "((s + (int seg div 256 mod 256 + int seg mod 256)) mod 256 + int (ck mod 256) mod 256) mod 256
      = int ((ihex_sum rtype a bs + ck) mod 256)"
    by (simp add: zmod_int mod_simps)
  then have good: "(((s + (int seg div 256 mod 256 + int seg mod 256)) mod 256
      + int (ck mod 256) mod 256) mod 256 \<noteq> 0) = (\<not> (ihex_sum rtype a bs + ck) mod 256 = 0)"
    by (simp only: of_nat_eq_0_iff)
  have seg: "256 * unat (bs ! 0) + unat (bs ! 1) = seg"
    by (simp add: bs seg_def)
  show ?thesis
    by (simp only: hex_extended_def scan ck bind_c_Inr scan.case Let_def good seg of_int_of_nat_eq
        if_not_P split: if_split) simp
qed

lemma push_bit_4: "push_bit 4 (word_of_nat n :: u32) = word_of_nat (n * 16)"
  and push_bit_16: "push_bit 16 (word_of_nat n :: u32) = word_of_nat (n * 65536)"
  by (simp_all add: push_bit_eq_mult)

lemma complement_sum:
  "r \<le> 255 \<Longrightarrow> 256 * q + r = s \<Longrightarrow> s + x + (256 - r) = x + 256 * (q + (1::nat))"
  by auto

lemma checksum_cancels: "(s + x + (256 - s mod 256)) mod 256 = x mod (256::nat)"
proof -
  have "s mod 256 \<le> 255" using mod_less_divisor [of 256 s] by simp
  then have "s + x + (256 - s mod 256) = x + 256 * (s div 256 + 1)"
    by (rule complement_sum) simp
  then show ?thesis by (simp only: mod_mult_self2)
qed

lemma checksum_shift:
  assumes "(s + c) mod 256 = (0::nat)"
  shows "(s + x + c) mod 256 = x mod 256"
proof -
  have "(s + x + c) mod 256 = ((s + c) mod 256 + x) mod 256"
    by (simp add: mod_simps ac_simps)
  then show ?thesis using assms by simp
qed

lemma parse_raw_record:
  assumes "length bs \<le> 255" "a < 65536" "rtype < 256" "unat (extended_addr st) \<le> 0xFFFE0000"
  shows "parse_hex_line st (ihex_raw rtype a bs ck @ t) = Inr (record_effect st rtype a bs ck)"
proof -
  let ?l = "ihex_raw rtype a bs ck @ t"
  have idx: "hex_index st (int a) (int (length bs)) = unat (extended_addr st) + a + length bs"
    using assms by (intro hex_index_nowrap) simp
  have header: "parse_hex_line st ?l = hex_body st ?l (int (length bs)) (int a) (int rtype)"
    using assms by (intro parse_raw_header)
  consider "unat (extended_addr st) + a + length bs \<ge> MAX_MEMORY_SIZE"
    | "unat (extended_addr st) + a + length bs < MAX_MEMORY_SIZE" "rtype = 0"
    | "unat (extended_addr st) + a + length bs < MAX_MEMORY_SIZE" "rtype \<noteq> 0"
        "\<not> ((rtype = 2 \<or> rtype = 4) \<and> length bs = 2)"
    | "unat (extended_addr st) + a + length bs < MAX_MEMORY_SIZE" "rtype = 2 \<or> rtype = 4"
        "length bs = 2"
    by linarith
  then show ?thesis
  proof cases
    case 1
    then show ?thesis by (simp add: header hex_body_def idx record_effect_def)
  next
    case 2
    then show ?thesis using parse_raw_data [of bs a st ck t] assms by (simp add: record_effect_def)
  next
    case 3
    then show ?thesis by (auto simp: header hex_body_def idx record_effect_def Let_def)
  next
    case 4
    define shift :: nat where "shift = (if rtype = 2 then 4 else 16)"
    let ?s = "int (length bs) mod 256 + (int a div 256) mod 256 + int a mod 256 + int rtype mod 256"
    have "hex_index st (int a) 2 < MAX_MEMORY_SIZE"
      using idx 4 by simp
    then have "parse_hex_line st ?l = hex_extended st ?l ?s shift"
      using 4 by (auto simp: header hex_body_def Let_def shift_def not_le)
    also have "\<dots> = Inr (record_effect st rtype a bs ck)"
      using 4 unfolding hex_extended_raw [OF 4(3) refl]
      by (auto simp: record_effect_def shift_def push_bit_4 push_bit_16 simp del: of_nat_add of_nat_mult)
    finally show ?thesis .
  qed
qed

text \<open>
  What a record means by the Intel hex format: data go to the base address plus the load address, type
  1 ends the file, types 2 and 4 give the base address in paragraphs and in units of 64 KiB, the other
  types (start addresses) do not concern the image.
\<close>

definition record_meaning :: "nat \<Rightarrow> nat \<Rightarrow> u8 list \<Rightarrow> hexfile \<Rightarrow> hexfile" where
  "record_meaning rtype a bs st =
     (let v = 256 * unat (bs ! 0) + unat (bs ! 1) in
      if rtype = 0
      then st\<lparr>firmware_image := blit (firmware_image st) (unat (extended_addr st) + a) bs,
              firmware_mask := blit (firmware_mask st) (unat (extended_addr st) + a) (replicate (length bs) 1),
              byte_count := byte_count st + int (length bs)\<rparr>
      else if rtype = 1 then st\<lparr>end_record_seen := True\<rparr>
      else if rtype = 2 then st\<lparr>extended_addr := word_of_nat (v * 16)\<rparr>
      else if rtype = 4 then st\<lparr>extended_addr := word_of_nat (v * 65536)\<rparr>
      else st)"

lemma ihex_checksum_good: "(ihex_sum code a bs + ihex_checksum code a bs) mod 256 = 0"
  using checksum_cancels [of "ihex_sum code a bs" 0] by (simp add: ihex_checksum_def mod_simps)

lemma parse_good_record:
  assumes "length bs \<le> 255" "a < 65536" "rtype < 256" "rtype \<in> {2, 4} \<longrightarrow> length bs = 2"
    and "unat (extended_addr st) \<le> 0xFFFE0000"
  shows "parse_hex_line st (ihex_record rtype a bs @ t) =
    (if unat (extended_addr st) + a + length bs < MAX_MEMORY_SIZE then Inr (record_meaning rtype a bs st, True)
     else Inr (st, False))"
  using parse_raw_record [OF assms(1-3,5), of "ihex_checksum rtype a bs" t] assms(4) ihex_checksum_good [of rtype a bs]
  by (auto simp: ihex_record_def record_effect_def record_meaning_def hex_load_def Let_def)

text \<open>
  C18. While the base address is at most 0xFFFE0000, so that the sum of addresses does not wrap, no
  record makes \<open>parse_hex_line\<close> leave the line or the image, whatever its checksum. A record of the
  format with the right checksum is given its meaning if base, load address and length add up to less than
  0x10000, and is refused without a change otherwise; and a data record with a wrong checksum is refused.
\<close>

theorem parse_hex_line_reads_record:
  assumes "length bs \<le> 255" "a < 65536" "rtype < 256" "unat (extended_addr st) \<le> 0xFFFE0000"
  shows "(\<exists>st' ok. parse_hex_line st (ihex_raw rtype a bs ck @ t) = Inr (st', ok) \<and>
      (rtype = 0 \<and> ck mod 256 \<noteq> ihex_checksum 0 a bs \<longrightarrow> \<not> ok)) \<and>
    ((rtype \<in> {2, 4} \<longrightarrow> length bs = 2) \<longrightarrow>
      parse_hex_line st (ihex_record rtype a bs @ t) =
        (if unat (extended_addr st) + a + length bs < MAX_MEMORY_SIZE then Inr (record_meaning rtype a bs st, True)
         else Inr (st, False)))"
proof -
  have "ck mod 256 = ihex_checksum 0 a bs" if "(ihex_sum 0 a bs + ck) mod 256 = 0"
  proof -
    have "ck mod 256 = (ihex_sum 0 a bs + ck + (256 - ihex_sum 0 a bs mod 256)) mod 256"
      by (rule checksum_cancels [symmetric])
    also have "\<dots> = ihex_checksum 0 a bs"
      unfolding ihex_checksum_def
      using checksum_shift [OF that, of "256 - ihex_sum 0 a bs mod 256"] by (simp only: ac_simps)
    finally show ?thesis .
  qed
  then show ?thesis
    using parse_raw_record [OF assms, of ck t] parse_good_record [OF assms(1-3) _ assms(4), of t]
    by (cases "rtype = 0") (auto simp: record_effect_def Let_def)
qed

theorem parse_hex_line_reads_record_witness:
  "parse_hex_line hex_reset (ihex_record 2 0 [0x01, 0x00] @ [CHR 0x0D, newline])
     = Inr (hex_reset\<lparr>extended_addr := 0x1000\<rparr>, True)"
  using parse_hex_line_reads_record [of "[0x01, 0x00]" 0 2 hex_reset 0 "[CHR 0x0D, newline]"]
  by (simp add: hex_reset_def record_meaning_def MAX_MEMORY_SIZE_def)

section \<open>Corrupted bytes\<close>

text \<open>The bytes of a data record in the order of the line.\<close>

definition data_record :: "nat \<Rightarrow> u8 list \<Rightarrow> nat \<Rightarrow> u8 list" where
  "data_record a bs ck = [word_of_nat (length bs), word_of_nat (a div 256), word_of_nat a, 0] @ bs @ [word_of_nat ck]"

lemma unat_of_byte: "n < 256 \<Longrightarrow> unat (word_of_nat n :: u8) = n"
  by (simp add: unat_of_nat)

lemma data_line:
  assumes "length x = length bs + 5" "x ! 0 = word_of_nat (length bs)" "x ! 3 = 0" "length bs \<le> 255"
  shows "\<exists>a' bs' ck'. a' < 65536 \<and> length bs' = length bs \<and> CHR '':'' # hex_bytes x = ihex_raw 0 a' bs' ck' \<and>
    ihex_sum 0 a' bs' + ck' = sum_list (map unat x)"
proof -
  obtain l h m r where x: "x = l # h # m # 0 # r" "length r = Suc (length bs)"
    using assms(1,3) by (auto simp: numeral_eq_Suc length_Suc_conv)
  then obtain ds c where r: "r = ds @ [c]" "length ds = length bs"
    by (cases r rule: rev_cases) auto
  have l: "l = word_of_nat (length bs)" using assms(2) x(1) by simp
  have byte: "unat w < 256" for w :: u8 using unsigned_less [of w, where 'a = nat] by simp
  define a' where "a' = 256 * unat h + unat m"
  have a': "a' < 65536" "a' div 256 = unat h" "a' mod 256 = unat m"
    using byte [of h] byte [of m] by (simp_all add: a'_def)
  have len: "unat l = length bs" using assms(4) by (simp add: l unat_of_byte)
  have "CHR '':'' # hex_bytes x = ihex_raw 0 a' ds (unat c)"
    using hex2_pair [OF byte [of m], of "unat h"] by (simp add: x r ihex_raw_def a'_def len hex_bytes_def)
  moreover have "ihex_sum 0 a' ds + unat c = sum_list (map unat x)"
    using byte [of h] assms(4) by (simp add: ihex_sum_def x r a' len)
  ultimately show ?thesis using a'(1) r(2) by blast
qed

lemma update_sum:
  fixes xs :: "u8 list"
  assumes "i < length xs" "b \<noteq> xs ! i" "sum_list (map unat xs) mod 256 = 0"
  shows "sum_list (map unat (xs[i := b])) mod 256 \<noteq> 0"
proof
  assume zero: "sum_list (map unat (xs[i := b])) mod 256 = 0"
  have "sum_list (map unat (xs[i := b])) + unat (xs ! i) = sum_list (map unat xs) + unat b"
    using sum_list_update [of i "map unat xs" "unat b"] member_le_sum_list [of "unat (xs ! i)" "map unat xs"]
      assms(1) by (simp add: map_update)
  then have "unat (xs ! i) mod 256 = unat b mod 256"
    using zero assms(3) checksum_shift [of "sum_list (map unat xs)" 0 "unat b"]
      checksum_shift [of "sum_list (map unat (xs[i := b]))" 0 "unat (xs ! i)"] by simp
  then show False
    using assms(2) unsigned_less [of b, where 'a = nat] unsigned_less [of "xs ! i", where 'a = nat]
    by (simp add: word_unat_eq_iff)
qed

text \<open>
  C30. A data record in which one byte was replaced by another value, be it of the address, of the data
  or the checksum, is refused, if the base address is at most 0xFFFE0000. (The two bytes left out are
  the length, which changes where the checksum is looked for, and the type: a data record whose type
  becomes 1, 2 or 4 is accepted.)
\<close>

theorem corrupted_byte_refused:
  assumes "length bs \<le> 255" "a < 65536" "unat (extended_addr st) \<le> 0xFFFE0000"
    and "x = data_record a bs (ihex_checksum 0 a bs)" "i < length x" "i \<noteq> 0" "i \<noteq> 3" "b \<noteq> x ! i"
  shows "CHR '':'' # hex_bytes x = ihex_record 0 a bs \<and>
    (\<exists>st'. parse_hex_line st (CHR '':'' # hex_bytes (x[i := b]) @ t) = Inr (st', False))"
proof -
  have "ihex_checksum 0 a bs < 256" by (simp add: ihex_checksum_def)
  then have unats: "unat (word_of_nat (length bs) :: u8) = length bs" "unat (word_of_nat (a div 256) :: u8) = a div 256"
      "unat (word_of_nat (ihex_checksum 0 a bs) :: u8) = ihex_checksum 0 a bs" "unat (word_of_nat a :: u8) = a mod 256"
    using assms(1,2) by (simp_all add: unat_of_nat)
  have "hex2 (a div 256) @ hex2 (a mod 256) = hex4 a" using hex2_pair [of "a mod 256" "a div 256"] by simp
  then have line: "CHR '':'' # hex_bytes x = ihex_record 0 a bs"
    by (simp add: assms(4) data_record_def ihex_record_def ihex_raw_def hex_bytes_def unats)
  have "sum_list (map unat x) = ihex_sum 0 a bs + ihex_checksum 0 a bs"
    using assms(1,2) by (simp add: assms(4) data_record_def unats ihex_sum_def)
  then have bad: "sum_list (map unat (x[i := b])) mod 256 \<noteq> 0"
    using update_sum [OF assms(5,8)] ihex_checksum_good by simp
  have "length x = length bs + 5" "x ! 0 = word_of_nat (length bs)" "x ! 3 = 0"
    by (simp_all add: assms(4) data_record_def)
  then have "length (x[i := b]) = length bs + 5" "(x[i := b]) ! 0 = word_of_nat (length bs)" "(x[i := b]) ! 3 = 0"
    using assms(6,7) by simp_all
  from data_line [OF this assms(1)] obtain a' bs' ck' where
    d: "a' < 65536" "length bs' = length bs" "CHR '':'' # hex_bytes (x[i := b]) = ihex_raw 0 a' bs' ck'"
      "(ihex_sum 0 a' bs' + ck') mod 256 \<noteq> 0" using bad by metis
  have "parse_hex_line st (ihex_raw 0 a' bs' ck' @ t) = Inr (record_effect st 0 a' bs' ck')"
    using d(1,2) assms(1,3) by (intro parse_raw_record) simp_all
  then show ?thesis
    using d(4) line by (simp add: d(3) [symmetric] record_effect_def Let_def)
qed

theorem corrupted_byte_refused_witness:
  "\<exists>st'. parse_hex_line hex_reset (CHR '':'' #
     hex_bytes ((data_record 0x100 [0x21, 0x46] (ihex_checksum 0 0x100 [0x21, 0x46]))[1 := 0x02]) @ [newline]) = Inr (st', False)"
  using corrupted_byte_refused [of "[0x21, 0x46]" "0x100" hex_reset _ 1 "0x02" "[newline]", OF _ _ _ refl]
  by (simp add: hex_reset_def data_record_def)

section \<open>Lines and files of records\<close>

lemma set_ihex_raw: "c \<in> set (ihex_raw code a bs ck) \<Longrightarrow> c = CHR '':'' \<or> (\<exists>n. c = hex_char n)"
  by (auto simp: ihex_raw_def hex2_def hex4_def hex_bytes_def)

lemma hex_char_ascii_ge: "48 \<le> ascii (hex_char n)"
  by (simp add: ascii_hex_char)

lemma ihex_raw_chars:
  "newline \<notin> set (ihex_raw code a bs ck)" "CHR 0x00 \<notin> set (ihex_raw code a bs ck)"
proof -
  have "ascii c \<ge> 48" if "c \<in> set (ihex_raw code a bs ck)" for c
    using set_ihex_raw [OF that] hex_char_ascii_ge by auto
  then show "newline \<notin> set (ihex_raw code a bs ck)" "CHR 0x00 \<notin> set (ihex_raw code a bs ck)"
    by fastforce+
qed

lemma length_ihex_raw [simp]: "length (ihex_raw code a bs ck) = 11 + 2 * length bs"
  by (simp add: ihex_raw_def)

lemma hex_lines_record:
  assumes "length bs \<le> 255" "eol \<in> {[], [CHR 0x0D]}"
  shows "hex_lines e st (ihex_raw code a bs ck @ eol @ newline # s)
     = bind_c (parse_hex_line st (ihex_raw code a bs ck @ eol @ [newline])) (\<lambda>(st', ok).
         if \<not> ok then Inr (st', - 2)
         else if end_record_seen st' then Inr (st', byte_count st')
         else if e then Inr (st', byte_count st')
         else hex_lines e st' s)"
proof -
  let ?l = "ihex_raw code a bs ck @ eol"
  have chars: "newline \<notin> set ?l" "CHR 0x00 \<notin> set ?l" using assms(2) ihex_raw_chars by auto
  have "length eol \<le> 1" using assms(2) by auto
  then have n: "fgets_len 1024 (?l @ newline # s) = Suc (length ?l)"
    using assms by (intro fgets_len_line chars) simp
  have "c_string (?l @ [newline]) = ?l @ [newline]"
    using chars by (intro c_string_id) simp
  moreover have "drop (Suc (length ?l)) (?l @ newline # s) = s" by (rule drop_Suc_append)
  moreover have "take (Suc (length ?l)) (?l @ newline # s) = ?l @ [newline]" by simp
  ultimately have "hex_lines e st (?l @ newline # s) = bind_c (parse_hex_line st (?l @ [newline])) (\<lambda>(st', ok).
         if \<not> ok then Inr (st', - 2)
         else if end_record_seen st' then Inr (st', byte_count st')
         else if e then Inr (st', byte_count st')
         else hex_lines e st' s)"
    by (subst hex_lines.simps) (simp only: n Let_def append_is_Nil_conv list.distinct simp_thms if_False if_True)
  then show ?thesis by (simp only: append_assoc append_Cons append_Nil)
qed

text \<open>
  A file: data records and the two kinds of base address records, closed by the end record; every line
  ends with a line feed, or with a carriage return before it.
\<close>

datatype hex_record = Data_record nat "u8 list" | Segment_base nat | Linear_base nat

definition high_low :: "nat \<Rightarrow> u8 list" where
  "high_low v = [word_of_nat (v div 256), word_of_nat v]"

fun record_line :: "hex_record \<Rightarrow> string" where
  "record_line (Data_record a bs) = ihex_record 0 a bs"
| "record_line (Segment_base v) = ihex_record 2 0 (high_low v)"
| "record_line (Linear_base v) = ihex_record 4 0 (high_low v)"

definition hex_text :: "string \<Rightarrow> hex_record list \<Rightarrow> string" where
  "hex_text eol recs = concat (map (\<lambda>r. record_line r @ eol @ [newline]) recs) @ ihex_record 1 0 [] @ eol @ [newline]"

text \<open>The data of a file with their addresses, and when the reader takes it: every record ends below 0x10000.\<close>

fun placed :: "nat \<Rightarrow> hex_record list \<Rightarrow> (nat \<times> u8 list) list" where
  "placed base [] = []"
| "placed base (Data_record a bs # rs) = (base + a, bs) # placed base rs"
| "placed base (Segment_base v # rs) = placed (v * 16) rs"
| "placed base (Linear_base v # rs) = placed (v * 65536) rs"

fun fits_reader :: "nat \<Rightarrow> hex_record list \<Rightarrow> bool" where
  "fits_reader base [] \<longleftrightarrow> base < MAX_MEMORY_SIZE"
| "fits_reader base (Data_record a bs # rs) \<longleftrightarrow>
     length bs \<le> 255 \<and> a < 65536 \<and> base + a + length bs < MAX_MEMORY_SIZE \<and> fits_reader base rs"
| "fits_reader base (Segment_base v # rs) \<longleftrightarrow> v < 65536 \<and> base + 2 < MAX_MEMORY_SIZE \<and> fits_reader (v * 16) rs"
| "fits_reader base (Linear_base v # rs) \<longleftrightarrow> v < 65536 \<and> base + 2 < MAX_MEMORY_SIZE \<and> fits_reader (v * 65536) rs"

text \<open>What the data say: the byte at an address is the one of the last record that covers it.\<close>

definition seg_byte :: "(nat \<times> u8 list) list \<Rightarrow> nat \<Rightarrow> u8 option" where
  "seg_byte segs i = map_option (\<lambda>(a, bs). bs ! (i - a))
     (find (\<lambda>(a, bs). a \<le> i \<and> i < a + length bs) (rev segs))"

lemma find_snoc: "find P (xs @ [x]) = (case find P xs of None \<Rightarrow> if P x then Some x else None | Some y \<Rightarrow> Some y)"
  by (induction xs) auto

lemma seg_byte_simps [simp]:
  "seg_byte [] i = None"
  "seg_byte ((a, bs) # segs) i = (case seg_byte segs i of
     None \<Rightarrow> if a \<le> i \<and> i < a + length bs then Some (bs ! (i - a)) else None | Some b \<Rightarrow> Some b)"
  by (simp_all add: seg_byte_def find_snoc split: option.split)

lemma high_low_value:
  "v < 65536 \<Longrightarrow> 256 * unat (high_low v ! 0) + unat (high_low v ! 1) = v" "length (high_low v) = 2"
  by (simp_all add: high_low_def unat_of_nat)

lemma base_value:
  "v < 65536 \<Longrightarrow> unat (word_of_nat (v * 16) :: u32) = v * 16"
  "v < 65536 \<Longrightarrow> unat (word_of_nat (v * 65536) :: u32) = v * 65536"
proof -
  assume v: "v < 65536"
  have "unat (word_of_nat n :: u32) = n" if "n < 2 ^ 32" for n
    using that by (simp add: unat_of_nat)
  from this [of "v * 16"] this [of "v * 65536"] v
  show "unat (word_of_nat (v * 16) :: u32) = v * 16" "unat (word_of_nat (v * 65536) :: u32) = v * 65536"
    by (simp_all del: of_nat_mult)
qed

lemma blit_replicate: "blit m s (replicate n v) = (\<lambda>i. if s \<le> i \<and> i < s + n then v else m i)"
  by (auto simp: blit_def fun_eq_iff)

lemma seg_byte_blit:
  "(\<lambda>i. case seg_byte segs i of None \<Rightarrow> blit m a bs i | Some b \<Rightarrow> b) =
   (\<lambda>i. case seg_byte ((a, bs) # segs) i of None \<Rightarrow> m i | Some b \<Rightarrow> b)"
  "(\<lambda>i. if seg_byte segs i = None then blit m' a (replicate (length bs) v) i else v) =
   (\<lambda>i. if seg_byte ((a, bs) # segs) i = None then m' i else v)"
  by (auto simp: blit_def blit_replicate fun_eq_iff split: option.splits)

lemma base_fields:
  "firmware_image (st\<lparr>extended_addr := e\<rparr>) = firmware_image st"
  "firmware_mask (st\<lparr>extended_addr := e\<rparr>) = firmware_mask st"
  "byte_count (st\<lparr>extended_addr := e\<rparr>) = byte_count st"
  "end_record_seen (st\<lparr>extended_addr := e\<rparr>) = end_record_seen st"
  "extended_addr (st\<lparr>extended_addr := e\<rparr>) = e"
  by simp_all

text \<open>The reading loop over one record of the format, and over the end record.\<close>

lemma hex_lines_good:
  assumes "length bs \<le> 255" "a < 65536" "rtype \<in> {0, 2, 4}" "rtype \<in> {2, 4} \<longrightarrow> length bs = 2" "eol \<in> {[], [CHR 0x0D]}"
    and "unat (extended_addr st) + a + length bs < MAX_MEMORY_SIZE" "\<not> end_record_seen st"
  shows "hex_lines False st (ihex_record rtype a bs @ eol @ newline # s) = hex_lines False (record_meaning rtype a bs st) s"
proof -
  have "parse_hex_line st (ihex_record rtype a bs @ eol @ [newline]) = Inr (record_meaning rtype a bs st, True)"
    using assms by (subst parse_good_record) (auto simp: MAX_MEMORY_SIZE_def)
  moreover have "\<not> end_record_seen (record_meaning rtype a bs st)"
    using assms(3,7) by (auto simp: record_meaning_def Let_def)
  ultimately show ?thesis
    using hex_lines_record [OF assms(1,5)] by (simp add: ihex_record_def)
qed

lemma hex_lines_end:
  assumes "eol \<in> {[], [CHR 0x0D]}" "unat (extended_addr st) < MAX_MEMORY_SIZE"
  shows "hex_lines False st (ihex_record 1 0 [] @ eol @ [newline]) = Inr (st\<lparr>end_record_seen := True\<rparr>, byte_count st)"
proof -
  have "parse_hex_line st (ihex_record 1 0 [] @ eol @ [newline]) = Inr (record_meaning 1 0 [] st, True)"
    using assms by (subst parse_good_record) (auto simp: MAX_MEMORY_SIZE_def)
  then show ?thesis
    using hex_lines_record [of "[]" eol False st 1 0 _ "[]"] assms(1)
    by (simp add: ihex_record_def record_meaning_def Let_def)
qed

lemma hex_lines_records:
  assumes "fits_reader (unat (extended_addr st)) recs" "\<not> end_record_seen st" "eol \<in> {[], [CHR 0x0D]}"
  shows "\<exists>st'. hex_lines False st (hex_text eol recs) = Inr (st', byte_count st +
        int (\<Sum>(a, bs)\<leftarrow>placed (unat (extended_addr st)) recs. length bs)) \<and>
     firmware_image st' = (\<lambda>i. case seg_byte (placed (unat (extended_addr st)) recs) i of
        None \<Rightarrow> firmware_image st i | Some b \<Rightarrow> b) \<and>
     firmware_mask st' = (\<lambda>i. if seg_byte (placed (unat (extended_addr st)) recs) i = None then firmware_mask st i else 1)"
  using assms(1,2)
proof (induction recs arbitrary: st)
  case Nil
  then show ?case using hex_lines_end [OF assms(3)] by (simp add: hex_text_def)
next
  case (Cons r recs)
  have next_line: "hex_text eol (r # recs) = record_line r @ eol @ newline # hex_text eol recs"
    by (simp add: hex_text_def)
  show ?case
  proof (cases r)
    case (Data_record a bs)
    let ?st = "record_meaning 0 a bs st"
    have "hex_lines False st (hex_text eol (r # recs)) = hex_lines False ?st (hex_text eol recs)"
      unfolding next_line using Cons.prems assms(3) Data_record by (simp add: hex_lines_good)
    moreover have fields: "firmware_image ?st = blit (firmware_image st) (unat (extended_addr st) + a) bs"
      "firmware_mask ?st = blit (firmware_mask st) (unat (extended_addr st) + a) (replicate (length bs) 1)"
      "extended_addr ?st = extended_addr st" "end_record_seen ?st = end_record_seen st"
      "byte_count ?st = byte_count st + int (length bs)"
      by (simp_all add: record_meaning_def)
    ultimately show ?thesis
      using Cons.IH [of ?st, unfolded fields seg_byte_blit] Cons.prems Data_record
      by (simp add: add.assoc del: seg_byte_simps(2))
  next
    case (Segment_base v)
    let ?st = "record_meaning 2 0 (high_low v) st"
    have st: "?st = st\<lparr>extended_addr := word_of_nat (v * 16)\<rparr>"
      using Segment_base Cons.prems high_low_value [of v] by (simp add: record_meaning_def)
    have "hex_lines False st (hex_text eol (r # recs)) = hex_lines False ?st (hex_text eol recs)"
      unfolding next_line using Cons.prems assms(3) Segment_base by (simp add: hex_lines_good high_low_value(2))
    then show ?thesis
      using Cons.IH [of ?st, unfolded st base_fields] Cons.prems Segment_base base_value(1) [of v]
      unfolding st by (simp del: of_nat_mult)
  next
    case (Linear_base v)
    let ?st = "record_meaning 4 0 (high_low v) st"
    have st: "?st = st\<lparr>extended_addr := word_of_nat (v * 65536)\<rparr>"
      using Linear_base Cons.prems high_low_value [of v] by (simp add: record_meaning_def)
    have "hex_lines False st (hex_text eol (r # recs)) = hex_lines False ?st (hex_text eol recs)"
      unfolding next_line using Cons.prems assms(3) Linear_base by (simp add: hex_lines_good high_low_value(2))
    then show ?thesis
      using Cons.IH [of ?st, unfolded st base_fields] Cons.prems Linear_base base_value(2) [of v]
      unfolding st by (simp del: of_nat_mult)
  qed
qed

lemma hex_text_read:
  assumes "fits_reader 0 recs" "eol \<in> {[], [CHR 0x0D]}"
  shows "\<exists>st. read_intel_hex False (Some (hex_text eol recs)) = Inr (st, int (\<Sum>(a, bs)\<leftarrow>placed 0 recs. length bs)) \<and>
     firmware_image st = (\<lambda>i. case seg_byte (placed 0 recs) i of None \<Rightarrow> 0xFF | Some b \<Rightarrow> b) \<and>
     firmware_mask st = (\<lambda>i. if seg_byte (placed 0 recs) i = None then 0 else 1)"
proof -
  have reset: "firmware_image hex_reset = (\<lambda>_. 0xFF)" "firmware_mask hex_reset = (\<lambda>_. 0)"
    "unat (extended_addr hex_reset) = 0" "byte_count hex_reset = 0" "\<not> end_record_seen hex_reset"
    by (simp_all add: hex_reset_def)
  show ?thesis
    using hex_lines_records [of hex_reset recs, OF _ _ assms(2), unfolded reset] assms(1)
    by (simp add: read_intel_hex_def reset)
qed

text \<open>Files of data records only.\<close>

definition hex_file :: "(nat \<times> u8 list) list \<Rightarrow> string" where
  "hex_file segs = concat (map (\<lambda>(a, bs). ihex_record 0 a bs @ [newline]) segs)
     @ ihex_record 1 0 [] @ [newline]"

definition fits_image :: "(nat \<times> u8 list) list \<Rightarrow> bool" where
  "fits_image segs =
     list_all (\<lambda>(a, bs). length bs \<le> 255 \<and> a < 65536 \<and> a + length bs < MAX_MEMORY_SIZE) segs"

lemma hex_file_records:
  "hex_file segs = hex_text [] (map (\<lambda>(a, bs). Data_record a bs) segs)"
  "placed 0 (map (\<lambda>(a, bs). Data_record a bs) segs) = segs"
  "fits_reader 0 (map (\<lambda>(a, bs). Data_record a bs) segs) = fits_image segs"
  by (induction segs) (auto simp: hex_file_def hex_text_def fits_image_def MAX_MEMORY_SIZE_def)

lemma hex_file_read:
  assumes "fits_image segs"
  shows "\<exists>st. read_intel_hex False (Some (hex_file segs)) = Inr (st, int (\<Sum>(a, bs)\<leftarrow>segs. length bs)) \<and>
     firmware_image st = (\<lambda>i. case seg_byte segs i of None \<Rightarrow> 0xFF | Some b \<Rightarrow> b) \<and>
     firmware_mask st = (\<lambda>i. if seg_byte segs i = None then 0 else 1)"
  using hex_text_read [of "map (\<lambda>(a, bs). Data_record a bs) segs" "[]"] assms by (simp add: hex_file_records)

text \<open>
  C6. A file of data and base address records (types 0, 2, 4) and an end record, with right checksums and
  lines that end with LF or CR LF, is read to its end, if every record, the end record included, ends
  below 0x10000 (base address in force, load address and length together): the number of data bytes is
  returned, the image holds exactly the bytes the file assigns (later records win) and 0xFF everywhere
  else, and the mask marks exactly the assigned addresses.
\<close>

theorem read_intel_hex_loads_file:
  assumes "fits_reader 0 recs" "eol \<in> {[], [CHR 0x0D]}"
  shows "\<exists>st. read_intel_hex False (Some (hex_text eol recs)) = Inr (st, int (\<Sum>(a, bs)\<leftarrow>placed 0 recs. length bs)) \<and>
     firmware_image st = (\<lambda>i. case seg_byte (placed 0 recs) i of None \<Rightarrow> 0xFF | Some b \<Rightarrow> b) \<and>
     firmware_mask st = (\<lambda>i. if seg_byte (placed 0 recs) i = None then 0 else 1)"
  using assms by (rule hex_text_read)

theorem read_intel_hex_loads_file_witness:
  "let recs = [Data_record 0x10 [1, 2], Segment_base 0x100, Data_record 0x11 [7]] in
   \<exists>st. read_intel_hex False (Some (hex_text [CHR 0x0D] recs)) = Inr (st, 3) \<and>
     firmware_image st 0x11 = 2 \<and> firmware_image st 0x1011 = 7 \<and> firmware_mask st 0x12 = 0"
  using read_intel_hex_loads_file [of "[Data_record 0x10 [1, 2], Segment_base 0x100, Data_record 0x11 [7]]" "[CHR 0x0D]"]
  by (auto simp: MAX_MEMORY_SIZE_def)

text \<open>
  C37. The 32-bit address sum of \<open>parse_hex_line\<close> can wrap: after an extended linear address record
  for segment 0xFFFF, which the reader accepts, a two byte data record at 0xFFFF passes the range
  check and writes outside the image.
\<close>

theorem wrapped_address_writes_out_of_bounds:
  "\<exists>st. parse_hex_line hex_reset (ihex_record 4 0 [0xFF, 0xFF]) = Inr (st, True) \<and>
     parse_hex_line st (ihex_record 0 0xFFFF [0xAA, 0xBB]) = Inl OutOfBounds"
proof -
  let ?st = "hex_reset\<lparr>extended_addr := 0xFFFF0000\<rparr>"
  have "parse_hex_line hex_reset (ihex_record 4 0 [0xFF, 0xFF] @ []) = Inr (?st, True)"
    using ihex_checksum_good [of 4 0 "[0xFF, 0xFF]"] unfolding ihex_record_def
    by (subst parse_raw_record)
      (simp_all add: record_effect_def Let_def MAX_MEMORY_SIZE_def hex_reset_def)
  moreover have "parse_hex_line ?st (ihex_record 0 0xFFFF [0xAA, 0xBB] @ []) = Inl OutOfBounds"
  proof -
    let ?l = "ihex_record 0 0xFFFF [0xAA, 0xBB] @ []"
    have "hex_index ?st 0xFFFF 2 = 1" "hex_index (?st\<lparr>byte_count := n\<rparr>) 0xFFFF 0 = 0xFFFFFFFF" for n
      by (simp_all add: hex_index_def)
    moreover have "scan_at ?l 9 2 = Inr (Scan_Val 0xAA)"
      using scan_at_hex2 [of 9 "'':'' @ hex2 (Suc (Suc 0)) @ hex4 0xFFFF @ hex2 0" "0xAA"]
      by (simp add: ihex_record_def ihex_raw_def del: scan_at_hex2)
    ultimately show ?thesis
      using parse_raw_header [where bs = "[0xAA, 0xBB]" and a = "0xFFFF" and code = 0 and st = ?st and t = "[]"]
      by (simp add: ihex_record_def hex_body_def hex_data.simps MAX_MEMORY_SIZE_def Let_def)
  qed
  ultimately show ?thesis by auto
qed

section \<open>Reading the image back\<close>

text \<open>The byte the loader means to program at an address: 0xFF where no record wrote.\<close>

definition image_byte :: "hexfile \<Rightarrow> nat \<Rightarrow> u8" where
  "image_byte st i = (if firmware_mask st i \<noteq> 0 then firmware_image st i else 0xFF)"

lemma ihex_get_data_nth:
  assumes "0 \<le> addr" "addr + int len < int MAX_MEMORY_SIZE" "i < len"
  shows "ihex_get_data st addr (int len) ! i = image_byte st (nat addr + i)"
  using assms by (simp add: ihex_get_data_def image_byte_def)

lemma length_ihex_get_data [simp]: "length (ihex_get_data st addr len) = nat len"
  by (simp add: ihex_get_data_def)

lemma ihex_bytes_within_range_iff:
  assumes "0 \<le> b" "b \<le> e" "e < int MAX_MEMORY_SIZE"
  shows "ihex_bytes_within_range st b e \<longleftrightarrow> (\<exists>i. nat b \<le> i \<and> i \<le> nat e \<and> firmware_mask st i \<noteq> 0)"
proof -
  have "ihex_bytes_within_range st b e
      \<longleftrightarrow> (\<exists>i \<in> set [nat b ..< Suc (nat e)]. firmware_mask st i \<noteq> 0)"
    using assms by (simp add: ihex_bytes_within_range_def list_ex_iff del: upt_Suc)
  then show ?thesis by (auto simp: less_Suc_eq_le)
qed

text \<open>The image as a source of blocks, for the programming loop.\<close>

interpretation ihex: image_source "ihex_bytes_within_range st" "ihex_get_data st" "image_byte st" MAX_MEMORY_SIZE
  for st
proof
  show "ihex_get_data st (int a) (int n) = map (image_byte st) [a..<a + n]" if "a + n < MAX_MEMORY_SIZE" for a n
    using that by (simp add: ihex_get_data_def image_byte_def)
  show "image_byte st i = 0xFF"
    if "\<not> ihex_bytes_within_range st (int a) (int b)" "b < MAX_MEMORY_SIZE" "a \<le> i" "i \<le> b" for a b i
    using that by (subst (asm) ihex_bytes_within_range_iff) (auto simp: image_byte_def)
qed

text \<open>
  The block that ends at the top of the image is lost: \<open>ihex_get_data\<close> refuses a range that
  ends exactly at 0x10000, so a block there is found to hold data, and is then read as all 0xFF.
\<close>

theorem last_block_read_as_blank:
  assumes "0 < len" "len \<le> 0x10000" "0x10000 - len \<le> i" "i < 0x10000" "firmware_mask st i \<noteq> 0"
  shows "ihex_bytes_within_range st (0x10000 - int len) (0x10000 - 1) \<and>
     ihex_get_data st (0x10000 - int len) (int len) = replicate len 0xFF"
proof
  show "ihex_bytes_within_range st (0x10000 - int len) (0x10000 - 1)"
    using assms by (subst ihex_bytes_within_range_iff) (auto simp: MAX_MEMORY_SIZE_def intro!: exI [of _ i])
  show "ihex_get_data st (0x10000 - int len) (int len) = replicate len 0xFF"
    by (simp add: ihex_get_data_def MAX_MEMORY_SIZE_def)
qed

theorem last_block_read_as_blank_witness:
  "let st = hex_reset\<lparr>firmware_image := (\<lambda>_. 0x42), firmware_mask := (\<lambda>_. 1)\<rparr> in
   ihex_bytes_within_range st (0x10000 - int 256) (0x10000 - 1) \<and>
   ihex_get_data st (0x10000 - int 256) (int 256) = replicate 256 0xFF"
  using last_block_read_as_blank
    [of 256 "0xFF00" "hex_reset\<lparr>firmware_image := (\<lambda>_. 0x42), firmware_mask := (\<lambda>_. 1)\<rparr>"] by simp

end
