(* ===== verification/HostLoader.thy ===== *)
theory HostLoader
  imports IntelHex "HOL-Library.Monad_Syntax"
begin

text \<open>
  The main program of the firmware loader (\<open>hid_bootloader_cli.c\<close>): the command line, the wait for
  the device, the programming loop and the start of the new code. What the program asks of the
  outside (the file, the USB device, the clock) is a record of functions over a world \<open>'w\<close>;
  messages to the terminal are left out.
\<close>

section \<open>Options\<close>

datatype loader_error = Usage | Die | Undefined ub

type_synonym 'a loader = "loader_error + 'a"

record options =
  wait_for_device_to_appear :: bool
  hard_reboot_device :: bool
  reboot_after_programming :: bool
  verbose :: bool
  code_size :: nat
  block_size :: nat
  filename :: "string option"

definition initial_options :: options where
  "initial_options = \<lparr>wait_for_device_to_appear = False, hard_reboot_device = False,
     reboot_after_programming = True, verbose = False, code_size = 0, block_size = 0,
     filename = None\<rparr>"

text \<open>\<open>strncmp(s, p, n) == 0\<close> with \<open>n\<close> the length of the literal \<open>p\<close>.\<close>

definition strncmp_eq :: "string \<Rightarrow> string \<Rightarrow> bool" where
  "strncmp_eq s p \<longleftrightarrow> take (length p) s = p"

definition mcu_sizes :: "string \<Rightarrow> (nat \<times> nat) option" where
  "mcu_sizes arg =
     (if strncmp_eq arg ''128'' then Some (128 * 1024, 256)
      else if strncmp_eq arg ''64'' then Some (64 * 1024, 256)
      else if strncmp_eq arg ''32'' then Some (32 * 1024, 128)
      else if strncmp_eq arg ''16'' then Some (16 * 1024, 128)
      else if strncmp_eq arg ''8'' then Some (8 * 1024, 128)
      else None)"

definition parse_mcu :: "options \<Rightarrow> string \<Rightarrow> options loader" where
  "parse_mcu o1 arg =
     bind_c (if strncmp_eq arg ''at90usb'' then Inr (drop 7 arg)
             else if strncmp_eq arg ''atmega'' then Inr (drop 6 arg)
             else Inl Die)
       (\<lambda>arg. case mcu_sizes arg of None \<Rightarrow> Inl Die
          | Some (code, block) \<Rightarrow> Inr (o1\<lparr>code_size := code, block_size := block\<rparr>))"

definition parse_option :: "options \<Rightarrow> string \<Rightarrow> options loader" where
  "parse_option o1 arg =
     (if arg \<noteq> [] \<and> hd arg = CHR ''-''
      then if arg = ''-w'' then Inr (o1\<lparr>wait_for_device_to_appear := True\<rparr>)
           else if arg = ''-r'' then Inr (o1\<lparr>hard_reboot_device := True\<rparr>)
           else if arg = ''-n'' then Inr (o1\<lparr>reboot_after_programming := False\<rparr>)
           else if arg = ''-v'' then Inr (o1\<lparr>verbose := True\<rparr>)
           else if strncmp_eq arg ''-mmcu='' then parse_mcu o1 (drop 6 arg)
           else Inr o1
      else Inr (o1\<lparr>filename := Some arg\<rparr>))"

primrec parse_args :: "string list \<Rightarrow> options \<Rightarrow> options loader" where
  "parse_args [] o1 = Inr o1"
| "parse_args (arg # args) o1 = bind_c (parse_option o1 arg) (parse_args args)"

text \<open>\<open>parse_options\<close> on \<open>argv[1] .. argv[argc - 1]\<close>.\<close>

definition parse_options :: "string list \<Rightarrow> options \<Rightarrow> options loader" where
  "parse_options args o1 =
     parse_args args (o1\<lparr>wait_for_device_to_appear := True, verbose := True,
       code_size := 32 * 1024, block_size := 128, hard_reboot_device := True\<rparr>)"

section \<open>The outside\<close>

record 'w host_io =
  io_open :: "'w \<Rightarrow> bool \<times> 'w"
  io_write :: "u8 list \<Rightarrow> nat \<Rightarrow> 'w \<Rightarrow> bool \<times> 'w"
  io_close :: "'w \<Rightarrow> 'w"
  io_reboot :: "'w \<Rightarrow> bool \<times> 'w"
  io_delay :: "nat \<Rightarrow> 'w \<Rightarrow> 'w"
  io_file :: "string \<Rightarrow> 'w \<Rightarrow> string option"
  io_stdin_eof :: bool

definition load_image :: "'w host_io \<Rightarrow> string \<Rightarrow> 'w \<Rightarrow> hexfile loader" where
  "load_image io name w = (case read_intel_hex (io_stdin_eof io) (io_file io name w) of
       Inl u \<Rightarrow> Inl (Undefined u)
     | Inr (st, num) \<Rightarrow> if num < 0 then Inl Die else Inr st)"

section \<open>Opening the device\<close>

text \<open>
  The opening loop, with the two option variables it changes; the result says whether it waited.
  Times are in milliseconds.
\<close>

partial_function (option) open_device ::
  "'w host_io \<Rightarrow> bool \<Rightarrow> bool \<Rightarrow> bool \<Rightarrow> 'w \<Rightarrow> (bool loader \<times> 'w) option" where
  "open_device io hard wait waited w =
     (let (opened, w1) = io_open io w
      in if opened then Some (Inr waited, w1)
         else let (ok, w2) = (if hard then io_reboot io w1 else (True, w1))
         in if \<not> ok then Some (Inl Die, w2)
            else if \<not> (hard \<or> wait) then Some (Inl Die, w2)
            else open_device io False (hard \<or> wait) True (io_delay io 250 w2))"

section \<open>Programming\<close>

definition address_bytes :: "options \<Rightarrow> nat \<Rightarrow> u8 list" where
  "address_bytes o1 addr =
     (if code_size o1 < 0x10000
      then [word_of_nat (addr AND 255), word_of_nat (drop_bit 8 addr AND 255)]
      else [word_of_nat (drop_bit 8 addr AND 255), word_of_nat (drop_bit 16 addr AND 255)])"

text \<open>The report of a block; \<open>buf\<close> holds 260 bytes.\<close>

definition block_report :: "options \<Rightarrow> hexfile \<Rightarrow> nat \<Rightarrow> u8 list c" where
  "block_report o1 st addr =
     (if block_size o1 + 2 \<le> 260
      then Inr (address_bytes o1 addr @ ihex_get_data st (int addr) (int (block_size o1)))
      else Inl OutOfBounds)"

partial_function (option) program_data ::
  "'w host_io \<Rightarrow> options \<Rightarrow> hexfile \<Rightarrow> nat \<Rightarrow> bool \<Rightarrow> 'w \<Rightarrow> (unit loader \<times> 'w) option" where
  "program_data io o1 st addr first_block w =
     (if addr < code_size o1
      then if addr > 0 \<and> \<not> ihex_bytes_within_range st (int addr) (int addr + int (block_size o1) - 1)
           then program_data io o1 st (addr + block_size o1) first_block w
           else case block_report o1 st addr of
               Inl u \<Rightarrow> Some (Inl (Undefined u), w)
             | Inr buf \<Rightarrow>
                 (let (r, w1) = io_write io buf (if first_block then 3000 else 250) w
                  in if \<not> r then Some (Inl Die, w1)
                     else program_data io o1 st (addr + block_size o1) False w1)
      else Some (Inr (), w))"

definition boot_report :: "options \<Rightarrow> u8 list" where
  "boot_report o1 = [0xFF, 0xFF] @ replicate (block_size o1) 0"

definition start_new_code :: "'w host_io \<Rightarrow> options \<Rightarrow> 'w \<Rightarrow> 'w" where
  "start_new_code io o1 w = io_close io
     (if reboot_after_programming o1 then snd (io_write io (boot_report o1) 250 w) else w)"

section \<open>main\<close>

definition after_open ::
  "'w host_io \<Rightarrow> options \<Rightarrow> string \<Rightarrow> hexfile \<Rightarrow> bool \<Rightarrow> 'w \<Rightarrow> (unit loader \<times> 'w) option" where
  "after_open io o1 name st waited w =
     (case (if waited then load_image io name w else Inr st) of
        Inl e \<Rightarrow> Some (Inl e, w)
      | Inr st' \<Rightarrow>
          do { (r, w1) \<leftarrow> program_data io o1 st' 0 True w;
               Some (case r of Inl e \<Rightarrow> (Inl e, w1) | Inr _ \<Rightarrow> (Inr (), start_new_code io o1 w1)) })"

definition loader_main :: "'w host_io \<Rightarrow> string list \<Rightarrow> 'w \<Rightarrow> (unit loader \<times> 'w) option" where
  "loader_main io args w =
     (case parse_options args initial_options of
        Inl e \<Rightarrow> Some (Inl e, w)
      | Inr o1 \<Rightarrow>
          (case filename o1 of
             None \<Rightarrow> Some (Inl Usage, w)
           | Some name \<Rightarrow>
               if code_size o1 = 0 then Some (Inl Usage, w)
               else case load_image io name w of
                   Inl e \<Rightarrow> Some (Inl e, w)
                 | Inr st \<Rightarrow>
                     do { (r, w1) \<leftarrow> open_device io (hard_reboot_device o1) (wait_for_device_to_appear o1) False w;
                          case r of Inl e \<Rightarrow> Some (Inl e, w1)
                          | Inr waited \<Rightarrow> after_open io o1 name st waited w1 }))"

section \<open>The command line\<close>

definition mcu_table :: "(nat \<times> nat) set" where
  "mcu_table = {(131072, 256), (65536, 256), (32768, 128), (16384, 128), (8192, 128)}"

definition good_options :: "options \<Rightarrow> bool" where
  "good_options o1 \<longleftrightarrow> (code_size o1, block_size o1) \<in> mcu_table \<and>
     wait_for_device_to_appear o1 \<and> hard_reboot_device o1 \<and> verbose o1"

lemma mcu_sizes_table: "mcu_sizes arg = Some p \<Longrightarrow> p \<in> mcu_table"
  by (auto simp: mcu_sizes_def mcu_table_def split: if_splits)

lemma parse_mcu_good:
  assumes "good_options o1" "parse_mcu o1 arg = Inr o2"
  shows "good_options o2"
proof -
  obtain rest p where "mcu_sizes rest = Some p" "o2 = o1\<lparr>code_size := fst p, block_size := snd p\<rparr>"
    using assms(2) unfolding parse_mcu_def bind_c_eq_Inr by (auto split: option.splits)
  moreover from this have "p \<in> mcu_table" by (intro mcu_sizes_table)
  ultimately show ?thesis using assms(1) by (simp add: good_options_def)
qed

lemma parse_option_good:
  assumes "good_options o1" "parse_option o1 arg = Inr o2"
  shows "good_options o2"
proof -
  have "o2 \<in> {o1\<lparr>wait_for_device_to_appear := True\<rparr>, o1\<lparr>hard_reboot_device := True\<rparr>,
      o1\<lparr>reboot_after_programming := False\<rparr>, o1\<lparr>verbose := True\<rparr>, o1, o1\<lparr>filename := Some arg\<rparr>}
    \<or> parse_mcu o1 (drop 6 arg) = Inr o2"
    using assms(2) by (auto simp: parse_option_def split: if_splits)
  then show ?thesis
    using assms(1) parse_mcu_good [OF assms(1)] by (auto simp: good_options_def)
qed

lemma parse_args_good: "good_options o1 \<Longrightarrow> parse_args args o1 = Inr o2 \<Longrightarrow> good_options o2"
  by (induction args arbitrary: o1) (auto simp: bind_c_eq_Inr dest: parse_option_good)

lemma parse_options_good: "parse_options args o1 = Inr o2 \<Longrightarrow> good_options o2"
  unfolding parse_options_def by (erule parse_args_good [rotated]) (simp add: good_options_def mcu_table_def)

lemma parse_mcu_error: "parse_mcu o1 arg = Inl e \<Longrightarrow> e = Die"
proof -
  have "(case mcu_sizes x of None \<Rightarrow> Inl Die | Some (code, block) \<Rightarrow> Inr (f code block)) = Inl e \<Longrightarrow> e = Die"
    for x and f :: "nat \<Rightarrow> nat \<Rightarrow> options"
    by (auto split: option.splits)
  then show "parse_mcu o1 arg = Inl e \<Longrightarrow> e = Die"
    by (cases "strncmp_eq arg ''at90usb''"; cases "strncmp_eq arg ''atmega''") (auto simp: parse_mcu_def)
qed

lemma parse_option_error: "parse_option o1 arg = Inl e \<Longrightarrow> e = Die"
  by (cases "strncmp_eq arg ''-mmcu=''") (auto simp: parse_option_def parse_mcu_error split: if_splits)

lemma parse_args_error: "parse_args args o1 = Inl e \<Longrightarrow> e = Die"
proof (induction args arbitrary: o1)
  case (Cons arg args)
  then show ?case by (cases "parse_option o1 arg") (auto dest: parse_option_error)
qed simp

lemma parse_options_error: "parse_options args o1 = Inl e \<Longrightarrow> e = Die"
  unfolding parse_options_def by (rule parse_args_error)

lemma good_sizes:
  assumes "good_options o1"
  shows "0 < block_size o1" "block_size o1 + 2 \<le> 260" "block_size o1 dvd code_size o1"
    "0 < code_size o1" "even (block_size o1)"
  using assms by (auto simp: good_options_def mcu_table_def)


section \<open>Opening the device\<close>

text \<open>The outcome and world of attempt \<open>k\<close> of an endless wait.\<close>

primrec attempt :: "'w host_io \<Rightarrow> 'w \<Rightarrow> nat \<Rightarrow> bool \<times> 'w" where
  "attempt io w 0 = io_open io w"
| "attempt io w (Suc k) = io_open io (io_delay io 250 (snd (attempt io w k)))"

lemma attempt_shift:
  "attempt io (io_delay io 250 (snd (io_open io w))) k = attempt io w (Suc k)"
  by (induction k) simp_all

lemma open_device_opened:
  "fst (io_open io w) \<Longrightarrow> open_device io hard wait waited w = Some (Inr waited, snd (io_open io w))"
  by (subst open_device.simps) (simp add: case_prod_beta Let_def)

lemma open_device_waiting:
  "\<not> fst (io_open io w) \<Longrightarrow>
   open_device io False True waited w = open_device io False True True (io_delay io 250 (snd (io_open io w)))"
  by (subst open_device.simps) (simp add: case_prod_beta Let_def)

lemma open_device_attempts:
  assumes "\<And>j. j < k \<Longrightarrow> \<not> fst (attempt io w j)" "fst (attempt io w k)"
  shows "open_device io False True waited w = Some (Inr (waited \<or> 0 < k), snd (attempt io w k))"
  using assms
proof (induction k arbitrary: w waited)
  case 0
  then show ?case by (simp add: open_device_opened)
next
  case (Suc k)
  let ?w = "io_delay io 250 (snd (io_open io w))"
  have "\<not> fst (io_open io w)" using Suc.prems(1) [of 0] by simp
  then have "open_device io False True waited w = open_device io False True True ?w"
    by (rule open_device_waiting)
  also have "\<dots> = Some (Inr (True \<or> 0 < k), snd (attempt io ?w k))"
  proof (rule Suc.IH)
    show "\<not> fst (attempt io ?w j)" if "j < k" for j
      using Suc.prems(1) [of "Suc j"] that unfolding attempt_shift by simp
    show "fst (attempt io ?w k)" using Suc.prems(2) unfolding attempt_shift .
  qed
  finally show ?case by (simp only: attempt_shift) simp
qed

lemma open_device_returns:
  "open_device io hard wait waited w = Some r \<Longrightarrow> \<not> hard \<and> wait \<longrightarrow> (\<exists>k. fst (attempt io w k))"
proof (erule open_device.raw_induct [rotated], intro impI)
  fix f and io :: "'a host_io" and hard wait waited w r
  assume IH: "\<And>io hard wait waited w r. f io hard wait waited w = Some r
      \<Longrightarrow> \<not> hard \<and> wait \<longrightarrow> (\<exists>k. fst (attempt io w k))"
    and body: "(let (opened, w1) = io_open io w in if opened then Some (Inr waited, w1)
         else let (ok, w2) = if hard then io_reboot io w1 else (True, w1)
         in if \<not> ok then Some (Inl Die, w2) else if \<not> (hard \<or> wait) then Some (Inl Die, w2)
            else f io False (hard \<or> wait) True (io_delay io 250 w2)) = Some r"
    and "\<not> hard \<and> wait"
  show "\<exists>k. fst (attempt io w k)"
  proof (cases "fst (io_open io w)")
    case True
    then show ?thesis by (intro exI [of _ 0]) simp
  next
    case False
    then have "f io False True True (io_delay io 250 (snd (io_open io w))) = Some r"
      using body \<open>\<not> hard \<and> wait\<close> by (simp add: case_prod_beta Let_def)
    from IH [OF this] obtain k where "fst (attempt io (io_delay io 250 (snd (io_open io w))) k)" by auto
    then show ?thesis unfolding attempt_shift by blast
  qed
qed

lemma open_device_cases:
  "open_device io False True waited w =
     (if \<exists>k. fst (attempt io w k)
      then let k = LEAST k. fst (attempt io w k) in Some (Inr (waited \<or> 0 < k), snd (attempt io w k))
      else None)"
proof (cases "\<exists>k. fst (attempt io w k)")
  case True
  define k where "k = (LEAST k. fst (attempt io w k))"
  have "fst (attempt io w k)" unfolding k_def using True by (rule LeastI_ex)
  moreover have "\<not> fst (attempt io w j)" if "j < k" for j
    using that unfolding k_def by (rule not_less_Least)
  ultimately show ?thesis
    using True by (simp add: open_device_attempts k_def [symmetric] Let_def)
next
  case False
  then show ?thesis
    using open_device_returns [of io False True waited w] by (cases "open_device io False True waited w") auto
qed

section \<open>The programming loop\<close>

definition needed_blocks :: "options \<Rightarrow> hexfile \<Rightarrow> nat \<Rightarrow> nat list" where
  "needed_blocks o1 st k =
     filter (\<lambda>a. a = 0 \<or> ihex_bytes_within_range st (int a) (int a + int (block_size o1) - 1))
       (map (\<lambda>j. j * block_size o1) [k ..< code_size o1 div block_size o1])"

definition report_for :: "options \<Rightarrow> hexfile \<Rightarrow> nat \<Rightarrow> u8 list" where
  "report_for o1 st a = address_bytes o1 a @ ihex_get_data st (int a) (int (block_size o1))"

primrec write_all :: "'w host_io \<Rightarrow> bool \<Rightarrow> u8 list list \<Rightarrow> 'w \<Rightarrow> unit loader \<times> 'w" where
  "write_all io first_block [] w = (Inr (), w)"
| "write_all io first_block (b # bs) w =
     (let (r, w1) = io_write io b (if first_block then 3000 else 250) w
      in if \<not> r then (Inl Die, w1) else write_all io False bs w1)"

lemma program_data_blocks:
  assumes "0 < block_size o1" "block_size o1 + 2 \<le> 260" "block_size o1 dvd code_size o1"
    and "k \<le> code_size o1 div block_size o1"
  shows "program_data io o1 st (k * block_size o1) first_block w
     = Some (write_all io first_block (map (report_for o1 st) (needed_blocks o1 st k)) w)"
  using assms(4)
proof (induction "code_size o1 div block_size o1 - k" arbitrary: k first_block w)
  case 0
  then have "k = code_size o1 div block_size o1" by simp
  moreover from this have "k * block_size o1 = code_size o1" using assms(3) by simp
  ultimately show ?case
    by (subst program_data.simps) (simp add: needed_blocks_def)
next
  case (Suc n)
  define a where "a = k * block_size o1"
  define keep where "keep \<longleftrightarrow> a = 0 \<or> ihex_bytes_within_range st (int a) (int a + int (block_size o1) - 1)"
  have k: "k < code_size o1 div block_size o1" using Suc.hyps(2) by simp
  have less: "a < code_size o1"
    using k assms(1) unfolding a_def
    by (metis dvd_div_mult_self [OF assms(3)] mult_less_cancel2)
  have next_a: "a + block_size o1 = Suc k * block_size o1" by (simp add: a_def)
  have blocks: "needed_blocks o1 st k = (if keep then a # needed_blocks o1 st (Suc k) else needed_blocks o1 st (Suc k))"
    using k by (simp add: needed_blocks_def upt_conv_Cons keep_def a_def)
  have IH: "program_data io o1 st (a + block_size o1) f w
     = Some (write_all io f (map (report_for o1 st) (needed_blocks o1 st (Suc k))) w)" for f w
    unfolding next_a using Suc.hyps k by (intro Suc.hyps(1)) simp_all
  have report: "block_report o1 st x = Inr (report_for o1 st x)" for x
    using assms(2) by (simp add: block_report_def report_for_def)
  have "program_data io o1 st a first_block w =
      (if keep then let (r, w1) = io_write io (report_for o1 st a) (if first_block then 3000 else 250) w
         in if \<not> r then Some (Inl Die, w1) else program_data io o1 st (a + block_size o1) False w1
       else program_data io o1 st (a + block_size o1) first_block w)"
    by (subst program_data.simps) (simp add: less report keep_def)
  then show ?case
    unfolding a_def [symmetric] blocks IH by (simp add: case_prod_beta Let_def)
qed

lemma program_data_all:
  assumes "good_options o1"
  shows "program_data io o1 st 0 first_block w
     = Some (write_all io first_block (map (report_for o1 st) (needed_blocks o1 st 0)) w)"
  using program_data_blocks [of o1 0] good_sizes [OF assms] by simp


text \<open>On a device that takes reports, all of them arrive in order.\<close>

context report_device begin

lemma write_all_ok:
  assumes "io_write io = send"
  shows "ready w \<Longrightarrow> list_all wellformed bs \<Longrightarrow>
    fst (write_all io f bs w) = Inr () \<and> ready (snd (write_all io f bs w)) \<and>
    log (snd (write_all io f bs w)) = log w @ concat (map effect bs)"
proof (induction bs arbitrary: w f)
  case Nil
  then show ?case by simp
next
  case (Cons b bs)
  define t :: nat where "t = (if f then 3000 else 250)"
  have b: "fst (send b t w)" "ready (snd (send b t w))" "log (snd (send b t w)) = log w @ effect b"
    using send_ok [of w b t] Cons.prems by simp_all
  have "write_all io f (b # bs) w = write_all io False bs (snd (send b t w))"
    using b(1) by (simp add: assms case_prod_beta t_def [symmetric])
  then show ?case using Cons.IH [OF b(2), of False] Cons.prems b(3) by simp
qed

lemma program_reports:
  assumes "io_write io = send" "good_options o1" "ready w"
    and "list_all wellformed (map (report_for o1 st) (needed_blocks o1 st 0))"
  shows "\<exists>w'. program_data io o1 st 0 True w = Some (Inr (), w') \<and> ready w' \<and>
    log w' = log w @ concat (map effect (map (report_for o1 st) (needed_blocks o1 st 0)))"
  using write_all_ok [OF assms(1,3,4), of True] program_data_all [OF assms(2), of io st True w]
  by (cases "write_all io True (map (report_for o1 st) (needed_blocks o1 st 0)) w") auto

end

section \<open>What every operation of the outside keeps, the loader keeps\<close>

lemma after_open_cases:
  assumes "after_open io o1 name st waited w = Some (r, w')"
  obtains (unread) e where "r = Inl e" "w' = w"
  | (failed) st' e where "program_data io o1 st' 0 True w = Some (Inl e, w')" "r = Inl e"
  | (finished) st' w1 where "program_data io o1 st' 0 True w = Some (Inr (), w1)"
      "waited \<longrightarrow> load_image io name w = Inr st'" "\<not> waited \<longrightarrow> st' = st"
      "r = Inr ()" "w' = start_new_code io o1 w1"
proof (cases "if waited then load_image io name w else Inr st")
  case (Inl e)
  then show thesis using assms unread by (auto simp: after_open_def)
next
  case st': (Inr st')
  then obtain q w1 where q: "program_data io o1 st' 0 True w = Some (q, w1)"
    using assms by (auto simp: after_open_def bind_eq_Some_conv)
  show thesis
  proof (cases q)
    case (Inl e)
    then show thesis using assms q st' failed by (auto simp: after_open_def)
  next
    case (Inr u)
    then have "(r, w') = (Inr (), start_new_code io o1 w1)" using assms q st' by (simp add: after_open_def)
    moreover have "waited \<longrightarrow> load_image io name w = Inr st'" "\<not> waited \<longrightarrow> st' = st"
      using st' by (cases waited; simp)+
    ultimately show thesis using finished [of st' w1] q Inr by simp
  qed
qed

lemma loader_main_cases:
  assumes "loader_main io args w = Some (r, w')"
  obtains (stopped) e where "r = Inl e" "w' = w"
  | (no_device) hard wait e where "open_device io hard wait False w = Some (Inl e, w')" "r = Inl e"
  | (opened) o1 name st waited w1 where
      "parse_options args initial_options = Inr o1" "filename o1 = Some name" "load_image io name w = Inr st"
      "open_device io (hard_reboot_device o1) (wait_for_device_to_appear o1) False w = Some (Inr waited, w1)"
      "after_open io o1 name st waited w1 = Some (r, w')"
proof (cases "parse_options args initial_options")
  case (Inl e)
  then show thesis using assms stopped by (auto simp: loader_main_def)
next
  case o1: (Inr o1)
  show thesis
  proof (cases "filename o1 = None \<or> code_size o1 = 0")
    case True
    then show thesis using assms o1 stopped by (auto simp: loader_main_def split: option.splits)
  next
    case False
    then obtain name where name: "filename o1 = Some name" "code_size o1 \<noteq> 0" by auto
    show thesis
    proof (cases "load_image io name w")
      case (Inl e)
      then show thesis using assms o1 name stopped by (auto simp: loader_main_def)
    next
      case st: (Inr st)
      then obtain q w1 where
        q: "open_device io (hard_reboot_device o1) (wait_for_device_to_appear o1) False w = Some (q, w1)"
        using assms o1 name by (auto simp: loader_main_def bind_eq_Some_conv)
      then show thesis
        using assms o1 name st no_device opened by (cases q) (auto simp: loader_main_def)
    qed
  qed
qed

locale host_invariant =
  fixes io :: "'w host_io" and P :: "'w \<Rightarrow> bool"
  assumes keeps_open: "P w \<Longrightarrow> P (snd (io_open io w))"
    and keeps_write: "P w \<Longrightarrow> P (snd (io_write io r ms w))"
    and keeps_close: "P w \<Longrightarrow> P (io_close io w)"
    and keeps_reboot: "P w \<Longrightarrow> P (snd (io_reboot io w))"
    and keeps_delay: "P w \<Longrightarrow> P (io_delay io ms w)"
begin

lemma open_device_keeps:
  "open_device io hard wait waited w = Some (r, w') \<Longrightarrow> P w \<Longrightarrow> P w'"
proof -
  have "open_device io' hard wait waited w = Some y \<Longrightarrow> io' = io \<and> P w \<longrightarrow> P (snd y)" for io' hard wait waited w y
  proof (erule open_device.raw_induct [rotated], intro impI)
    fix f and io' :: "'w host_io" and hard wait waited w y
    assume IH: "\<And>io' hard wait waited w y. f io' hard wait waited w = Some y \<Longrightarrow> io' = io \<and> P w \<longrightarrow> P (snd y)"
      and body: "(let (opened, w1) = io_open io' w in if opened then Some (Inr waited, w1)
         else let (ok, w2) = if hard then io_reboot io' w1 else (True, w1)
         in if \<not> ok then Some (Inl Die, w2) else if \<not> (hard \<or> wait) then Some (Inl Die, w2)
            else f io' False (hard \<or> wait) True (io_delay io' 250 w2)) = Some y"
      and P: "io' = io \<and> P w"
    have P1: "P (snd (io_open io w))" using P keeps_open [of w] by simp
    have P2: "P (snd (if hard then io_reboot io (snd (io_open io w)) else (True, snd (io_open io w))))"
      using P1 keeps_reboot by simp
    show "P (snd y)"
      using body P P1 P2 IH keeps_delay [OF P2, of 250]
      by (auto simp: case_prod_beta Let_def split: if_splits)
  qed
  then show "open_device io hard wait waited w = Some (r, w') \<Longrightarrow> P w \<Longrightarrow> P w'" by fastforce
qed

lemma program_data_keeps:
  "program_data io o1 st addr fst_block w = Some (r, w') \<Longrightarrow> P w \<Longrightarrow> P w'"
proof -
  have "program_data io' o1 st addr fst_block w = Some y \<Longrightarrow> io' = io \<and> P w \<longrightarrow> P (snd y)" for io' o1 st addr fst_block w y
  proof (erule program_data.raw_induct [rotated], intro impI)
    fix f and io' :: "'w host_io" and o1 st addr fst_block w y
    assume IH: "\<And>io' o1 st addr fst_block w y. f io' o1 st addr fst_block w = Some y \<Longrightarrow> io' = io \<and> P w \<longrightarrow> P (snd y)"
      and body: "(if addr < code_size o1
        then if 0 < addr \<and> \<not> ihex_bytes_within_range st (int addr) (int addr + int (block_size o1) - 1)
          then f io' o1 st (addr + block_size o1) fst_block w
          else case block_report o1 st addr of Inl u \<Rightarrow> Some (Inl (Undefined u), w)
            | Inr buf \<Rightarrow> let (r, w1) = io_write io' buf (if fst_block then 3000 else 250) w
                in if \<not> r then Some (Inl Die, w1) else f io' o1 st (addr + block_size o1) False w1
        else Some (Inr (), w)) = Some y"
      and P: "io' = io \<and> P w"
    have "P (snd (io_write io' buf ms w))" for buf ms using P keeps_write by simp
    then show "P (snd y)"
      using body P IH by (auto simp: case_prod_beta Let_def split: if_splits sum.splits)
  qed
  then show "program_data io o1 st addr fst_block w = Some (r, w') \<Longrightarrow> P w \<Longrightarrow> P w'" by fastforce
qed

lemma start_new_code_keeps: "P w \<Longrightarrow> P (start_new_code io o1 w)"
  by (simp add: start_new_code_def keeps_close keeps_write)

lemma after_open_keeps:
  "after_open io o1 name st waited w = Some (r, w') \<Longrightarrow> P w \<Longrightarrow> P w'"
  by (erule after_open_cases) (auto dest: program_data_keeps intro: start_new_code_keeps)

lemma loader_main_keeps:
  "loader_main io args w = Some (r, w') \<Longrightarrow> P w \<Longrightarrow> P w'"
  by (erule loader_main_cases) (auto dest: open_device_keeps after_open_keeps)

end

text \<open>The device is closed when the program ends well.\<close>

lemma loader_main_closes:
  assumes "loader_main io args w = Some (Inr (), w')"
  shows "\<exists>w1. w' = io_close io w1"
  using assms by (auto elim!: loader_main_cases after_open_cases simp: start_new_code_def)

section \<open>Properties\<close>

text \<open>
  Whatever the command line, the loader either stops or runs with one of the five
  supported pairs of code and block size; the block then fits the buffer with its address and
  divides the code, so the programming loop ends exactly at the end of the flash. And it always
  waits for the device, tries a hard reboot and is verbose: the switches -w, -r and -v change
  nothing.
\<close>

theorem parse_options_sizes:
  "case parse_options args o1 of Inl e \<Rightarrow> e = Die
   | Inr o2 \<Rightarrow> (code_size o2, block_size o2) \<in> mcu_table \<and> block_size o2 dvd code_size o2 \<and>
       block_size o2 + 2 \<le> 260 \<and> wait_for_device_to_appear o2 \<and> hard_reboot_device o2 \<and> verbose o2"
proof (cases "parse_options args o1")
  case (Inl e)
  then show ?thesis using parse_options_error by simp
next
  case (Inr o2)
  then have "good_options o2" by (rule parse_options_good)
  then show ?thesis using good_sizes [of o2] Inr by (simp add: good_options_def)
qed

text \<open>
  The programming loop always returns. It writes the reports of the blocks that hold data and
  of the first one, in ascending order and nothing else, up to the first write that fails; the
  first write has the long timeout.
\<close>

theorem program_data_writes_needed_blocks:
  assumes "good_options o1"
  shows "program_data io o1 st 0 True w =
    Some (write_all io True (map (report_for o1 st) (needed_blocks o1 st 0)) w)"
  using assms by (rule program_data_all)

definition log_io :: "u8 list list host_io" where
  "log_io = \<lparr>io_open = (\<lambda>w. (True, w)), io_write = (\<lambda>r ms w. (True, w @ [r])), io_close = id,
     io_reboot = (\<lambda>w. (False, w)), io_delay = (\<lambda>ms w. w), io_file = (\<lambda>name w. None), io_stdin_eof = False\<rparr>"

definition default_options :: options where
  "default_options = \<lparr>wait_for_device_to_appear = True, hard_reboot_device = True,
     reboot_after_programming = True, verbose = True, code_size = 32768, block_size = 128,
     filename = Some ''a.hex''\<rparr>"

lemma good_default: "good_options default_options"
  by (simp add: good_options_def default_options_def mcu_table_def)

theorem program_data_writes_needed_blocks_witness:
  "program_data log_io default_options hex_reset 0 True [] =
     Some (write_all log_io True (map (report_for default_options hex_reset)
       (needed_blocks default_options hex_reset 0)) [])"
  by (rule program_data_writes_needed_blocks [OF good_default])

text \<open>
  C31. Opening the device, as the loader calls it: the device is used at once if it is there;
  otherwise there is exactly one hard reboot, whose failure ends the program; after that the
  loader polls until the device appears, and it returns with the first attempt that succeeds and
  with nothing else. It waits for ever exactly if no attempt ever succeeds.
\<close>

theorem open_device_polls:
  "open_device io True wait False w =
     (let (there, w1) = io_open io w; (rebooted, w2) = io_reboot io w1; w3 = io_delay io 250 w2
      in if there then Some (Inr False, w1)
         else if \<not> rebooted then Some (Inl Die, w2)
         else if \<exists>k. fst (attempt io w3 k)
           then Some (Inr True, snd (attempt io w3 (LEAST k. fst (attempt io w3 k))))
         else None)"
proof -
  have "open_device io True wait False w =
     (let (there, w1) = io_open io w; (rebooted, w2) = io_reboot io w1; w3 = io_delay io 250 w2
      in if there then Some (Inr False, w1)
         else if \<not> rebooted then Some (Inl Die, w2) else open_device io False True True w3)"
    by (subst open_device.simps) (simp add: case_prod_beta Let_def)
  then show ?thesis by (simp add: case_prod_beta Let_def open_device_cases)
qed

end
