(* ===== verification/UsbAccess.thy ===== *)
theory UsbAccess
  imports HostLoader
begin

text \<open>
  How the firmware loader reaches the device (\<open>hid_bootloader_cli.c\<close>), for the back ends of
  Linux/FreeBSD (libusb) and OpenBSD (uhid). The foreign calls are records of functions over the
  outside world; the loops, the checks and the static handle are the code's.
\<close>

section \<open>libusb\<close>

record 'd usb_dev =
  idVendor :: nat
  idProduct :: nat
  usb_dev_id :: 'd

record ('d, 'h, 'w) libusb =
  usb_find :: "'w \<Rightarrow> 'w"
  usb_get_busses :: "'w \<Rightarrow> 'd usb_dev list list"
  usb_open :: "'d \<Rightarrow> 'w \<Rightarrow> 'h option \<times> 'w"
  has_get_driver_np :: bool
  usb_get_driver_np :: "'h \<Rightarrow> 'w \<Rightarrow> int \<times> 'w"
  usb_detach_kernel_driver_np :: "'h \<Rightarrow> 'w \<Rightarrow> int \<times> 'w"
  usb_claim_interface :: "'h \<Rightarrow> 'w \<Rightarrow> int \<times> 'w"
  usb_release_interface :: "'h \<Rightarrow> 'w \<Rightarrow> 'w"
  usb_close :: "'h \<Rightarrow> 'w \<Rightarrow> 'w"
  usb_control_msg :: "'h \<Rightarrow> u8 \<Rightarrow> u8 \<Rightarrow> u16 \<Rightarrow> u16 \<Rightarrow> u8 list \<Rightarrow> nat \<Rightarrow> 'w \<Rightarrow> int \<times> 'w"

text \<open>The body of the inner loop for a matching device: the handle to return, or go on.\<close>

definition try_device :: "('d, 'h, 'w) libusb \<Rightarrow> 'd \<Rightarrow> 'w \<Rightarrow> 'h option \<times> 'w" where
  "try_device l d w = (case usb_open l d w of
       (None, w1) \<Rightarrow> (None, w1)
     | (Some h, w1) \<Rightarrow>
         (let (in_use, w2) =
             (if has_get_driver_np l
              then let (r, w2) = usb_get_driver_np l h w1
                   in if r \<ge> 0 then let (r, w3) = usb_detach_kernel_driver_np l h w2 in (r < 0, w3)
                      else (False, w2)
              else (False, w1))
          in if in_use then (None, usb_close l h w2)
             else let (r, w3) = usb_claim_interface l h w2
                  in if r < 0 then (None, usb_close l h w3) else (Some h, w3)))"

primrec open_on_bus :: "('d, 'h, 'w) libusb \<Rightarrow> nat \<Rightarrow> nat \<Rightarrow> 'd usb_dev list \<Rightarrow> 'w \<Rightarrow> 'h option \<times> 'w" where
  "open_on_bus l vid pid [] w = (None, w)"
| "open_on_bus l vid pid (d # ds) w =
     (if idVendor d \<noteq> vid then open_on_bus l vid pid ds w
      else if idProduct d \<noteq> pid then open_on_bus l vid pid ds w
      else case try_device l (usb_dev_id d) w of
          (None, w1) \<Rightarrow> open_on_bus l vid pid ds w1
        | (Some h, w1) \<Rightarrow> (Some h, w1))"

primrec open_on_busses ::
  "('d, 'h, 'w) libusb \<Rightarrow> nat \<Rightarrow> nat \<Rightarrow> 'd usb_dev list list \<Rightarrow> 'w \<Rightarrow> 'h option \<times> 'w" where
  "open_on_busses l vid pid [] w = (None, w)"
| "open_on_busses l vid pid (b # bs) w = (case open_on_bus l vid pid b w of
       (None, w1) \<Rightarrow> open_on_busses l vid pid bs w1
     | (Some h, w1) \<Rightarrow> (Some h, w1))"

definition open_usb_device :: "('d, 'h, 'w) libusb \<Rightarrow> nat \<Rightarrow> nat \<Rightarrow> 'w \<Rightarrow> 'h option \<times> 'w" where
  "open_usb_device l vid pid w =
     (let w1 = usb_find l w in open_on_busses l vid pid (usb_get_busses l w1) w1)"

record ('h, 'w) link =
  teensy_handle :: "'h option"
  outside :: 'w

definition teensy_close :: "('d, 'h, 'w) libusb \<Rightarrow> ('h, 'w) link \<Rightarrow> ('h, 'w) link" where
  "teensy_close l t = (case teensy_handle t of
       None \<Rightarrow> t
     | Some h \<Rightarrow> \<lparr>teensy_handle = None, outside = usb_close l h (usb_release_interface l h (outside t))\<rparr>)"

definition teensy_open :: "('d, 'h, 'w) libusb \<Rightarrow> ('h, 'w) link \<Rightarrow> bool \<times> ('h, 'w) link" where
  "teensy_open l t =
     (let (h, w1) = open_usb_device l 0x15ba 0x003b (outside (teensy_close l t));
          (h', w2) = (if h = None then open_usb_device l 0x15ba 0x003b w1 else (h, w1))
      in (h' \<noteq> None, \<lparr>teensy_handle = h', outside = w2\<rparr>))"

definition teensy_write ::
  "('d, 'h, 'w) libusb \<Rightarrow> u8 list \<Rightarrow> nat \<Rightarrow> ('h, 'w) link \<Rightarrow> bool \<times> ('h, 'w) link" where
  "teensy_write l buf ms t = (case teensy_handle t of
       None \<Rightarrow> (False, t)
     | Some h \<Rightarrow> (let (r, w) = usb_control_msg l h 0x21 9 0x0200 0 buf ms (outside t)
                  in (\<not> r < 0, t\<lparr>outside := w\<rparr>)))"

text \<open>The characters of "reboot".\<close>

definition reboot_report :: "u8 list" where
  "reboot_report = [0x72, 0x65, 0x62, 0x6F, 0x6F, 0x74]"

definition hard_reboot :: "('d, 'h, 'w) libusb \<Rightarrow> ('h, 'w) link \<Rightarrow> bool \<times> ('h, 'w) link" where
  "hard_reboot l t =
     (let (h, w1) = open_usb_device l 0x15ba 0x003c (outside t);
          (h', w2) = (if h = None then open_usb_device l 0x15ba 0x003b w1 else (h, w1))
      in case h' of
           None \<Rightarrow> (False, t\<lparr>outside := w2\<rparr>)
         | Some rebootor \<Rightarrow>
             (let (r, w3) = usb_control_msg l rebootor 0x21 9 0x0200 0 reboot_report 100 w2;
                  w4 = usb_close l rebootor (usb_release_interface l rebootor w3)
              in (\<not> r < 0, t\<lparr>outside := w4\<rparr>)))"

text \<open>The operations of the loader on Linux.\<close>

definition libusb_io ::
  "('d, 'h, 'w) libusb \<Rightarrow> (nat \<Rightarrow> 'w \<Rightarrow> 'w) \<Rightarrow> (string \<Rightarrow> 'w \<Rightarrow> string option) \<Rightarrow> bool \<Rightarrow> ('h, 'w) link host_io" where
  "libusb_io l usleep contents stdin_eof =
     \<lparr>io_open = teensy_open l, io_write = teensy_write l, io_close = teensy_close l,
      io_reboot = hard_reboot l, io_delay = (\<lambda>ms t. t\<lparr>outside := usleep ms (outside t)\<rparr>),
      io_file = (\<lambda>name t. contents name (outside t)), io_stdin_eof = stdin_eof\<rparr>"

section \<open>uhid\<close>

text \<open>
  A device node that answers the query for its vendor and product, or refuses it (then the
  program dies). \<open>readdir\<close> gives the names in /dev, or \<open>None\<close> where it cannot be read.
\<close>

record 'w uhid =
  dev_names :: "'w \<Rightarrow> string list option"
  open_node :: "string \<Rightarrow> 'w \<Rightarrow> int \<times> 'w"
  get_deviceinfo :: "int \<Rightarrow> 'w \<Rightarrow> (nat \<times> nat) option"
  write_node :: "int \<Rightarrow> u8 list \<Rightarrow> 'w \<Rightarrow> int \<times> 'w"
  close_node :: "int \<Rightarrow> 'w \<Rightarrow> 'w"
  uhid_delay :: "nat \<Rightarrow> 'w \<Rightarrow> 'w"

primrec uhid_search :: "'w uhid \<Rightarrow> nat \<Rightarrow> nat \<Rightarrow> string list \<Rightarrow> 'w \<Rightarrow> int loader \<times> 'w" where
  "uhid_search u vid pid [] w = (Inr (- 1), w)"
| "uhid_search u vid pid (d # ds) w =
     (if \<not> strncmp_eq d ''uhid'' then uhid_search u vid pid ds w
      else let (fd, w1) = open_node u (take 255 (''/dev/'' @ d)) w
      in if fd < 0 then uhid_search u vid pid ds w1
         else case get_deviceinfo u fd w1 of
             None \<Rightarrow> (Inl Die, w1)
           | Some (vendor, product) \<Rightarrow>
               if vendor = vid \<and> product = pid then (Inr fd, w1)
               else uhid_search u vid pid ds (close_node u fd w1))"

definition uhid_open_usb_device :: "'w uhid \<Rightarrow> nat \<Rightarrow> nat \<Rightarrow> 'w \<Rightarrow> int loader \<times> 'w" where
  "uhid_open_usb_device u vid pid w = (case dev_names u w of
       None \<Rightarrow> (Inr (- 1), w)
     | Some ds \<Rightarrow> uhid_search u vid pid ds w)"

type_synonym 'w uhid_link = "int \<times> 'w"

definition uhid_teensy_close :: "'w uhid \<Rightarrow> 'w uhid_link \<Rightarrow> 'w uhid_link" where
  "uhid_teensy_close u t = (if fst t \<ge> 0 then (- 1, close_node u (fst t) (snd t)) else t)"

text \<open>Two attempts to open; the program may die in either.\<close>

definition uhid_open_either :: "'w uhid \<Rightarrow> 'w \<Rightarrow> int loader \<times> 'w" where
  "uhid_open_either u w =
     (case uhid_open_usb_device u 0x15ba 0x003b w of
        (Inl e, w1) \<Rightarrow> (Inl e, w1)
      | (Inr fd, w1) \<Rightarrow> if fd < 0 then uhid_open_usb_device u 0x15ba 0x003b w1 else (Inr fd, w1))"

definition uhid_teensy_open :: "'w uhid \<Rightarrow> 'w uhid_link \<Rightarrow> bool loader \<times> 'w uhid_link" where
  "uhid_teensy_open u t =
     (case uhid_open_either u (snd (uhid_teensy_close u t)) of
        (Inl e, w1) \<Rightarrow> (Inl e, (- 1, w1))
      | (Inr fd, w1) \<Rightarrow> (Inr (\<not> fd < 0), (fd, w1)))"

definition uhid_teensy_write :: "'w uhid \<Rightarrow> u8 list \<Rightarrow> 'w uhid_link \<Rightarrow> bool \<times> 'w uhid_link" where
  "uhid_teensy_write u buf t =
     (let (r, w) = write_node u (fst t) buf (snd t) in (r = int (length buf), (fst t, w)))"

definition uhid_hard_reboot :: "'w uhid \<Rightarrow> 'w uhid_link \<Rightarrow> bool loader \<times> 'w uhid_link" where
  "uhid_hard_reboot u t =
     (case uhid_open_either u (snd t) of
        (Inl e, w1) \<Rightarrow> (Inl e, (fst t, w1))
      | (Inr fd, w1) \<Rightarrow>
          if fd < 0 then (Inr False, (fst t, w1))
          else let (r, w2) = write_node u fd reboot_report w1
               in (Inr (r = 6), (fst t, close_node u fd (uhid_delay u 100 w2))))"

section \<open>Handles are not lost\<close>

text \<open>
  What the libusb calls do to the number of open handles, as its documentation says: \<open>usb_open\<close> adds
  one when it succeeds, \<open>usb_close\<close> removes one, no other call changes it.
\<close>

definition counts_handles :: "('d, 'h, 'w) libusb \<Rightarrow> ('w \<Rightarrow> int) \<Rightarrow> bool" where
  "counts_handles l n \<longleftrightarrow>
     (\<forall>d w. n (snd (usb_open l d w)) = n w + (if fst (usb_open l d w) = None then 0 else 1)) \<and>
     (\<forall>h w. n (usb_close l h w) = n w - 1) \<and> (\<forall>w. n (usb_find l w) = n w) \<and>
     (\<forall>h w. n (snd (usb_get_driver_np l h w)) = n w) \<and>
     (\<forall>h w. n (snd (usb_detach_kernel_driver_np l h w)) = n w) \<and>
     (\<forall>h w. n (snd (usb_claim_interface l h w)) = n w) \<and>
     (\<forall>h w. n (usb_release_interface l h w) = n w) \<and>
     (\<forall>h a b c d buf ms w. n (snd (usb_control_msg l h a b c d buf ms w)) = n w)"

definition held :: "'h option \<Rightarrow> int" where
  "held h = (if h = None then 0 else 1)"

lemma held_simps [simp]: "held None = 0" "held (Some h) = 1"
  by (simp_all add: held_def)

lemma counts_simps:
  assumes "counts_handles l n"
  shows "n (snd (usb_open l d w)) = n w + held (fst (usb_open l d w))"
    and "n (usb_close l h w) = n w - 1" and "n (usb_find l w) = n w"
    and "n (snd (usb_get_driver_np l h w)) = n w"
    and "n (snd (usb_detach_kernel_driver_np l h w)) = n w"
    and "n (snd (usb_claim_interface l h w)) = n w"
    and "n (usb_release_interface l h w) = n w"
    and "n (snd (usb_control_msg l h a b c x buf ms w)) = n w"
  using assms by (simp_all add: counts_handles_def held_def)

lemma try_device_counts:
  assumes "counts_handles l n"
  shows "n (snd (try_device l d w)) = n w + held (fst (try_device l d w))"
proof (cases "usb_open l d w")
  case (Pair h w1)
  then have "n w1 = n w + held h" using counts_simps(1) [OF assms, of d w] by simp
  then show ?thesis
    using Pair counts_simps(2,4-6) [OF assms]
    by (cases h) (simp_all add: try_device_def case_prod_beta Let_def)
qed

lemma open_on_bus_counts:
  assumes "counts_handles l n"
  shows "n (snd (open_on_bus l vid pid ds w)) = n w + held (fst (open_on_bus l vid pid ds w))"
proof (induction ds arbitrary: w)
  case (Cons d ds)
  have "n (snd (try_device l (usb_dev_id d) w)) = n w + held (fst (try_device l (usb_dev_id d) w))"
    by (rule try_device_counts [OF assms])
  then show ?case using Cons.IH by (auto split: prod.split option.split)
qed simp

lemma open_on_busses_counts:
  assumes "counts_handles l n"
  shows "n (snd (open_on_busses l vid pid bs w)) = n w + held (fst (open_on_busses l vid pid bs w))"
proof (induction bs arbitrary: w)
  case (Cons b bs)
  have "n (snd (open_on_bus l vid pid b w)) = n w + held (fst (open_on_bus l vid pid b w))"
    by (rule open_on_bus_counts [OF assms])
  then show ?case using Cons.IH by (auto split: prod.split option.split)
qed simp

lemma open_usb_device_counts:
  assumes "counts_handles l n"
  shows "n (snd (open_usb_device l vid pid w)) = n w + held (fst (open_usb_device l vid pid w))"
  using open_on_busses_counts [OF assms] counts_simps(3) [OF assms]
  by (simp add: open_usb_device_def Let_def)

definition open_handles :: "('w \<Rightarrow> int) \<Rightarrow> ('h, 'w) link \<Rightarrow> int" where
  "open_handles n t = n (outside t) - held (teensy_handle t)"

lemma teensy_close_counts:
  assumes "counts_handles l n"
  shows "open_handles n (teensy_close l t) = open_handles n t"
  using counts_simps(2,7) [OF assms]
  by (simp add: teensy_close_def open_handles_def split: option.split)

lemma teensy_close_handle [simp]: "teensy_handle (teensy_close l t) = None"
  by (simp add: teensy_close_def split: option.split)

lemma teensy_open_counts:
  assumes "counts_handles l n"
  shows "open_handles n (snd (teensy_open l t)) = open_handles n t"
proof -
  have "n (outside (teensy_close l t)) = open_handles n t"
    using teensy_close_counts [OF assms, of t] by (simp add: open_handles_def)
  then show ?thesis
    using open_usb_device_counts [OF assms, of "0x15ba" "0x003b"]
    by (simp add: teensy_open_def case_prod_beta Let_def open_handles_def)
qed

lemma teensy_write_counts:
  assumes "counts_handles l n"
  shows "open_handles n (snd (teensy_write l buf ms t)) = open_handles n t"
  using counts_simps(8) [OF assms]
  by (simp add: teensy_write_def open_handles_def case_prod_beta Let_def split: option.split)

lemma hard_reboot_counts:
  assumes "counts_handles l n"
  shows "open_handles n (snd (hard_reboot l t)) = open_handles n t"
  using counts_simps(2,7,8) [OF assms] open_usb_device_counts [OF assms, of "0x15ba"]
  by (simp add: hard_reboot_def case_prod_beta Let_def open_handles_def split: option.split)

text \<open>The loader on libusb keeps the balance of handles; the delay must not touch them either.\<close>

definition balanced :: "('d, 'h, 'w) libusb \<Rightarrow> (nat \<Rightarrow> 'w \<Rightarrow> 'w) \<Rightarrow> ('w \<Rightarrow> int) \<Rightarrow> int \<Rightarrow> ('h, 'w) link \<Rightarrow> bool" where
  "balanced l usleep n c t \<longleftrightarrow>
     (counts_handles l n \<and> (\<forall>ms w. n (usleep ms w) = n w) \<longrightarrow> open_handles n t = c)"

interpretation libusb: host_invariant "libusb_io l usleep contents stdin_eof" "balanced l usleep n c"
  for l usleep contents stdin_eof n c
proof
  fix t :: "('b, 'c) link" and r ms
  assume b: "balanced l usleep n c t"
  show "balanced l usleep n c (snd (io_open (libusb_io l usleep contents stdin_eof) t))"
    using b by (simp add: libusb_io_def balanced_def teensy_open_counts)
  show "balanced l usleep n c (snd (io_write (libusb_io l usleep contents stdin_eof) r ms t))"
    using b by (simp add: libusb_io_def balanced_def teensy_write_counts)
  show "balanced l usleep n c (io_close (libusb_io l usleep contents stdin_eof) t)"
    using b by (simp add: libusb_io_def balanced_def teensy_close_counts)
  show "balanced l usleep n c (snd (io_reboot (libusb_io l usleep contents stdin_eof) t))"
    using b by (simp add: libusb_io_def balanced_def hard_reboot_counts)
  show "balanced l usleep n c (io_delay (libusb_io l usleep contents stdin_eof) ms t)"
    using b by (auto simp: libusb_io_def balanced_def open_handles_def)
qed

text \<open>
  C21. A run of the loader that ends well leaves no USB handle open: the static handle is reset, and
  as many handles are open in the end as there were at the start, however many devices it tried,
  failed to claim, reset or waited for.
\<close>

theorem loader_leaves_no_handle:
  assumes "counts_handles l n" "\<forall>ms w. n (usleep ms w) = n w"
    and "teensy_handle t = None"
    and "loader_main (libusb_io l usleep contents stdin_eof) args t = Some (Inr (), t')"
  shows "teensy_handle t' = None \<and> n (outside t') = n (outside t)"
proof -
  have "balanced l usleep n (n (outside t)) t"
    using assms(3) by (simp add: balanced_def open_handles_def)
  then have "balanced l usleep n (n (outside t)) t'"
    by (rule libusb.loader_main_keeps [OF assms(4)])
  then have "open_handles n t' = n (outside t)"
    using assms(1,2) by (simp add: balanced_def)
  moreover have "teensy_handle t' = None"
    using loader_main_closes [OF assms(4)] by (auto simp: libusb_io_def)
  ultimately show ?thesis by (simp add: open_handles_def)
qed

text \<open>A bus with one bootloader, whose world is the number of open handles.\<close>

definition one_device :: "(unit, unit, int) libusb" where
  "one_device = \<lparr>usb_find = id, usb_get_busses = (\<lambda>_. [[\<lparr>idVendor = 0x15ba, idProduct = 0x003b, usb_dev_id = ()\<rparr>]]),
     usb_open = (\<lambda>_ w. (Some (), w + 1)), has_get_driver_np = False,
     usb_get_driver_np = (\<lambda>_ w. (0, w)), usb_detach_kernel_driver_np = (\<lambda>_ w. (0, w)),
     usb_claim_interface = (\<lambda>_ w. (0, w)), usb_release_interface = (\<lambda>_ w. w),
     usb_close = (\<lambda>_ w. w - 1), usb_control_msg = (\<lambda>_ _ _ _ _ buf _ w. (int (length buf), w))\<rparr>"

definition no_device_file :: "string \<Rightarrow> int \<Rightarrow> string option" where
  "no_device_file name w = Some []"

text \<open>
  The run of the loader with an empty file, on a device that is there and takes every report; \<open>v\<close> is
  the state after a write.
\<close>

lemma empty_image_run:
  assumes "io_open io w = (True, u)" "\<And>r ms. length r = 130 \<Longrightarrow> io_write io r ms u = (True, v)"
    "\<And>r ms. length r = 130 \<Longrightarrow> io_write io r ms v = (True, v)" "io_file io ''a.hex'' w = Some []"
    and "io_stdin_eof io = False"
  shows "loader_main io [''a.hex''] w = Some (Inr (), io_close io v)"
proof -
  have opts: "parse_options [''a.hex''] initial_options = Inr default_options"
    by (simp add: parse_options_def initial_options_def default_options_def parse_option_def)
  have load: "load_image io ''a.hex'' w = Inr hex_reset"
    using assms(4,5) by (simp add: load_image_def read_intel_hex_def hex_lines.simps hex_reset_def)
  have opened: "open_device io True True False w = Some (Inr False, u)"
    using assms(1) by (subst open_device.simps) simp
  have rest: "write_all io f bs v = (Inr (), v)" if "\<forall>b \<in> set bs. length b = 130" for f bs
    using that by (induction bs arbitrary: f) (simp_all add: assms(3))
  have "write_all io f bs u = (Inr (), if bs = [] then u else v)" if "\<forall>b \<in> set bs. length b = 130" for f bs
    using that by (cases bs) (simp_all add: assms(2) rest)
  moreover have "\<forall>b \<in> set (map (report_for default_options hex_reset) as). length b = 130" for as
    by (simp add: report_for_def address_bytes_def default_options_def)
  ultimately obtain x where prog: "program_data io default_options hex_reset 0 True u = Some (Inr (), x)" and x: "x = u \<or> x = v"
    by (simp add: program_data_all good_default)
  have start: "start_new_code io default_options x = io_close io v"
    using x by (auto simp: start_new_code_def assms(2,3) boot_report_def default_options_def)
  show ?thesis
    unfolding loader_main_def opts
    by (simp add: load opened after_open_def prog start) (simp add: default_options_def load opened after_open_def
        prog [unfolded default_options_def] start [unfolded default_options_def])
qed

lemma one_device_run:
  "loader_main (libusb_io one_device (\<lambda>_ w. w) no_device_file False) [''a.hex''] \<lparr>teensy_handle = None, outside = 0\<rparr>
     = Some (Inr (), \<lparr>teensy_handle = None, outside = 0\<rparr>)"
proof -
  let ?u = "\<lparr>teensy_handle = Some (), outside = 1 :: int\<rparr>"
  have "io_close (libusb_io one_device (\<lambda>_ w. w) no_device_file False) ?u = \<lparr>teensy_handle = None, outside = 0\<rparr>"
    by (simp add: libusb_io_def teensy_close_def one_device_def)
  then show ?thesis
    by (subst empty_image_run [of _ _ ?u ?u])
      (simp_all add: libusb_io_def teensy_open_def teensy_close_def open_usb_device_def one_device_def try_device_def
        teensy_write_def no_device_file_def)
qed

theorem loader_leaves_no_handle_witness:
  "\<exists>t'. loader_main (libusb_io one_device (\<lambda>_ w. w) no_device_file False) [''a.hex'']
           \<lparr>teensy_handle = None, outside = 0\<rparr> = Some (Inr (), t') \<and>
     teensy_handle t' = None \<and> id (outside t') = id (0::int)"
proof -
  have "counts_handles one_device id" by (simp add: counts_handles_def one_device_def)
  then show ?thesis
    using loader_leaves_no_handle [OF _ _ _ one_device_run, of id] one_device_run by auto
qed

end
