(* ===== verification/Bootloader.thy ===== *)
theory Bootloader
  imports Prelude
begin

text \<open>
  The HID bootloader of the keyboard controller (\<open>BootLoaderHID/BootloaderHID.c\<close>, built for the
  atmega32u4: 16-bit flash addresses). LUFA and avr-libc are not part of the repository: what the
  code reads from them (the words of the data stage, the bytes left in the endpoint) is input of
  the model, and what it asks of them (endpoint handshakes, self-programming commands) is the
  trace of calls it makes, in order.
\<close>

section \<open>Start-up check\<close>

definition MAGIC_BOOT_KEY :: u16 where
  "MAGIC_BOOT_KEY = 0xDC42"

definition COMMAND_STARTAPPLICATION :: u16 where
  "COMMAND_STARTAPPLICATION = 0xFFFF"

definition BOOTLOADER_TIMEOUT :: u16 where
  "BOOTLOADER_TIMEOUT = 20"

text \<open>
  \<open>Application_Jump_Check\<close>: from the word at flash address 0, the reset cause register and the
  number of its watchdog bit, and the key left in memory, whether the application is started, and
  the key afterwards.
\<close>

definition Application_Jump_Check :: "u16 \<Rightarrow> u8 \<Rightarrow> nat \<Rightarrow> u16 \<Rightarrow> bool \<times> u16" where
  "Application_Jump_Check word0 MCUSR WDRF key =
     (let ApplicationValid = (word0 \<noteq> 0xFFFF)
      in if MCUSR AND push_bit WDRF 1 \<noteq> 0 \<and> key = MAGIC_BOOT_KEY \<and> ApplicationValid
         then (True, 0) else (False, key))"

section \<open>State\<close>

datatype dev_call =
    Endpoint_ClearSETUP
  | Endpoint_ClearOUT
  | Endpoint_ClearStatusStage
  | Wait_OUTReceived
  | Page_erase u16
  | Page_fill u16 u16
  | Page_write u16
  | Spm_busy_wait
  | Rww_enable
  | Configure_endpoint
  | Usb_init
  | Usb_detach
  | Wdt_disable
  | Wdt_enable
  | Vectors_to_boot_section
  | Timer0_overflow_on

datatype boot_phase = Starting | Running | Resetting

record boot =
  RunBootloader :: bool
  MagicBootKey :: u16
  boottime :: u16
  phase :: boot_phase
  calls :: "dev_call list"

definition emit :: "dev_call list \<Rightarrow> boot \<Rightarrow> boot" where
  "emit cs s = s\<lparr>calls := calls s @ cs\<rparr>"

section \<open>Control requests\<close>

text \<open>The constants of the USB request fields, from LUFA's headers.\<close>

record usb_consts =
  CONTROL_REQTYPE_TYPE :: u8
  CONTROL_REQTYPE_RECIPIENT :: u8
  REQTYPE_CLASS :: u8
  REQREC_INTERFACE :: u8
  HID_REQ_SetReport :: u8

text \<open>
  One control request: its type and request bytes, and what the endpoint delivers: \<open>rd n\<close> is the
  value of the \<open>n\<close>-th call of \<open>Endpoint_Read_16_LE\<close>, \<open>left n\<close> of \<open>Endpoint_BytesInEndpoint\<close>.
\<close>

record request =
  bmRequestType :: u8
  bRequest :: u8
  rd :: "nat \<Rightarrow> u16"
  left :: "nat \<Rightarrow> nat"

text \<open>
  The loop that fills the page buffer, word \<open>k\<close> of \<open>n\<close> on. The counter of the source is a byte, which
  holds every word number of a page of up to 510 bytes; the pages of the controllers have 128 and 256.
\<close>

function fill_page :: "u16 \<Rightarrow> request \<Rightarrow> nat \<Rightarrow> nat \<Rightarrow> dev_call list" where
  "fill_page PageAddress r k n =
     (if k < n
      then (if left r k = 0 then [Endpoint_ClearOUT, Wait_OUTReceived] else [])
           @ Page_fill (PageAddress + push_bit 1 (word_of_nat k)) (rd r (Suc k))
           # fill_page PageAddress r (Suc k) n
      else [])"
  by pat_completeness auto
termination by (relation "measure (\<lambda>(a, r, k, n). n - k)") auto

declare fill_page.simps [simp del]

definition program_page :: "nat \<Rightarrow> u16 \<Rightarrow> request \<Rightarrow> dev_call list" where
  "program_page SPM_PAGESIZE PageAddress r =
     [Page_erase PageAddress, Spm_busy_wait] @ fill_page PageAddress r 0 (SPM_PAGESIZE div 2)
     @ [Page_write PageAddress, Spm_busy_wait, Rww_enable]"

definition EVENT_USB_Device_ControlRequest :: "usb_consts \<Rightarrow> nat \<Rightarrow> request \<Rightarrow> boot \<Rightarrow> boot" where
  "EVENT_USB_Device_ControlRequest c SPM_PAGESIZE r s =
     (if bmRequestType r AND (CONTROL_REQTYPE_TYPE c OR CONTROL_REQTYPE_RECIPIENT c)
           \<noteq> (REQTYPE_CLASS c OR REQREC_INTERFACE c) then s
      else if bRequest r = HID_REQ_SetReport c
      then let s1 = emit [Endpoint_ClearSETUP, Wait_OUTReceived] s;
               PageAddress = rd r 0;
               s2 = (if PageAddress = COMMAND_STARTAPPLICATION
                     then s1\<lparr>RunBootloader := False\<rparr>
                     else emit (program_page SPM_PAGESIZE PageAddress r)
                            (s1\<lparr>boottime := BOOTLOADER_TIMEOUT\<rparr>))
           in emit [Endpoint_ClearOUT, Endpoint_ClearStatusStage] s2
      else s)"

definition EVENT_USB_Device_ConfigurationChanged :: "boot \<Rightarrow> boot" where
  "EVENT_USB_Device_ConfigurationChanged s = emit [Configure_endpoint] s"

section \<open>Timer and main loop\<close>

definition TIMER0_OVF_vect :: "boot \<Rightarrow> boot" where
  "TIMER0_OVF_vect s =
     (if boottime s \<noteq> 0 then s\<lparr>boottime := boottime s - 1\<rparr> else s\<lparr>RunBootloader := False\<rparr>)"

definition SetupHardware :: "boot \<Rightarrow> boot" where
  "SetupHardware s = emit [Wdt_disable, Vectors_to_boot_section, Timer0_overflow_on, Usb_init] s"

definition boot_reset :: "u16 \<Rightarrow> boot" where
  "boot_reset key = \<lparr>RunBootloader = True, MagicBootKey = key, boottime = 0, phase = Starting, calls = []\<rparr>"

text \<open>\<open>main\<close> up to its loop, and what it does once the loop ends.\<close>

definition main_start :: "boot \<Rightarrow> boot" where
  "main_start s = (SetupHardware s)\<lparr>boottime := BOOTLOADER_TIMEOUT, phase := Running\<rparr>"

definition main_exit :: "boot \<Rightarrow> boot" where
  "main_exit s = emit [Wdt_enable] ((emit [Usb_detach] s)\<lparr>MagicBootKey := MAGIC_BOOT_KEY, phase := Resetting\<rparr>)"

text \<open>
  The steps of the running program: the interrupt and the USB events come in any order between
  the tests of \<open>while (RunBootloader)\<close>.
\<close>

inductive boot_step :: "usb_consts \<Rightarrow> nat \<Rightarrow> boot \<Rightarrow> boot \<Rightarrow> bool" for c n where
  start: "phase s = Starting \<Longrightarrow> boot_step c n s (main_start s)"
| tick: "phase s = Running \<Longrightarrow> boot_step c n s (TIMER0_OVF_vect s)"
| control: "phase s = Running \<Longrightarrow> RunBootloader s \<Longrightarrow>
     boot_step c n s (EVENT_USB_Device_ControlRequest c n r s)"
| configured: "phase s = Running \<Longrightarrow> RunBootloader s \<Longrightarrow>
     boot_step c n s (EVENT_USB_Device_ConfigurationChanged s)"
| leave: "phase s = Running \<Longrightarrow> \<not> RunBootloader s \<Longrightarrow> boot_step c n s (main_exit s)"

inductive boot_reachable :: "usb_consts \<Rightarrow> nat \<Rightarrow> u16 \<Rightarrow> boot \<Rightarrow> bool" for c n key where
  init: "boot_reachable c n key (boot_reset key)"
| step: "boot_reachable c n key s \<Longrightarrow> boot_step c n s s' \<Longrightarrow> boot_reachable c n key s'"

inductive_cases boot_stepE: "boot_step c n s s'"


section \<open>What the steps do\<close>

lemma emit_simps [simp]:
  "RunBootloader (emit cs s) = RunBootloader s" "MagicBootKey (emit cs s) = MagicBootKey s"
  "boottime (emit cs s) = boottime s" "phase (emit cs s) = phase s" "calls (emit cs s) = calls s @ cs"
  by (simp_all add: emit_def)

definition is_spm :: "dev_call \<Rightarrow> bool" where
  "is_spm x = (case x of Page_erase _ \<Rightarrow> True | Page_fill _ _ \<Rightarrow> True | Page_write _ \<Rightarrow> True
     | Spm_busy_wait \<Rightarrow> True | Rww_enable \<Rightarrow> True | _ \<Rightarrow> False)"

lemma is_spm_simps [simp]:
  "is_spm (Page_erase a)" "is_spm (Page_fill a w)" "is_spm (Page_write a)" "is_spm Spm_busy_wait"
  "is_spm Rww_enable" "\<not> is_spm Endpoint_ClearSETUP" "\<not> is_spm Endpoint_ClearOUT"
  "\<not> is_spm Endpoint_ClearStatusStage" "\<not> is_spm Wait_OUTReceived" "\<not> is_spm Configure_endpoint"
  "\<not> is_spm Usb_init" "\<not> is_spm Usb_detach" "\<not> is_spm Wdt_disable" "\<not> is_spm Wdt_enable"
  "\<not> is_spm Vectors_to_boot_section" "\<not> is_spm Timer0_overflow_on"
  by (simp_all add: is_spm_def)

abbreviation spm_calls :: "boot \<Rightarrow> dev_call list" where
  "spm_calls s \<equiv> filter is_spm (calls s)"

text \<open>The self-programming commands that store \<open>ws\<close> in the page at \<open>a\<close>.\<close>

definition page_commands :: "u16 \<Rightarrow> u16 list \<Rightarrow> dev_call list" where
  "page_commands a ws = [Page_erase a, Spm_busy_wait]
     @ map (\<lambda>k. Page_fill (a + word_of_nat (2 * k)) (ws ! k)) [0..<length ws]
     @ [Page_write a, Spm_busy_wait, Rww_enable]"

definition data_words :: "nat \<Rightarrow> request \<Rightarrow> u16 list" where
  "data_words SPM_PAGESIZE r = map (\<lambda>k. rd r (Suc k)) [0..<SPM_PAGESIZE div 2]"

lemma spm_fill_page:
  "filter is_spm (fill_page a r k n) = map (\<lambda>j. Page_fill (a + word_of_nat (2 * j)) (rd r (Suc j))) [k..<n]"
proof (induction a r k n rule: fill_page.induct)
  case (1 a r k n)
  show ?case
  proof (cases "k < n")
    case True
    have "filter is_spm (fill_page a r k n)
        = Page_fill (a + push_bit 1 (word_of_nat k)) (rd r (Suc k)) # filter is_spm (fill_page a r (Suc k) n)"
      using True by (subst fill_page.simps) simp
    also have "push_bit 1 (word_of_nat k) = (word_of_nat (2 * k) :: u16)"
      by (simp add: push_bit_eq_mult)
    finally show ?thesis using True 1 by (simp add: upt_conv_Cons)
  next
    case False
    then show ?thesis by (subst fill_page.simps) simp
  qed
qed

lemma spm_program_page:
  "filter is_spm (program_page ps a r) = page_commands a (data_words ps r)"
  by (simp add: program_page_def page_commands_def data_words_def spm_fill_page)

definition directed :: "usb_consts \<Rightarrow> request \<Rightarrow> bool" where
  "directed c r \<longleftrightarrow> bmRequestType r AND (CONTROL_REQTYPE_TYPE c OR CONTROL_REQTYPE_RECIPIENT c)
     = (REQTYPE_CLASS c OR REQREC_INTERFACE c) \<and> bRequest r = HID_REQ_SetReport c"

lemma ControlRequest_ignored:
  "\<not> directed c r \<Longrightarrow> EVENT_USB_Device_ControlRequest c ps r s = s"
  by (auto simp: EVENT_USB_Device_ControlRequest_def directed_def)

lemma ControlRequest_start:
  assumes "directed c r" "rd r 0 = COMMAND_STARTAPPLICATION"
  shows "spm_calls (EVENT_USB_Device_ControlRequest c ps r s) = spm_calls s"
    "RunBootloader (EVENT_USB_Device_ControlRequest c ps r s) = False"
    "boottime (EVENT_USB_Device_ControlRequest c ps r s) = boottime s"
  using assms by (simp_all add: EVENT_USB_Device_ControlRequest_def directed_def Let_def)

lemma ControlRequest_page:
  assumes "directed c r" "rd r 0 \<noteq> COMMAND_STARTAPPLICATION"
  shows "spm_calls (EVENT_USB_Device_ControlRequest c ps r s)
      = spm_calls s @ page_commands (rd r 0) (data_words ps r)"
    "RunBootloader (EVENT_USB_Device_ControlRequest c ps r s) = RunBootloader s"
    "boottime (EVENT_USB_Device_ControlRequest c ps r s) = BOOTLOADER_TIMEOUT"
  using assms
  by (simp_all add: EVENT_USB_Device_ControlRequest_def directed_def Let_def spm_program_page)

lemma ControlRequest_frame [simp]:
  "phase (EVENT_USB_Device_ControlRequest c ps r s) = phase s"
  "MagicBootKey (EVENT_USB_Device_ControlRequest c ps r s) = MagicBootKey s"
  by (simp_all add: EVENT_USB_Device_ControlRequest_def Let_def)

lemma TIMER0_frame [simp]:
  "phase (TIMER0_OVF_vect s) = phase s" "MagicBootKey (TIMER0_OVF_vect s) = MagicBootKey s"
  "calls (TIMER0_OVF_vect s) = calls s"
  by (simp_all add: TIMER0_OVF_vect_def)

section \<open>The contract of the bootloader\<close>

text \<open>
  What the host sees of the device: whether it is still in the bootloader, how many timer
  overflows it waits for, and the pages it has programmed.
\<close>

datatype report = Program_page u16 "u16 list" | Start_application | Not_for_us

definition report_of :: "usb_consts \<Rightarrow> nat \<Rightarrow> request \<Rightarrow> report" where
  "report_of c ps r =
     (if \<not> directed c r then Not_for_us
      else if rd r 0 = COMMAND_STARTAPPLICATION then Start_application
      else Program_page (rd r 0) (data_words ps r))"

type_synonym loader_view = "bool \<times> nat \<times> dev_call list"

definition view :: "boot \<Rightarrow> loader_view" where
  "view s = (RunBootloader s, unat (boottime s), spm_calls s)"

fun handle_report :: "report \<Rightarrow> loader_view \<Rightarrow> loader_view" where
  "handle_report Not_for_us v = v"
| "handle_report Start_application (run, t, spm) = (False, t, spm)"
| "handle_report (Program_page a ws) (run, t, spm) = (run, 20, spm @ page_commands a ws)"

fun handle_tick :: "loader_view \<Rightarrow> loader_view" where
  "handle_tick (run, t, spm) = (run \<and> t \<noteq> 0, t - 1, spm)"

lemma view_request: "view (EVENT_USB_Device_ControlRequest c ps r s) = handle_report (report_of c ps r) (view s)"
proof (cases "directed c r")
  case False
  then show ?thesis by (simp add: ControlRequest_ignored report_of_def)
next
  case True
  then show ?thesis
    by (cases "rd r 0 = COMMAND_STARTAPPLICATION")
      (simp_all add: view_def report_of_def ControlRequest_start ControlRequest_page BOOTLOADER_TIMEOUT_def)
qed

lemma unat_dec: "(w::'a::len word) \<noteq> 0 \<Longrightarrow> unat (w - 1) = unat w - 1"
  by (simp add: unat_minus_one)

lemma view_tick: "view (TIMER0_OVF_vect s) = handle_tick (view s)"
  by (simp add: view_def TIMER0_OVF_vect_def unat_dec unat_eq_zero)

lemma view_ticks: "view ((TIMER0_OVF_vect ^^ n) s) = (handle_tick ^^ n) (view s)"
  by (induction n) (simp_all add: view_tick)

lemma handle_ticks: "(handle_tick ^^ n) (run, t, spm) = (run \<and> n \<le> t, t - n, spm)"
  by (induction n) auto

lemma view_main_start: "view (main_start s) = (RunBootloader s, 20, spm_calls s)"
  by (simp add: view_def main_start_def SetupHardware_def BOOTLOADER_TIMEOUT_def)

lemma main_start_frame:
  "phase (main_start s) = Running" "MagicBootKey (main_start s) = MagicBootKey s"
  by (simp_all add: main_start_def SetupHardware_def)

section \<open>Reachable states\<close>

text \<open>
  The invariant: the timeout never exceeds its start value; the flash is only ever programmed in
  whole pages, each erased, filled word by word and written, and never at the address that means
  "start the application"; the key is set exactly when the device is about to reset itself.
\<close>

definition whole_pages :: "nat \<Rightarrow> dev_call list \<Rightarrow> bool" where
  "whole_pages ps cs \<longleftrightarrow> (\<exists>pages. cs = concat (map (\<lambda>(a, ws). page_commands a ws) pages) \<and>
     (\<forall>(a, ws) \<in> set pages. a \<noteq> COMMAND_STARTAPPLICATION \<and> length ws = ps div 2))"

definition boot_inv :: "nat \<Rightarrow> u16 \<Rightarrow> boot \<Rightarrow> bool" where
  "boot_inv ps key s \<longleftrightarrow> unat (boottime s) \<le> 20 \<and> whole_pages ps (spm_calls s) \<and>
     (case phase s of Starting \<Rightarrow> calls s = [] \<and> RunBootloader s \<and> MagicBootKey s = key
        | Running \<Rightarrow> MagicBootKey s = key
        | Resetting \<Rightarrow> \<not> RunBootloader s \<and> MagicBootKey s = MAGIC_BOOT_KEY)"

lemma whole_pages_Nil [simp, inv_intros]: "whole_pages ps []"
  by (auto simp: whole_pages_def intro: exI [of _ "[]"])

lemma whole_pages_snoc [inv_intros]:
  assumes "whole_pages ps cs" "a \<noteq> COMMAND_STARTAPPLICATION" "length ws = ps div 2"
  shows "whole_pages ps (cs @ page_commands a ws)"
proof -
  from assms(1) obtain pages where
    "cs = concat (map (\<lambda>(a, ws). page_commands a ws) pages)"
    "\<forall>(a, ws) \<in> set pages. a \<noteq> COMMAND_STARTAPPLICATION \<and> length ws = ps div 2"
    by (auto simp: whole_pages_def)
  then show ?thesis
    using assms(2,3) by (auto simp: whole_pages_def intro!: exI [of _ "pages @ [(a, ws)]"])
qed

lemma boot_inv_request [inv_intros]:
  assumes "boot_inv ps key s" "phase s = Running"
  shows "boot_inv ps key (EVENT_USB_Device_ControlRequest c ps r s)"
proof -
  have "view (EVENT_USB_Device_ControlRequest c ps r s) = handle_report (report_of c ps r) (view s)"
    by (rule view_request)
  then show ?thesis
    using assms
    by (cases "report_of c ps r")
      (auto simp: boot_inv_def view_def report_of_def data_words_def intro!: whole_pages_snoc
        split: if_splits)
qed

lemma boot_inv_tick [inv_intros]:
  assumes "boot_inv ps key s" "phase s = Running"
  shows "boot_inv ps key (TIMER0_OVF_vect s)"
proof -
  have "view (TIMER0_OVF_vect s) = handle_tick (view s)" by (rule view_tick)
  then show ?thesis using assms by (auto simp: boot_inv_def view_def)
qed

lemma boot_inv_configured [inv_intros]:
  "boot_inv ps key s \<Longrightarrow> phase s = Running \<Longrightarrow> boot_inv ps key (EVENT_USB_Device_ConfigurationChanged s)"
  by (simp add: EVENT_USB_Device_ConfigurationChanged_def boot_inv_def)

lemma boot_inv_start [inv_intros]:
  assumes "boot_inv ps key s" "phase s = Starting"
  shows "boot_inv ps key (main_start s)"
proof -
  have "unat (boottime (main_start s)) = 20" "spm_calls (main_start s) = spm_calls s"
    using view_main_start [of s] by (simp_all add: view_def)
  then show ?thesis using assms by (simp add: boot_inv_def main_start_frame)
qed

lemma boot_inv_exit [inv_intros]:
  "boot_inv ps key s \<Longrightarrow> phase s = Running \<Longrightarrow> \<not> RunBootloader s \<Longrightarrow> boot_inv ps key (main_exit s)"
  by (simp add: boot_inv_def main_exit_def)

lemma boot_inv_step: "boot_step c ps s s' \<Longrightarrow> boot_inv ps key s \<Longrightarrow> boot_inv ps key s'"
  by (erule boot_stepE) (simp_all add: inv_intros)

lemma boot_inv_init: "boot_inv ps key (boot_reset key)"
  by (simp add: boot_inv_def boot_reset_def)

lemma boot_reachable_started: "boot_reachable c ps key (main_start (boot_reset key))"
proof (rule boot_reachable.step)
  show "boot_reachable c ps key (boot_reset key)" by (rule boot_reachable.init)
  show "boot_step c ps (boot_reset key) (main_start (boot_reset key))"
    by (rule boot_step.start) (simp add: boot_reset_def)
qed

lemma boot_reachable_request:
  assumes "boot_reachable c ps key s" "phase s = Running" "RunBootloader s"
  shows "boot_reachable c ps key (EVENT_USB_Device_ControlRequest c ps r s)"
  using assms(1) control [OF assms(2,3)] by (rule boot_reachable.step)

lemma boot_reachable_tick:
  assumes "boot_reachable c ps key s" "phase s = Running"
  shows "boot_reachable c ps key (TIMER0_OVF_vect s)"
  using assms(1) tick [OF assms(2)] by (rule boot_reachable.step)

lemma started_simps:
  "phase (main_start (boot_reset key)) = Running" "RunBootloader (main_start (boot_reset key))"
  "RunBootloader (TIMER0_OVF_vect (main_start (boot_reset key)))"
  by (simp_all add: boot_reset_def main_start_def SetupHardware_def TIMER0_OVF_vect_def
      BOOTLOADER_TIMEOUT_def)

lemma boot_inv_reachable: "boot_reachable c ps key s \<Longrightarrow> boot_inv ps key s"
  by (induction rule: boot_reachable.induct) (auto intro: boot_inv_init boot_inv_step)

section \<open>Properties\<close>

text \<open>
  C8. The control request handler implements the contract of the bootloader: a request that is
  not a SetReport to the HID interface changes nothing; the start command stops the bootloader
  and touches no flash; any other report programs exactly the page it names with exactly the
  words of its data stage, in the order erase, fill, write, enable, and restarts the timeout.
\<close>

theorem ControlRequest_refines_contract:
  "view (EVENT_USB_Device_ControlRequest c SPM_PAGESIZE r s)
     = handle_report (report_of c SPM_PAGESIZE r) (view s)"
  by (rule view_request)

text \<open>
  C32. After start-up, and with no page programmed meanwhile, the bootloader still runs after
  \<open>n\<close> timer overflows exactly if \<open>n\<close> is at most 20: it gives up at the 21st, not earlier or later.
\<close>

theorem bootloader_times_out:
  "RunBootloader ((TIMER0_OVF_vect ^^ n) (main_start s)) \<longleftrightarrow> RunBootloader s \<and> n \<le> 20"
proof -
  have "view ((TIMER0_OVF_vect ^^ n) (main_start s)) = (RunBootloader s \<and> n \<le> 20, 20 - n, spm_calls s)"
    by (simp only: view_ticks view_main_start handle_ticks)
  then show ?thesis by (simp add: view_def)
qed

text \<open>
  C19. In every reachable state of the bootloader, whatever requests the host sends and whenever
  the timer fires: the timeout is at most 20, the flash was programmed in whole pages only, each
  erased, filled with exactly a page of words and written, and none at the address 0xFFFF; the
  magic key is untouched until the bootloader leaves, and then it is set and the loop has ended.
\<close>

theorem bootloader_invariant:
  assumes "boot_reachable c SPM_PAGESIZE key s"
  shows "unat (boottime s) \<le> 20 \<and> whole_pages SPM_PAGESIZE (spm_calls s) \<and>
     (if phase s = Resetting then \<not> RunBootloader s \<and> MagicBootKey s = MAGIC_BOOT_KEY
      else MagicBootKey s = key)"
  using boot_inv_reachable [OF assms] by (auto simp: boot_inv_def split: boot_phase.splits)

definition lufa_consts :: usb_consts where
  "lufa_consts = \<lparr>CONTROL_REQTYPE_TYPE = 0x60, CONTROL_REQTYPE_RECIPIENT = 0x1F,
     REQTYPE_CLASS = 0x20, REQREC_INTERFACE = 1, HID_REQ_SetReport = 9\<rparr>"

definition sample_request :: "u16 \<Rightarrow> request" where
  "sample_request a = \<lparr>bmRequestType = 0x21, bRequest = 9,
     rd = (\<lambda>n. if n = 0 then a else word_of_nat n), left = (\<lambda>_. 8)\<rparr>"

definition sample_run :: boot where
  "sample_run = EVENT_USB_Device_ControlRequest lufa_consts 4 (sample_request 0x0100)
     (TIMER0_OVF_vect (main_start (boot_reset 7)))"

lemma sample_run_reachable: "boot_reachable lufa_consts 4 7 sample_run"
  unfolding sample_run_def
  by (intro boot_reachable_request boot_reachable_tick boot_reachable_started)
    (simp_all add: started_simps)

lemma sample_run_view: "view sample_run = (True, 20, page_commands 0x0100 [1, 2])"
proof -
  have "report_of lufa_consts 4 (sample_request 0x0100) = Program_page 0x0100 [1, 2]"
    by (simp add: report_of_def directed_def lufa_consts_def sample_request_def data_words_def
        COMMAND_STARTAPPLICATION_def upt_rec)
  moreover have "view (TIMER0_OVF_vect (main_start (boot_reset 7))) = (True, 19, [])"
    by (simp add: view_tick view_main_start) (simp add: boot_reset_def)
  ultimately show ?thesis by (simp add: sample_run_def view_request)
qed

theorem bootloader_invariant_witness:
  "unat (boottime sample_run) \<le> 20 \<and> whole_pages 4 (spm_calls sample_run)
   \<and> spm_calls sample_run = [Page_erase 0x100, Spm_busy_wait, Page_fill 0x100 1, Page_fill 0x102 2,
       Page_write 0x100, Spm_busy_wait, Rww_enable]"
  using bootloader_invariant [OF sample_run_reachable] sample_run_view
  by (simp add: view_def page_commands_def)

text \<open>
  C33. The hand-over: when the bootloader has left its loop and the watchdog resets the device
  (the key survives, the watchdog bit of the reset cause is set), the application is started if
  one is programmed, and the key is used up: whatever the cause of the next reset, the
  application is not started again past the bootloader. Without an application the bootloader
  stays, and keeps the key for the time there is one.
\<close>

theorem watchdog_reset_starts_application:
  assumes "boot_reachable c SPM_PAGESIZE key s" "phase s = Resetting"
    and "MCUSR AND push_bit WDRF 1 \<noteq> 0"
  shows "Application_Jump_Check word0 MCUSR WDRF (MagicBootKey s)
      = (word0 \<noteq> 0xFFFF, if word0 \<noteq> 0xFFFF then 0 else MAGIC_BOOT_KEY) \<and>
     \<not> (word0 \<noteq> 0xFFFF \<and> fst (Application_Jump_Check word0' MCUSR' WDRF'
           (snd (Application_Jump_Check word0 MCUSR WDRF (MagicBootKey s)))))"
proof -
  have key: "MagicBootKey s = MAGIC_BOOT_KEY"
    using boot_inv_reachable [OF assms(1)] assms(2) by (simp add: boot_inv_def)
  have check: "Application_Jump_Check word0 MCUSR WDRF (MagicBootKey s)
      = (word0 \<noteq> 0xFFFF, if word0 \<noteq> 0xFFFF then 0 else MAGIC_BOOT_KEY)"
    using assms(3) by (simp add: key Application_Jump_Check_def)
  have "\<not> fst (Application_Jump_Check word0' MCUSR' WDRF' 0)"
    by (simp add: Application_Jump_Check_def MAGIC_BOOT_KEY_def)
  then show ?thesis by (simp add: check)
qed

definition sample_exit :: boot where
  "sample_exit = main_exit (EVENT_USB_Device_ControlRequest lufa_consts 4
     (sample_request COMMAND_STARTAPPLICATION) (main_start (boot_reset 7)))"

lemma sample_exit_reachable: "boot_reachable lufa_consts 4 7 sample_exit"
proof -
  let ?t = "EVENT_USB_Device_ControlRequest lufa_consts 4
    (sample_request COMMAND_STARTAPPLICATION) (main_start (boot_reset 7))"
  have "view ?t = handle_report Start_application (view (main_start (boot_reset 7)))"
    by (simp add: view_request report_of_def directed_def lufa_consts_def sample_request_def
        COMMAND_STARTAPPLICATION_def)
  then have "\<not> RunBootloader ?t" by (simp add: view_def)
  moreover have "phase ?t = Running" by (simp add: started_simps)
  ultimately have "boot_step lufa_consts 4 ?t sample_exit"
    unfolding sample_exit_def by (intro leave)
  moreover have "boot_reachable lufa_consts 4 7 ?t"
    by (intro boot_reachable_request boot_reachable_started started_simps)
  ultimately show ?thesis by (rule boot_reachable.step [rotated])
qed

theorem watchdog_reset_starts_application_witness:
  "Application_Jump_Check 0x940C 8 3 (MagicBootKey sample_exit) = (True, 0)
   \<and> \<not> fst (Application_Jump_Check 0x940C 8 3 (snd (Application_Jump_Check 0x940C 8 3 (MagicBootKey sample_exit))))"
  using watchdog_reset_starts_application [OF sample_exit_reachable, of 8 3 "0x940C" "0x940C" 8 3]
  by (simp add: sample_exit_def main_exit_def Application_Jump_Check_def MAGIC_BOOT_KEY_def)


end
