(* ===== verification/Flashing.thy ===== *)
theory Flashing
  imports UsbAccess Bootloader
begin

text \<open>
  The loader and the bootloader together: the reports the host writes, as the device takes them,
  and the flash memory they leave. The USB transport and the flash hardware are not part of the
  repository; what their documentation promises is stated as hypotheses.
\<close>

section \<open>The transport\<close>

definition le16 :: "u8 \<Rightarrow> u8 \<Rightarrow> u16" where
  "le16 lo hi = word_of_nat (unat lo + 256 * unat hi)"

text \<open>
  A SetReport request that carries the bytes \<open>buf\<close>: the device reads them as little-endian words.
\<close>

definition carries :: "u8 list \<Rightarrow> request \<Rightarrow> bool" where
  "carries buf r \<longleftrightarrow> bmRequestType r = 0x21 \<and> bRequest r = 9 \<and>
     (\<forall>n. 2 * n + 1 < length buf \<longrightarrow> rd r n = le16 (buf ! (2 * n)) (buf ! (2 * n + 1)))"

definition running :: "boot \<Rightarrow> bool" where
  "running s \<longleftrightarrow> phase s = Running \<and> RunBootloader s"

text \<open>
  \<open>dev\<close> is the bootloader at the other end of the cable: a control message to it succeeds while
  it runs, and it handles the request that carries the bytes.
\<close>

definition delivers ::
  "('d, 'h, 'w) libusb \<Rightarrow> usb_consts \<Rightarrow> nat \<Rightarrow> ('w \<Rightarrow> boot) \<Rightarrow> bool" where
  "delivers l c ps dev \<longleftrightarrow> (\<forall>h buf ms w. running (dev w) \<longrightarrow>
     0 \<le> fst (usb_control_msg l h 0x21 9 0x0200 0 buf ms w) \<and>
     (\<exists>r. carries buf r \<and> dev (snd (usb_control_msg l h 0x21 9 0x0200 0 buf ms w))
        = EVENT_USB_Device_ControlRequest c ps r (dev w)))"

text \<open>The values of the LUFA constants, as the USB and HID specifications number the requests.\<close>

definition class_set_report :: "usb_consts \<Rightarrow> bool" where
  "class_set_report c \<longleftrightarrow> 0x21 AND (CONTROL_REQTYPE_TYPE c OR CONTROL_REQTYPE_RECIPIENT c)
     = REQTYPE_CLASS c OR REQREC_INTERFACE c \<and> HID_REQ_SetReport c = 9"

section \<open>The device takes the loader's reports\<close>

definition words_of :: "u8 list \<Rightarrow> u16 list" where
  "words_of bs = map (\<lambda>k. le16 (bs ! (2 * k)) (bs ! (2 * k + 1))) [0..<length bs div 2]"

definition linked ::
  "('d, 'h, 'w) libusb \<Rightarrow> usb_consts \<Rightarrow> nat \<Rightarrow> ('w \<Rightarrow> boot) \<Rightarrow> ('h, 'w) link \<Rightarrow> bool" where
  "linked l c ps dev t \<longleftrightarrow> delivers l c ps dev \<and> class_set_report c \<and> even ps \<and>
     teensy_handle t \<noteq> None \<and> running (dev (outside t))"

definition page_report :: "nat \<Rightarrow> u8 list \<Rightarrow> bool" where
  "page_report ps r \<longleftrightarrow> length r = ps + 2 \<and> le16 (r ! 0) (r ! 1) \<noteq> COMMAND_STARTAPPLICATION"

definition page_effect :: "u8 list \<Rightarrow> dev_call list" where
  "page_effect r = page_commands (le16 (r ! 0) (r ! 1)) (words_of (drop 2 r))"

lemma carried_words:
  assumes "carries r q" "length r = ps + 2" "even ps"
  shows "rd q 0 = le16 (r ! 0) (r ! 1)" "data_words ps q = words_of (drop 2 r)"
proof -
  have rd: "rd q n = le16 (r ! (2 * n)) (r ! (2 * n + 1))" if "2 * n + 1 < ps + 2" for n
    using assms(1,2) that by (simp add: carries_def)
  show "rd q 0 = le16 (r ! 0) (r ! 1)" using rd [of 0] by simp
  show "data_words ps q = words_of (drop 2 r)"
    unfolding data_words_def words_of_def
    using assms(2,3) by (auto simp: rd elim!: evenE)
qed

text \<open>What the bootloader does with a request that carries a report of the loader.\<close>

lemma carried_directed: "class_set_report c \<Longrightarrow> carries r q \<Longrightarrow> directed c q"
  by (simp add: directed_def class_set_report_def carries_def)

lemma carried_page:
  assumes "class_set_report c" "even ps" "page_report ps r" "carries r q" "running d"
  shows "running (EVENT_USB_Device_ControlRequest c ps q d)"
    and "spm_calls (EVENT_USB_Device_ControlRequest c ps q d) = spm_calls d @ page_effect r"
proof -
  have "rd q 0 = le16 (r ! 0) (r ! 1)" "data_words ps q = words_of (drop 2 r)"
    using carried_words [OF assms(4) _ assms(2)] assms(3) by (simp_all add: page_report_def)
  then show "running (EVENT_USB_Device_ControlRequest c ps q d)"
      "spm_calls (EVENT_USB_Device_ControlRequest c ps q d) = spm_calls d @ page_effect r"
    using ControlRequest_page [OF carried_directed [OF assms(1,4)], of ps d] assms(3,5)
    by (simp_all add: page_report_def page_effect_def running_def)
qed

lemma carried_start:
  assumes "class_set_report c" "carries r q" "2 \<le> length r" "le16 (r ! 0) (r ! 1) = COMMAND_STARTAPPLICATION"
  shows "\<not> RunBootloader (EVENT_USB_Device_ControlRequest c ps q d)"
    and "spm_calls (EVENT_USB_Device_ControlRequest c ps q d) = spm_calls d"
proof -
  have "rd q 0 = COMMAND_STARTAPPLICATION" using assms(2-4) by (simp add: carries_def)
  then show "\<not> RunBootloader (EVENT_USB_Device_ControlRequest c ps q d)"
      "spm_calls (EVENT_USB_Device_ControlRequest c ps q d) = spm_calls d"
    using ControlRequest_start [OF carried_directed [OF assms(1,2)]] by simp_all
qed

lemma write_linked:
  assumes "linked l c ps dev t" "page_report ps r"
  shows "fst (teensy_write l r ms t) \<and> linked l c ps dev (snd (teensy_write l r ms t)) \<and>
     spm_calls (dev (outside (snd (teensy_write l r ms t)))) = spm_calls (dev (outside t)) @ page_effect r"
proof -
  obtain h where h: "teensy_handle t = Some h" using assms(1) by (auto simp: linked_def)
  let ?msg = "usb_control_msg l h 0x21 9 0x0200 0 r ms (outside t)"
  have "running (dev (outside t))" "delivers l c ps dev" using assms(1) by (simp_all add: linked_def)
  then have "0 \<le> fst ?msg \<and> (\<exists>q. carries r q \<and> dev (snd ?msg) = EVENT_USB_Device_ControlRequest c ps q (dev (outside t)))"
    unfolding delivers_def by blast
  then obtain q where q: "0 \<le> fst ?msg" "carries r q"
      "dev (snd ?msg) = EVENT_USB_Device_ControlRequest c ps q (dev (outside t))"
    by blast
  have "class_set_report c" "even ps" "running (dev (outside t))" using assms(1) by (simp_all add: linked_def)
  from carried_page [OF this(1,2) assms(2) q(2) this(3)] show ?thesis
    using assms q by (simp add: teensy_write_def h case_prod_beta linked_def)
qed

interpretation bootloader: report_device "teensy_write l" "linked l c ps dev" "page_report ps"
    "\<lambda>t. spm_calls (dev (outside t))" page_effect
  for l c ps dev
  by unfold_locales (rule write_linked)

section \<open>The flash memory\<close>

text \<open>
  The self-programming hardware as its data sheet describes it: \<open>step\<close> is the effect of a command on
  the state \<open>'m\<close> of the chip, \<open>flash\<close> its bytes, \<open>buffer\<close> the words of the page buffer. Erasing sets a
  page to 0xFF, filling stores a word in the buffer, writing clears the bits of the page that are
  clear in the buffer.
\<close>

definition word_byte :: "u16 \<Rightarrow> nat \<Rightarrow> u8" where
  "word_byte w i = (if even i then word_of_nat (unat w mod 256) else word_of_nat (unat w div 256))"

definition spm_hardware :: "(dev_call \<Rightarrow> 'm \<Rightarrow> 'm) \<Rightarrow> ('m \<Rightarrow> nat \<Rightarrow> u8) \<Rightarrow> ('m \<Rightarrow> nat \<Rightarrow> u16) \<Rightarrow> nat \<Rightarrow> bool" where
  "spm_hardware step flash buffer ps \<longleftrightarrow>
     (\<forall>m a. flash (step (Page_erase a) m) = (\<lambda>i. if i div ps = unat a div ps then 0xFF else flash m i)) \<and>
     (\<forall>m a w. flash (step (Page_fill a w) m) = flash m \<and>
        buffer (step (Page_fill a w) m) = (buffer m)(unat a mod ps div 2 := w)) \<and>
     (\<forall>m a. flash (step (Page_write a) m) = (\<lambda>i. if i div ps = unat a div ps
        then flash m i AND word_byte (buffer m (i mod ps div 2)) i else flash m i)) \<and>
     (\<forall>m. flash (step Spm_busy_wait m) = flash m \<and> buffer (step Spm_busy_wait m) = buffer m) \<and>
     (\<forall>m. flash (step Rww_enable m) = flash m)"

abbreviation run_spm :: "(dev_call \<Rightarrow> 'm \<Rightarrow> 'm) \<Rightarrow> dev_call list \<Rightarrow> 'm \<Rightarrow> 'm" where
  "run_spm step cs m \<equiv> fold step cs m"

lemma hardware_simps:
  assumes "spm_hardware step flash buffer ps"
  shows "flash (step (Page_erase a) m) = (\<lambda>i. if i div ps = unat a div ps then 0xFF else flash m i)"
    and "flash (step (Page_fill a w) m) = flash m"
    and "buffer (step (Page_fill a w) m) = (buffer m)(unat a mod ps div 2 := w)"
    and "flash (step (Page_write a) m) = (\<lambda>i. if i div ps = unat a div ps
        then flash m i AND word_byte (buffer m (i mod ps div 2)) i else flash m i)"
    and "flash (step Spm_busy_wait m) = flash m" "buffer (step Spm_busy_wait m) = buffer m"
    and "flash (step Rww_enable m) = flash m"
  using assms by (simp_all add: spm_hardware_def)

text \<open>Filling the words of a page leaves the flash alone and the words in the buffer.\<close>

lemma fill_words:
  assumes "spm_hardware step flash buffer ps" "2 * n \<le> ps" "unat a + ps \<le> 2 ^ 16" "unat a mod ps = 0"
  shows "flash (run_spm step (map (\<lambda>k. Page_fill (a + word_of_nat (2 * k)) (ws k)) [0..<n]) m) = flash m \<and>
     (\<forall>j < n. buffer (run_spm step (map (\<lambda>k. Page_fill (a + word_of_nat (2 * k)) (ws k)) [0..<n]) m) j = ws j)"
  using assms(2)
proof (induction n)
  case 0
  then show ?case by simp
next
  case (Suc n)
  have off: "unat (a + word_of_nat (2 * n)) = unat a + 2 * n"
  proof -
    have "2 * n < 2 ^ 16" "unat a + 2 * n < 2 ^ 16" using assms(3) Suc.prems by simp_all
    then have "unat (word_of_nat (2 * n) :: u16) = 2 * n"
      by (simp add: unat_of_nat del: of_nat_mult)
    then show ?thesis
      using \<open>unat a + 2 * n < 2 ^ 16\<close> by (simp only: unat_word_ariths(1)) simp
  qed
  obtain q where q: "unat a = ps * q" using assms(4) by auto
  have idx: "unat (a + word_of_nat (2 * n)) mod ps div 2 = n"
    using Suc.prems unfolding off q by simp
  have up: "[0..<Suc n] = [0..<n] @ [n]" by simp
  show ?case
    using Suc hardware_simps(2,3) [OF assms(1)] unfolding up map_append fold_append comp_def
    by (auto simp: idx less_Suc_eq simp del: of_nat_mult)
qed

lemma program_page_flash:
  assumes "spm_hardware step flash buffer ps" "unat a + ps \<le> 2 ^ 16" "unat a mod ps = 0"
    and "0 < ps" "even ps" "length ws = ps div 2"
  shows "flash (run_spm step (page_commands a ws) m) =
     (\<lambda>i. if i div ps = unat a div ps then word_byte (ws ! (i mod ps div 2)) i else flash m i)"
proof -
  let ?fill = "map (\<lambda>k. Page_fill (a + word_of_nat (2 * k)) (ws ! k)) [0..<length ws]"
  define m1 where "m1 = step Spm_busy_wait (step (Page_erase a) m)"
  define m2 where "m2 = run_spm step ?fill m1"
  have n: "2 * length ws \<le> ps" using assms(5,6) by (auto elim!: evenE)
  have fill: "flash m2 = flash m1" "\<And>j. j < length ws \<Longrightarrow> buffer m2 j = ws ! j"
    using fill_words [OF assms(1) n assms(2,3), of "\<lambda>k. ws ! k" m1] unfolding m2_def by blast+
  have m1: "flash m1 = (\<lambda>i. if i div ps = unat a div ps then 0xFF else flash m i)"
    unfolding m1_def by (simp add: hardware_simps [OF assms(1)])
  have "i mod ps div 2 < length ws" for i
  proof -
    have "i mod ps < length ws * 2" using assms(4-6) mod_less_divisor [of ps i] by (auto elim!: evenE)
    then show ?thesis by (rule less_mult_imp_div_less)
  qed
  then have "flash (step (Page_write a) m2) =
      (\<lambda>i. if i div ps = unat a div ps then 0xFF AND word_byte (ws ! (i mod ps div 2)) i else flash m i)"
    by (simp add: hardware_simps [OF assms(1)] fill m1 fun_eq_iff)
  moreover have "0xFF AND b = b" for b :: u8
  proof -
    have "(0xFF :: u8) = - 1" by simp
    moreover have "- 1 AND b = b" by (rule and.left_neutral)
    ultimately show ?thesis by (simp only:)
  qed
  ultimately have "flash (step (Page_write a) m2) =
      (\<lambda>i. if i div ps = unat a div ps then word_byte (ws ! (i mod ps div 2)) i else flash m i)"
    by (simp only:)
  then show ?thesis
    by (simp add: page_commands_def m1_def m2_def hardware_simps [OF assms(1)] del: of_nat_mult)
qed

section \<open>What the loader leaves in the flash\<close>

lemma and_255: "n AND 255 = (n mod 256 :: nat)"
  using take_bit_eq_mask [of 8 n] by (simp add: take_bit_eq_mod mask_eq_exp_minus_1)

lemma le16_address:
  assumes "code_size o1 < 0x10000" "a < code_size o1"
  shows "le16 (address_bytes o1 a ! 0) (address_bytes o1 a ! 1) = word_of_nat a"
    and "length (address_bytes o1 a) = 2" "unat (word_of_nat a :: u16) = a"
proof -
  have a: "a < 65536" using assms by simp
  show "length (address_bytes o1 a) = 2" by (simp add: address_bytes_def)
  show "unat (word_of_nat a :: u16) = a" using a by (simp add: unat_of_nat)
  have "a mod 256 + 256 * (a div 256 mod 256) = a"
    using a by simp
  moreover have "unat (word_of_nat (a mod 256) :: u8) = a mod 256"
    "unat (word_of_nat (a div 256 mod 256) :: u8) = a div 256 mod 256"
    by (simp_all add: unat_of_nat)
  ultimately show "le16 (address_bytes o1 a ! 0) (address_bytes o1 a ! 1) = word_of_nat a"
    using assms(1) by (simp add: address_bytes_def and_255 drop_bit_eq_div le16_def)
qed

lemma word_byte_le16: "word_byte (le16 x y) i = (if even i then x else y)"
proof -
  have x: "unat x < 256" and y: "unat y < 256"
    using unsigned_less [of x, where 'a = nat] unsigned_less [of y, where 'a = nat] by simp_all
  define m where "m = unat x + 256 * unat y"
  have "m < 65536" using x y by (simp add: m_def)
  then have "unat (word_of_nat m :: u16) = m" by (simp add: unat_of_nat)
  then have "unat (le16 x y) = unat x + 256 * unat y" by (simp only: le16_def m_def)
  then have "unat (le16 x y) mod 256 = unat x" "unat (le16 x y) div 256 = unat y"
    using x by simp_all
  then show ?thesis by (simp add: word_byte_def)
qed

lemma words_of_nth:
  assumes "k < length bs" "even (length bs)"
  shows "word_byte (words_of bs ! (k div 2)) k = bs ! k"
proof -
  have "k div 2 < length bs div 2" using assms by (auto elim!: evenE)
  then have "words_of bs ! (k div 2) = le16 (bs ! (2 * (k div 2))) (bs ! (2 * (k div 2) + 1))"
    by (simp add: words_of_def)
  then show ?thesis
    by (cases "even k") (simp_all add: word_byte_le16)
qed

text \<open>The pages of the loader: small devices, whose addresses fit 16 bits.\<close>

definition small_device :: "options \<Rightarrow> bool" where
  "small_device o1 \<longleftrightarrow> good_options o1 \<and> code_size o1 < 0x10000"

lemma small_sizes:
  assumes "small_device o1"
  shows "code_size o1 \<le> 32768" "0 < block_size o1" "even (block_size o1)" "block_size o1 dvd code_size o1"
  using assms by (auto simp: small_device_def good_options_def mcu_table_def)

definition pages_of :: "options \<Rightarrow> nat list \<Rightarrow> bool" where
  "pages_of o1 as \<longleftrightarrow> list_all (\<lambda>a. block_size o1 dvd a \<and> a < code_size o1) as"

lemma page_end:
  assumes "small_device o1" "block_size o1 dvd a" "a < code_size o1"
  shows "a + block_size o1 \<le> code_size o1" "a + block_size o1 < MAX_MEMORY_SIZE"
proof -
  obtain p q where pq: "a = block_size o1 * p" "code_size o1 = block_size o1 * q"
    using assms(2) small_sizes(4) [OF assms(1)] by (auto elim!: dvdE)
  then have "p < q" using assms(3) by simp
  then have "block_size o1 * Suc p \<le> block_size o1 * q" by (intro mult_le_mono2) simp
  then show "a + block_size o1 \<le> code_size o1" using pq by simp
  then show "a + block_size o1 < MAX_MEMORY_SIZE"
    using small_sizes(1) [OF assms(1)] by (simp add: MAX_MEMORY_SIZE_def)
qed

lemma report_page:
  assumes "small_device o1" "block_size o1 dvd a" "a < code_size o1"
  shows "page_report (block_size o1) (report_for o1 st a)"
    and "page_effect (report_for o1 st a)
      = page_commands (word_of_nat a) (words_of (ihex_get_data st (int a) (int (block_size o1))))"
proof -
  have cs: "code_size o1 < 0x10000" using assms(1) by (simp add: small_device_def)
  note addr = le16_address [OF cs assms(3)]
  have hd: "le16 (report_for o1 st a ! 0) (report_for o1 st a ! 1) = word_of_nat a"
    using addr by (simp add: report_for_def nth_append)
  have "unat (word_of_nat a :: u16) \<noteq> unat COMMAND_STARTAPPLICATION"
    using addr(3) assms(3) small_sizes(1) [OF assms(1)] by (simp add: COMMAND_STARTAPPLICATION_def)
  then have "(word_of_nat a :: u16) \<noteq> COMMAND_STARTAPPLICATION" by auto
  then show "page_report (block_size o1) (report_for o1 st a)"
    using addr(2) hd by (simp add: page_report_def) (simp add: report_for_def)
  show "page_effect (report_for o1 st a)
      = page_commands (word_of_nat a) (words_of (ihex_get_data st (int a) (int (block_size o1))))"
    unfolding page_effect_def hd using addr(2) by (simp add: report_for_def)
qed

lemma page_in_flash:
  assumes "small_device o1" "block_size o1 dvd a" "a < code_size o1"
    and "spm_hardware step flash buffer (block_size o1)"
  shows "flash (run_spm step (page_effect (report_for o1 st a)) m) i =
     (if i div block_size o1 * block_size o1 = a then image_byte st i else flash m i)"
proof -
  let ?ps = "block_size o1" and ?ws = "words_of (ihex_get_data st (int a) (int (block_size o1)))"
  note ps = small_sizes [OF assms(1)] and pe = page_end [OF assms(1-3)]
  have cs: "code_size o1 < 0x10000" using assms(1) by (simp add: small_device_def)
  have a: "unat (word_of_nat a :: u16) = a" by (rule le16_address(3) [OF cs assms(3)])
  have "flash (run_spm step (page_commands (word_of_nat a) ?ws) m) =
     (\<lambda>i. if i div ?ps = a div ?ps then word_byte (?ws ! (i mod ?ps div 2)) i else flash m i)"
    using program_page_flash [OF assms(4), of "word_of_nat a" ?ws m] ps pe(1) assms(2)
    by (simp add: a words_of_def)
  moreover have "i div ?ps = a div ?ps \<longleftrightarrow> i div ?ps * ?ps = a"
    using assms(2) ps(2) by (auto simp: dvd_div_mult_self)
  moreover have "word_byte (?ws ! (i mod ?ps div 2)) i = image_byte st i" if "i div ?ps * ?ps = a"
  proof -
    have i: "i = a + i mod ?ps" using that div_mult_mod_eq [of i ?ps] by simp
    have k: "i mod ?ps < ?ps" using ps(2) by simp
    have "even a" using assms(2) ps(3) by (rule dvd_trans [rotated])
    moreover have "even i = even (a + i mod ?ps)" using i by (rule arg_cong)
    ultimately have par: "even i = even (i mod ?ps)" by simp
    have "word_byte (?ws ! (i mod ?ps div 2)) i = word_byte (?ws ! (i mod ?ps div 2)) (i mod ?ps)"
      by (simp add: word_byte_def par)
    also have "\<dots> = ihex_get_data st (int a) (int ?ps) ! (i mod ?ps)"
      using k ps(3) by (intro words_of_nth) simp_all
    also have "\<dots> = image_byte st (a + i mod ?ps)"
      using pe(2) k by (rule ihex.bytes_nth)
    finally show ?thesis using i by simp
  qed
  ultimately show ?thesis unfolding report_page(2) [OF assms(1-3)] by simp
qed

lemma pages_in_flash:
  assumes "small_device o1" "spm_hardware step flash buffer (block_size o1)" "pages_of o1 as"
  shows "flash (run_spm step (concat (map page_effect (map (report_for o1 st) as))) m) i =
     (if i div block_size o1 * block_size o1 \<in> set as then image_byte st i else flash m i)"
  using assms(3)
proof (induction as arbitrary: m)
  case Nil
  then show ?case by simp
next
  case (Cons a as)
  then show ?case
    using page_in_flash [OF assms(1) _ _ assms(2), of a st m i] by (auto simp: pages_of_def)
qed

lemma needed_pages:
  assumes "small_device o1"
  shows "pages_of o1 (needed_blocks o1 st k)"
proof -
  have "j * block_size o1 < code_size o1" if "j < code_size o1 div block_size o1" for j
    using that small_sizes [OF assms] by (metis dvd_div_mult_self mult_less_cancel2)
  then show ?thesis by (auto simp: pages_of_def needed_blocks_def list_all_iff)
qed

lemma needed_reports:
  assumes "small_device o1"
  shows "list_all (page_report (block_size o1)) (map (report_for o1 st) (needed_blocks o1 st k))"
  using needed_pages [OF assms, of st k] report_page(1) [OF assms] by (auto simp: pages_of_def list_all_iff)

lemma program_linked:
  assumes "small_device o1" "linked l c (block_size o1) dev t"
  shows "\<exists>t'. program_data (libusb_io l usleep contents stdin_eof) o1 st 0 True t = Some (Inr (), t') \<and>
     linked l c (block_size o1) dev t' \<and>
     spm_calls (dev (outside t')) = spm_calls (dev (outside t))
       @ concat (map page_effect (map (report_for o1 st) (needed_blocks o1 st 0)))"
proof (rule bootloader.program_reports)
  show "io_write (libusb_io l usleep contents stdin_eof) = teensy_write l" by (simp add: libusb_io_def)
  show "good_options o1" using assms(1) by (simp add: small_device_def)
qed (use assms needed_reports in simp_all)

section \<open>A concrete link and chip\<close>

definition sample_message :: "u8 list \<Rightarrow> request" where
  "sample_message buf = \<lparr>bmRequestType = 0x21, bRequest = 9,
     rd = (\<lambda>n. if 2 * n + 1 < length buf then le16 (buf ! (2 * n)) (buf ! (2 * n + 1)) else 0), left = (\<lambda>_. 8)\<rparr>"

definition sample_usb :: "(unit, unit, boot) libusb" where
  "sample_usb = \<lparr>usb_find = id, usb_get_busses = (\<lambda>_. []), usb_open = (\<lambda>_ w. (Some (), w)),
     has_get_driver_np = False, usb_get_driver_np = (\<lambda>_ w. (0, w)),
     usb_detach_kernel_driver_np = (\<lambda>_ w. (0, w)), usb_claim_interface = (\<lambda>_ w. (0, w)),
     usb_release_interface = (\<lambda>_ w. w), usb_close = (\<lambda>_ w. w),
     usb_control_msg = (\<lambda>_ _ _ _ _ buf _ w. (int (length buf),
        EVENT_USB_Device_ControlRequest lufa_consts 128 (sample_message buf) w))\<rparr>"

definition sample_link :: "(unit, boot) link" where
  "sample_link = \<lparr>teensy_handle = Some (), outside = main_start (boot_reset 0)\<rparr>"

fun sample_step :: "nat \<Rightarrow> dev_call \<Rightarrow> (nat \<Rightarrow> u8) \<times> (nat \<Rightarrow> u16) \<Rightarrow> (nat \<Rightarrow> u8) \<times> (nat \<Rightarrow> u16)" where
  "sample_step ps (Page_erase a) (f, b) = (\<lambda>i. if i div ps = unat a div ps then 0xFF else f i, b)"
| "sample_step ps (Page_fill a w) (f, b) = (f, b(unat a mod ps div 2 := w))"
| "sample_step ps (Page_write a) (f, b) =
     (\<lambda>i. if i div ps = unat a div ps then f i AND word_byte (b (i mod ps div 2)) i else f i, \<lambda>_. 0xFFFF)"
| "sample_step ps _ (f, b) = (f, b)"

lemma sample_hardware: "spm_hardware (sample_step ps) fst snd ps"
  by (simp add: spm_hardware_def fun_eq_iff)

lemma lufa_class: "class_set_report lufa_consts"
  by (simp add: class_set_report_def lufa_consts_def)

lemma sample_carries: "carries buf (sample_message buf)"
  by (simp add: carries_def sample_message_def)

lemma sample_linked: "linked sample_usb lufa_consts (block_size default_options) id sample_link"
  using sample_carries
  by (auto simp: linked_def delivers_def sample_usb_def sample_link_def lufa_class running_def started_simps
      default_options_def)

lemma small_default: "small_device default_options"
  using good_default by (simp add: small_device_def default_options_def)

definition big_options :: options where
  "big_options = default_options\<lparr>code_size := 65536, block_size := 256\<rparr>"

section \<open>Properties\<close>

text \<open>The block of an address is one the loader writes.\<close>

definition block_written :: "options \<Rightarrow> hexfile \<Rightarrow> nat \<Rightarrow> bool" where
  "block_written o1 st i \<longleftrightarrow> i div block_size o1 * block_size o1 \<in> set (needed_blocks o1 st 0)"

lemma unwritten_blank:
  assumes "small_device o1" "i < code_size o1" "\<not> block_written o1 st i"
  shows "image_byte st i = 0xFF"
proof -
  let ?ps = "block_size o1" and ?a = "i div block_size o1 * block_size o1"
  note ps = small_sizes [OF assms(1)]
  have "i div ?ps < code_size o1 div ?ps"
    using assms(2) ps(2,4) by (metis div_less_iff_less_mult dvd_div_mult_self)
  then have "\<not> ihex_bytes_within_range st (int ?a) (int ?a + int ?ps - 1)"
    using assms(3) by (auto simp: block_written_def needed_blocks_def)
  moreover have a: "?a < code_size o1" using assms(2) by (metis div_times_less_eq_dividend le_less_trans)
  moreover have "?a + ?ps \<le> MAX_MEMORY_SIZE" using page_end(2) [OF assms(1) _ a] by simp
  ultimately have "image_byte st (?a + i mod ?ps) = 0xFF"
    using ps(2) by (intro ihex.block_blank [of st ?a ?ps]) simp_all
  then show ?thesis by (simp add: div_mult_mod_eq)
qed

text \<open>
  The whole way from the image to the chip, for the devices whose flash has less than 64 KiB:
  over a transport that delivers reports and on hardware that follows its data sheet, the
  programming loop ends well, and the commands the bootloader gave have left in every block the
  loader wrote exactly the bytes of the image, at the addresses of the image, and every other byte
  of the flash as it was. On a chip that was blank outside those blocks, the flash is the image.
\<close>

theorem programming_writes_the_image:
  assumes "small_device o1" "linked l c (block_size o1) dev t"
    and "spm_hardware step flash buffer (block_size o1)"
  shows "\<exists>t' cs. program_data (libusb_io l usleep contents stdin_eof) o1 st 0 True t = Some (Inr (), t') \<and>
     spm_calls (dev (outside t')) = spm_calls (dev (outside t)) @ cs \<and>
     (\<forall>m i. flash (run_spm step cs m) i = (if block_written o1 st i then image_byte st i else flash m i)) \<and>
     (\<forall>m. (\<forall>i. block_written o1 st i \<or> flash m i = 0xFF) \<longrightarrow>
        (\<forall>i < code_size o1. flash (run_spm step cs m) i = image_byte st i))"
proof -
  let ?cs = "concat (map page_effect (map (report_for o1 st) (needed_blocks o1 st 0)))"
  obtain t' where t': "program_data (libusb_io l usleep contents stdin_eof) o1 st 0 True t = Some (Inr (), t')"
      "spm_calls (dev (outside t')) = spm_calls (dev (outside t)) @ ?cs"
    using program_linked [OF assms(1,2)] by blast
  have flash: "flash (run_spm step ?cs m) i = (if block_written o1 st i then image_byte st i else flash m i)" for m i
    using pages_in_flash [OF assms(1,3) needed_pages [OF assms(1)]] by (simp add: block_written_def)
  have "flash (run_spm step ?cs m) i = image_byte st i"
    if "\<forall>i. block_written o1 st i \<or> flash m i = 0xFF" "i < code_size o1" for m i
    using flash [of m i] that unwritten_blank [OF assms(1) that(2)] by (cases "block_written o1 st i") auto
  then show ?thesis using t' flash by blast
qed

theorem programming_writes_the_image_witness:
  "\<exists>t' cs. program_data (libusb_io sample_usb (\<lambda>_ w. w) (\<lambda>_ _. None) False) default_options hex_reset 0 True sample_link
       = Some (Inr (), t') \<and>
     spm_calls (id (outside t')) = spm_calls (id (outside sample_link)) @ cs \<and>
     (\<forall>m i. fst (run_spm (sample_step 128) cs m) i
        = (if block_written default_options hex_reset i then image_byte hex_reset i else fst m i)) \<and>
     (\<forall>m. (\<forall>i. block_written default_options hex_reset i \<or> fst m i = 0xFF) \<longrightarrow>
        (\<forall>i < code_size default_options. fst (run_spm (sample_step 128) cs m) i = image_byte hex_reset i))"
proof -
  have "spm_hardware (sample_step 128) fst snd (block_size default_options)"
    using sample_hardware by (simp add: default_options_def)
  then show ?thesis by (rule programming_writes_the_image [OF small_default sample_linked])
qed


text \<open>
  The loader does not erase the chip: a block without data, other than the first, keeps what it
  held before, although the image says it is blank.
\<close>

theorem skipped_blocks_keep_old_code:
  assumes "small_device o1" "linked l c (block_size o1) dev t"
    and "spm_hardware step flash buffer (block_size o1)"
    and "\<not> block_written o1 st i" "i < code_size o1"
  shows "\<exists>t' cs. program_data (libusb_io l usleep contents stdin_eof) o1 st 0 True t = Some (Inr (), t') \<and>
     spm_calls (dev (outside t')) = spm_calls (dev (outside t)) @ cs \<and>
     image_byte st i = 0xFF \<and> (\<forall>m. flash (run_spm step cs m) i = flash m i)"
proof -
  let ?cs = "concat (map page_effect (map (report_for o1 st) (needed_blocks o1 st 0)))"
  have "flash (run_spm step ?cs m) i = flash m i" for m
    using pages_in_flash [OF assms(1,3) needed_pages [OF assms(1)]] assms(4) by (simp add: block_written_def)
  then show ?thesis
    using program_linked [OF assms(1,2)] unwritten_blank [OF assms(1,5,4)] by blast
qed

theorem skipped_blocks_keep_old_code_witness:
  "\<exists>t' cs. program_data (libusb_io sample_usb (\<lambda>_ w. w) (\<lambda>_ _. None) False) default_options hex_reset 0 True sample_link
       = Some (Inr (), t') \<and>
     spm_calls (id (outside t')) = spm_calls (id (outside sample_link)) @ cs \<and>
     image_byte hex_reset 0x1000 = 0xFF \<and> (\<forall>m. fst (run_spm (sample_step 128) cs m) 0x1000 = fst m 0x1000)"
proof -
  have "spm_hardware (sample_step 128) fst snd (block_size default_options)"
    using sample_hardware by (simp add: default_options_def)
  moreover have "\<not> block_written default_options hex_reset 0x1000"
    by (auto simp: block_written_def needed_blocks_def default_options_def ihex_bytes_within_range_def
        list_ex_iff hex_reset_def)
  moreover have "0x1000 < code_size default_options" by (simp add: default_options_def)
  ultimately show ?thesis by (rule skipped_blocks_keep_old_code [OF small_default sample_linked])
qed


text \<open>
  C38. On the 64 KiB devices the loader sends the address without its low byte, as it does for the
  larger ones, but a bootloader built for 16-bit flash addresses takes the two bytes as the whole
  address: the block at \<open>a\<close> is programmed at \<open>a div 256\<close>.
\<close>

theorem address_mismatch_on_64k:
  assumes "code_size o1 = 65536" "a < 65536" "carries (report_for o1 st a) r" "class_set_report c"
  shows "report_of c ps r = Program_page (word_of_nat (a div 256)) (data_words ps r)"
proof -
  have bytes: "report_for o1 st a = [word_of_nat (a div 256), 0] @ ihex_get_data st (int a) (int (block_size o1))"
    using assms(1,2) by (simp add: report_for_def address_bytes_def and_255 drop_bit_eq_div)
  have lt: "a div 256 < 256" using assms(2) by simp
  then have "le16 (word_of_nat (a div 256)) 0 = word_of_nat (a div 256)"
    by (simp add: le16_def unat_of_nat)
  then have rd: "rd r 0 = word_of_nat (a div 256)"
    using assms(3) by (simp add: carries_def bytes)
  have "unat (word_of_nat (a div 256) :: u16) = a div 256"
    using lt by (simp add: unat_of_nat)
  then have "(word_of_nat (a div 256) :: u16) \<noteq> COMMAND_STARTAPPLICATION"
    using lt unfolding COMMAND_STARTAPPLICATION_def by (intro notI) simp
  then show ?thesis
    using assms(3,4) by (simp add: report_of_def directed_def class_set_report_def carries_def rd)
qed

theorem address_mismatch_on_64k_witness:
  "report_of lufa_consts 256 (sample_message (report_for big_options hex_reset 0x1000))
     = Program_page 0x10 (data_words 256 (sample_message (report_for big_options hex_reset 0x1000)))"
  using address_mismatch_on_64k [OF _ _ sample_carries lufa_class, of big_options "0x1000"]
  by (simp add: big_options_def)


text \<open>
  The hard reboot falls back to the bootloader's own product number. Its six bytes "reboot" are
  not a reboot request there: the bootloader takes them as the command to program the page at
  0x6572.
\<close>

theorem reboot_report_programs_a_page:
  assumes "carries reboot_report r" "class_set_report c"
  shows "report_of c ps r = Program_page 0x6572 (data_words ps r)"
proof -
  have "rd r 0 = 0x6572" using assms(1) by (simp add: carries_def reboot_report_def le16_def)
  then show ?thesis
    using assms by (simp add: report_of_def directed_def class_set_report_def carries_def COMMAND_STARTAPPLICATION_def)
qed

theorem reboot_report_programs_a_page_witness:
  "report_of lufa_consts 128 (sample_message reboot_report)
     = Program_page 0x6572 (data_words 128 (sample_message reboot_report))"
  by (rule reboot_report_programs_a_page [OF sample_carries lufa_class])


end
