(* ===== verification/WindowsAccess.thy ===== *)
theory WindowsAccess
  imports UsbAccess
begin

text \<open>
  How the firmware loader reaches the device on Windows (\<open>hid_bootloader_cli.c\<close>, \<open>USE_WIN32\<close>). The
  system calls are a record of functions over the outside world; a device information set is the
  list of the interfaces that are enumerated before the enumeration fails.
\<close>

section \<open>The system\<close>

datatype wait = WAIT_OBJECT_0 | WAIT_TIMEOUT | WAIT_FAILED

record ('i, 'e, 'h, 'w) winapi =
  SetupDiGetClassDevs :: "'w \<Rightarrow> 'i list option \<times> 'w"
  SetupDiDestroyDeviceInfoList :: "'w \<Rightarrow> 'w"
  malloc_details :: "'i \<Rightarrow> 'w \<Rightarrow> bool"
  SetupDiGetDeviceInterfaceDetail :: "'i \<Rightarrow> 'w \<Rightarrow> string option \<times> 'w"
  CreateFile :: "string \<Rightarrow> 'w \<Rightarrow> 'h option \<times> 'w"
  HidD_GetAttributes :: "'h \<Rightarrow> 'w \<Rightarrow> (nat \<times> nat) option \<times> 'w"
  CloseHandle :: "'h \<Rightarrow> 'w \<Rightarrow> 'w"
  CreateEvent :: "'w \<Rightarrow> 'e option \<times> 'w"
  WriteFile :: "'h \<Rightarrow> 'e \<Rightarrow> u8 list \<Rightarrow> 'w \<Rightarrow> bool \<times> 'w"
  io_pending :: "'w \<Rightarrow> bool"
  WaitForSingleObject :: "'e \<Rightarrow> nat \<Rightarrow> 'w \<Rightarrow> wait \<times> 'w"
  CancelIo :: "'h \<Rightarrow> 'w \<Rightarrow> 'w"
  GetOverlappedResult :: "'h \<Rightarrow> 'w \<Rightarrow> bool \<times> 'w"

section \<open>Opening\<close>

primrec win_search :: "('i, 'e, 'h, 'w) winapi \<Rightarrow> nat \<Rightarrow> nat \<Rightarrow> 'i list \<Rightarrow> 'w \<Rightarrow> 'h option \<times> 'w" where
  "win_search a vid pid [] w = (None, SetupDiDestroyDeviceInfoList a w)"
| "win_search a vid pid (i # is) w =
     (if \<not> malloc_details a i w then win_search a vid pid is w
      else case SetupDiGetDeviceInterfaceDetail a i w of
          (None, w1) \<Rightarrow> win_search a vid pid is w1
        | (Some DevicePath, w1) \<Rightarrow>
            (case CreateFile a DevicePath w1 of
               (None, w2) \<Rightarrow> win_search a vid pid is w2
             | (Some h, w2) \<Rightarrow>
                 (case HidD_GetAttributes a h w2 of
                    (None, w3) \<Rightarrow> win_search a vid pid is (CloseHandle a h w3)
                  | (Some (VendorID, ProductID), w3) \<Rightarrow>
                      if VendorID \<noteq> vid \<or> ProductID \<noteq> pid then win_search a vid pid is (CloseHandle a h w3)
                      else (Some h, SetupDiDestroyDeviceInfoList a w3))))"

definition win_open_usb_device :: "('i, 'e, 'h, 'w) winapi \<Rightarrow> nat \<Rightarrow> nat \<Rightarrow> 'w \<Rightarrow> 'h option \<times> 'w" where
  "win_open_usb_device a vid pid w = (case SetupDiGetClassDevs a w of
       (None, w1) \<Rightarrow> (None, w1)
     | (Some is, w1) \<Rightarrow> win_search a vid pid is w1)"

section \<open>Writing\<close>

text \<open>The static event, created by the first write, and the static handle.\<close>

record ('e, 'h, 'w) win_link =
  win_handle :: "'h option"
  win_event :: "'e option"
  win_outside :: 'w

text \<open>\<open>tmpbuf\<close> has 1040 bytes; the report number 0 goes before the report.\<close>

definition overlapped_write ::
  "('i, 'e, 'h, 'w) winapi \<Rightarrow> 'h \<Rightarrow> 'e \<Rightarrow> u8 list \<Rightarrow> nat \<Rightarrow> 'w \<Rightarrow> bool \<times> 'w" where
  "overlapped_write a h event buf timeout w =
     (let (written, w1) = WriteFile a h event (0 # buf) w in
      if \<not> written
      then if \<not> io_pending a w1 then (False, w1)
           else (case WaitForSingleObject a event timeout w1 of
                   (WAIT_TIMEOUT, w2) \<Rightarrow> (False, CancelIo a h w2)
                 | (WAIT_FAILED, w2) \<Rightarrow> (False, w2)
                 | (WAIT_OBJECT_0, w2) \<Rightarrow> GetOverlappedResult a h w2)
      else GetOverlappedResult a h w1)"

definition write_usb_device ::
  "('i, 'e, 'h, 'w) winapi \<Rightarrow> 'h \<Rightarrow> u8 list \<Rightarrow> nat \<Rightarrow> ('e, 'h, 'w) win_link \<Rightarrow> bool \<times> ('e, 'h, 'w) win_link" where
  "write_usb_device a h buf timeout t =
     (if length buf > 1040 - 1 then (False, t)
      else let (e, w1) = (case win_event t of None \<Rightarrow> CreateEvent a (win_outside t) | Some e \<Rightarrow> (Some e, win_outside t)) in
        case e of
          None \<Rightarrow> (False, t\<lparr>win_outside := w1\<rparr>)
        | Some event \<Rightarrow>
            (let (ok, w2) = overlapped_write a h event buf timeout w1 in (ok, t\<lparr>win_event := e, win_outside := w2\<rparr>)))"

section \<open>The operations of the loader\<close>

definition win_teensy_close :: "('i, 'e, 'h, 'w) winapi \<Rightarrow> ('e, 'h, 'w) win_link \<Rightarrow> ('e, 'h, 'w) win_link" where
  "win_teensy_close a t = (case win_handle t of
       None \<Rightarrow> t
     | Some h \<Rightarrow> t\<lparr>win_handle := None, win_outside := CloseHandle a h (win_outside t)\<rparr>)"

text \<open>The device of the keyboard program is tried first, then that of the bootloader.\<close>

definition win_open_either :: "('i, 'e, 'h, 'w) winapi \<Rightarrow> 'w \<Rightarrow> 'h option \<times> 'w" where
  "win_open_either a w =
     (let (h, w1) = win_open_usb_device a 0x15ba 0x003c w
      in if h = None then win_open_usb_device a 0x15ba 0x003b w1 else (h, w1))"

definition win_teensy_open :: "('i, 'e, 'h, 'w) winapi \<Rightarrow> ('e, 'h, 'w) win_link \<Rightarrow> bool \<times> ('e, 'h, 'w) win_link" where
  "win_teensy_open a t =
     (let t1 = win_teensy_close a t; (h, w) = win_open_either a (win_outside t1)
      in (h \<noteq> None, t1\<lparr>win_handle := h, win_outside := w\<rparr>))"

definition win_teensy_write ::
  "('i, 'e, 'h, 'w) winapi \<Rightarrow> u8 list \<Rightarrow> nat \<Rightarrow> ('e, 'h, 'w) win_link \<Rightarrow> bool \<times> ('e, 'h, 'w) win_link" where
  "win_teensy_write a buf ms t = (case win_handle t of
       None \<Rightarrow> (False, t)
     | Some h \<Rightarrow> write_usb_device a h buf ms t)"

definition win_hard_reboot :: "('i, 'e, 'h, 'w) winapi \<Rightarrow> ('e, 'h, 'w) win_link \<Rightarrow> bool \<times> ('e, 'h, 'w) win_link" where
  "win_hard_reboot a t =
     (let (rebootor, w1) = win_open_either a (win_outside t); t1 = t\<lparr>win_outside := w1\<rparr> in
      case rebootor of
        None \<Rightarrow> (False, t1)
      | Some h \<Rightarrow> (let (r, t2) = write_usb_device a h reboot_report 100 t1
                   in (r, t2\<lparr>win_outside := CloseHandle a h (win_outside t2)\<rparr>)))"

definition win_io ::
  "('i, 'e, 'h, 'w) winapi \<Rightarrow> (nat \<Rightarrow> 'w \<Rightarrow> 'w) \<Rightarrow> (string \<Rightarrow> 'w \<Rightarrow> string option) \<Rightarrow> bool \<Rightarrow> ('e, 'h, 'w) win_link host_io" where
  "win_io a sleep contents stdin_eof =
     \<lparr>io_open = win_teensy_open a, io_write = win_teensy_write a, io_close = win_teensy_close a,
      io_reboot = win_hard_reboot a, io_delay = (\<lambda>ms t. t\<lparr>win_outside := sleep ms (win_outside t)\<rparr>),
      io_file = (\<lambda>name t. contents name (win_outside t)), io_stdin_eof = stdin_eof\<rparr>"

section \<open>Handles are not lost\<close>

text \<open>
  Files, device information sets and events that are open, as the documentation of the calls counts
  them.
\<close>

definition win_counts :: "('i, 'e, 'h, 'w) winapi \<Rightarrow> ('w \<Rightarrow> int) \<Rightarrow> bool" where
  "win_counts a n \<longleftrightarrow>
     (\<forall>w. n (snd (SetupDiGetClassDevs a w)) = n w + held (fst (SetupDiGetClassDevs a w))) \<and>
     (\<forall>w. n (SetupDiDestroyDeviceInfoList a w) = n w - 1) \<and>
     (\<forall>i w. n (snd (SetupDiGetDeviceInterfaceDetail a i w)) = n w) \<and>
     (\<forall>p w. n (snd (CreateFile a p w)) = n w + held (fst (CreateFile a p w))) \<and>
     (\<forall>h w. n (snd (HidD_GetAttributes a h w)) = n w) \<and> (\<forall>h w. n (CloseHandle a h w) = n w - 1) \<and>
     (\<forall>w. n (snd (CreateEvent a w)) = n w + held (fst (CreateEvent a w))) \<and> (\<forall>h e b w. n (snd (WriteFile a h e b w)) = n w) \<and>
     (\<forall>e m w. n (snd (WaitForSingleObject a e m w)) = n w) \<and> (\<forall>h w. n (CancelIo a h w) = n w) \<and>
     (\<forall>h w. n (snd (GetOverlappedResult a h w)) = n w)"

lemma win_counts_simps:
  assumes "win_counts a n"
  shows "n (snd (SetupDiGetClassDevs a w)) = n w + held (fst (SetupDiGetClassDevs a w))"
    and "n (SetupDiDestroyDeviceInfoList a w) = n w - 1"
    and "n (snd (SetupDiGetDeviceInterfaceDetail a i w)) = n w"
    and "n (snd (CreateFile a p w)) = n w + held (fst (CreateFile a p w))"
    and "n (snd (HidD_GetAttributes a h w)) = n w" and "n (CloseHandle a h w) = n w - 1"
    and "n (snd (CreateEvent a w)) = n w + held (fst (CreateEvent a w))" and "n (snd (WriteFile a h e b w)) = n w"
    and "n (snd (WaitForSingleObject a e m w)) = n w" and "n (CancelIo a h w) = n w"
    and "n (snd (GetOverlappedResult a h w)) = n w"
  using assms by (simp_all add: win_counts_def)

lemma win_search_counts:
  assumes "win_counts a n"
  shows "n (snd (win_search a vid pid is w)) = n w - 1 + held (fst (win_search a vid pid is w))"
proof (induction "is" arbitrary: w)
  case (Cons i "is")
  note simps = win_counts_simps [OF assms]
  obtain path w1 where detail: "SetupDiGetDeviceInterfaceDetail a i w = (path, w1)" by (rule prod.exhaust)
  then have w1: "n w1 = n w" using simps(3) [of i w] by simp
  show ?case
  proof (cases "malloc_details a i w \<and> path \<noteq> None")
    case True
    then obtain p where p: "path = Some p" by blast
    obtain ho w2 where opened: "CreateFile a p w1 = (ho, w2)" by (rule prod.exhaust)
    then have w2: "n w2 = n w + held ho" using simps(4) [of p w1] w1 by simp
    show ?thesis
    proof (cases ho)
      case None
      then show ?thesis using Cons.IH [of w2] True detail p opened w2 by simp
    next
      case (Some h)
      obtain ids w3 where attr: "HidD_GetAttributes a h w2 = (ids, w3)" by (rule prod.exhaust)
      then have "n w3 = n w + 1" using simps(5) [of h w2] w2 Some by simp
      then show ?thesis
        using Cons.IH [of "CloseHandle a h w3"] True detail p opened attr Some simps(2) [of w3] simps(6) [of h w3]
        by (cases ids) auto
    qed
  next
    case False
    then show ?thesis using Cons.IH [of w] Cons.IH [of w1] detail w1 by auto
  qed
qed (simp add: win_counts_simps(2) [OF assms])

lemma win_open_counts:
  assumes "win_counts a n"
  shows "n (snd (win_open_usb_device a vid pid w)) = n w + held (fst (win_open_usb_device a vid pid w))"
proof (cases "SetupDiGetClassDevs a w")
  case (Pair s w1)
  then have "n w1 = n w + held s" using win_counts_simps(1) [OF assms, of w] by simp
  then show ?thesis
    using Pair win_search_counts [OF assms] by (cases s) (simp_all add: win_open_usb_device_def)
qed

lemma win_either_counts:
  assumes "win_counts a n"
  shows "n (snd (win_open_either a w)) = n w + held (fst (win_open_either a w))"
  using win_open_counts [OF assms, of "0x15ba" "0x003c" w] win_open_counts [OF assms, of "0x15ba" "0x003b"]
  by (cases "win_open_usb_device a 0x15ba 0x003c w") (simp add: win_open_either_def)

lemma overlapped_counts:
  assumes "win_counts a n"
  shows "n (snd (overlapped_write a h e buf m w)) = n w"
proof -
  obtain r w1 where w1: "WriteFile a h e (0 # buf) w = (r, w1)" by (rule prod.exhaust)
  obtain s w2 where w2: "WaitForSingleObject a e m w1 = (s, w2)" by (rule prod.exhaust)
  have "n w1 = n w" "n w2 = n w1" using win_counts_simps(8,9) [OF assms] w1 w2 by (metis snd_conv)+
  then show ?thesis
    using win_counts_simps(10,11) [OF assms] by (simp add: overlapped_write_def w1 w2 split: wait.split)
qed

lemma write_counts:
  assumes "win_counts a n"
  shows "n (win_outside (snd (write_usb_device a h buf m t)))
      = n (win_outside t) + (held (win_event (snd (write_usb_device a h buf m t))) - held (win_event t))"
    and "win_handle (snd (write_usb_device a h buf m t)) = win_handle t"
  using overlapped_counts [OF assms] win_counts_simps(7) [OF assms, of "win_outside t"]
  by (auto simp: write_usb_device_def case_prod_beta Let_def split: option.split)

text \<open>What is open besides the file of the static handle and the static event.\<close>

definition win_balance :: "('w \<Rightarrow> int) \<Rightarrow> ('e, 'h, 'w) win_link \<Rightarrow> int" where
  "win_balance n t = n (win_outside t) - held (win_handle t) - held (win_event t)"

lemma win_close_balance:
  "win_counts a n \<Longrightarrow> win_balance n (win_teensy_close a t) = win_balance n t"
  by (simp add: win_teensy_close_def win_balance_def win_counts_simps(6) split: option.split)

lemma win_close_handle [simp]: "win_handle (win_teensy_close a t) = None"
  by (simp add: win_teensy_close_def split: option.split)

lemma win_open_balance:
  assumes "win_counts a n"
  shows "win_balance n (snd (win_teensy_open a t)) = win_balance n t"
  using win_close_balance [OF assms, of t] win_either_counts [OF assms, of "win_outside (win_teensy_close a t)"]
  by (simp add: win_teensy_open_def win_balance_def case_prod_beta Let_def)

lemma win_write_balance:
  assumes "win_counts a n"
  shows "win_balance n (snd (win_teensy_write a buf ms t)) = win_balance n t"
  using write_counts [OF assms] by (simp add: win_teensy_write_def win_balance_def split: option.split)

lemma win_reboot_balance:
  assumes "win_counts a n"
  shows "win_balance n (snd (win_hard_reboot a t)) = win_balance n t"
  using win_either_counts [OF assms, of "win_outside t"] write_counts [OF assms] win_counts_simps(6) [OF assms]
  by (simp add: win_hard_reboot_def win_balance_def case_prod_beta Let_def split: option.split)

definition win_balanced :: "('i, 'e, 'h, 'w) winapi \<Rightarrow> (nat \<Rightarrow> 'w \<Rightarrow> 'w) \<Rightarrow> ('w \<Rightarrow> int) \<Rightarrow> int \<Rightarrow> ('e, 'h, 'w) win_link \<Rightarrow> bool" where
  "win_balanced a sleep n c t \<longleftrightarrow> (win_counts a n \<and> (\<forall>ms w. n (sleep ms w) = n w) \<longrightarrow> win_balance n t = c)"

interpretation windows: host_invariant "win_io a sleep contents stdin_eof" "win_balanced a sleep n c"
  for a sleep contents stdin_eof n c
  by unfold_locales (auto simp: win_io_def win_balanced_def win_open_balance win_write_balance win_close_balance
    win_reboot_balance, simp add: win_balance_def)

text \<open>
  C22. However a run of the loader ends on Windows, what it opened and did not close is at most the file
  of the static handle and the one static event, which is created once; and when it ends well the file is
  closed too. This holds whichever interfaces could not be opened, asked or matched.
\<close>

theorem windows_loader_leaves_no_handle:
  assumes "win_counts a n" "\<forall>ms w. n (sleep ms w) = n w" "win_handle t = None"
    and "loader_main (win_io a sleep contents stdin_eof) args t = Some (r, t')"
  shows "n (win_outside t') = n (win_outside t) + held (win_handle t') + (held (win_event t') - held (win_event t)) \<and>
    (r = Inr () \<longrightarrow> win_handle t' = None)"
proof -
  have "win_balanced a sleep n (win_balance n t) t"
    by (simp add: win_balanced_def)
  then have "win_balanced a sleep n (win_balance n t) t'"
    by (rule windows.loader_main_keeps [OF assms(4)])
  then have "win_balance n t' = win_balance n t"
    using assms(1,2) by (simp add: win_balanced_def)
  moreover have "win_handle t' = None" if "r = Inr ()"
    using loader_main_closes [OF assms(4) [unfolded that]] by (auto simp: win_io_def)
  ultimately show ?thesis using assms(3) by (simp add: win_balance_def)
qed

text \<open>A system with one device, whose world is the number of open handles.\<close>

definition windows_device :: "nat \<times> nat \<Rightarrow> (unit, unit, unit, int) winapi" where
  "windows_device ids = \<lparr>SetupDiGetClassDevs = (\<lambda>w. (Some [()], w + 1)), SetupDiDestroyDeviceInfoList = (\<lambda>w. w - 1),
     malloc_details = (\<lambda>i w. True), SetupDiGetDeviceInterfaceDetail = (\<lambda>i w. (Some ''hid'', w)),
     CreateFile = (\<lambda>p w. (Some (), w + 1)), HidD_GetAttributes = (\<lambda>h w. (Some ids, w)),
     CloseHandle = (\<lambda>h w. w - 1), CreateEvent = (\<lambda>w. (Some (), w + 1)), WriteFile = (\<lambda>h e b w. (True, w)),
     io_pending = (\<lambda>w. False), WaitForSingleObject = (\<lambda>e m w. (WAIT_OBJECT_0, w)), CancelIo = (\<lambda>h w. w),
     GetOverlappedResult = (\<lambda>h w. (True, w))\<rparr>"

text \<open>The first write creates the event.\<close>

lemma windows_run:
  "loader_main (win_io (windows_device (0x15ba, 0x003b)) (\<lambda>_ w. w) no_device_file False) [''a.hex'']
      \<lparr>win_handle = None, win_event = None, win_outside = 0\<rparr>
    = Some (Inr (), \<lparr>win_handle = None, win_event = Some (), win_outside = 1\<rparr>)"
proof -
  let ?io = "win_io (windows_device (0x15ba, 0x003b)) (\<lambda>_ w. w) no_device_file False"
  let ?u = "\<lparr>win_handle = Some (), win_event = None, win_outside = 1 :: int\<rparr>"
  let ?v = "\<lparr>win_handle = Some (), win_event = Some (), win_outside = 2 :: int\<rparr>"
  have "io_close ?io ?v = \<lparr>win_handle = None, win_event = Some (), win_outside = 1\<rparr>"
    by (simp add: win_io_def win_teensy_close_def windows_device_def)
  moreover have "io_write ?io r ms ?u = (True, ?v)" "io_write ?io r ms ?v = (True, ?v)" if "length r = 130" for r ms
    using that by (simp_all add: win_io_def win_teensy_write_def write_usb_device_def overlapped_write_def windows_device_def)
  ultimately show ?thesis
    by (subst empty_image_run [of _ _ ?u ?v])
      (simp_all add: win_io_def win_teensy_open_def win_teensy_close_def win_open_either_def win_open_usb_device_def
        windows_device_def no_device_file_def)
qed

lemma windows_loader_leaves_no_handle_witness:
  "\<exists>t'. loader_main (win_io (windows_device (0x15ba, 0x003b)) (\<lambda>_ w. w) no_device_file False) [''a.hex'']
      \<lparr>win_handle = None, win_event = None, win_outside = 0\<rparr> = Some (Inr (), t') \<and>
    win_handle t' = None \<and> win_event t' = Some () \<and> id (win_outside t') = id (0 :: int) + 1"
proof -
  have "win_counts (windows_device (0x15ba, 0x003b)) id" by (simp add: win_counts_def windows_device_def)
  then show ?thesis
    using windows_loader_leaves_no_handle [OF _ _ _ windows_run, of id] windows_run by auto
qed

end
