(* ===== verification/MacAccess.thy ===== *)
theory MacAccess
  imports UsbAccess
begin

text \<open>
  How the firmware loader reaches the device on Mac OS X (\<open>hid_bootloader_cli.c\<close>, \<open>USE_APPLE_IOKIT\<close>):
  a list of the attached devices that two callbacks keep while the run loop is run, and the operations
  on the devices of the list. The linked list is a list; IOKit and Core Foundation are a record of
  functions over the outside world, and the run loop delivers the events that are pending.
\<close>

section \<open>The system\<close>

text \<open>A device that appears or goes away; \<open>None\<close> is the null pointer.\<close>

datatype 'd hid_event = Attached "'d option" | Detached "'d option"

text \<open>
  What becomes of the creation of a manager: the null pointer, an object of another type, or a manager.
\<close>

datatype created = No_object | Wrong_type | Manager

record ('d, 'w) iokit =
  IOHIDManagerCreate :: "'w \<Rightarrow> created \<times> 'w"
  CFRelease :: "'w \<Rightarrow> 'w"
  CFDictionaryCreateMutable :: "'w \<Rightarrow> bool \<times> 'w"
  register_callbacks :: "'w \<Rightarrow> 'w"
  IOHIDManagerOpen :: "'w \<Rightarrow> bool \<times> 'w"
  unschedule :: "'w \<Rightarrow> 'w"
  pending_events :: "'w \<Rightarrow> 'd hid_event list \<times> 'w"
  VendorIDKey :: "'d \<Rightarrow> 'w \<Rightarrow> int option"
  ProductIDKey :: "'d \<Rightarrow> 'w \<Rightarrow> int option"
  malloc_entry :: "'d \<Rightarrow> 'w \<Rightarrow> bool"
  IOHIDDeviceOpen :: "'d \<Rightarrow> 'w \<Rightarrow> bool \<times> 'w"
  IOHIDDeviceClose :: "'d \<Rightarrow> 'w \<Rightarrow> 'w"
  IOHIDDeviceSetReport :: "'d \<Rightarrow> u8 list \<Rightarrow> 'w \<Rightarrow> bool \<times> 'w"

section \<open>The list of devices\<close>

record 'd usb_list_struct =
  ref :: 'd
  pid :: int
  vid :: int

record ('d, 'w) mac =
  usb_list :: "'d usb_list_struct list"
  hid_manager :: bool
  iokit_teensy_reference :: "'d option"
  mac_outside :: 'w

text \<open>What \<open>attach_callback\<close> makes of a device; nothing where a number of it cannot be read.\<close>

definition new_entry :: "('d, 'w) iokit \<Rightarrow> 'w \<Rightarrow> 'd option \<Rightarrow> 'd usb_list_struct option" where
  "new_entry k w dev = (case dev of
       None \<Rightarrow> None
     | Some d \<Rightarrow> (case VendorIDKey k d w of
           None \<Rightarrow> None
         | Some v \<Rightarrow> (case ProductIDKey k d w of
               None \<Rightarrow> None
             | Some p \<Rightarrow> if malloc_entry k d w then Some \<lparr>ref = d, pid = p, vid = v\<rparr> else None)))"

definition attach_callback :: "('d, 'w) iokit \<Rightarrow> 'w \<Rightarrow> 'd option \<Rightarrow> 'd usb_list_struct list \<Rightarrow> 'd usb_list_struct list" where
  "attach_callback k w dev ls = (case new_entry k w dev of None \<Rightarrow> ls | Some n \<Rightarrow> ls @ [n])"

primrec detach_callback :: "'d option \<Rightarrow> 'd usb_list_struct list \<Rightarrow> 'd usb_list_struct list" where
  "detach_callback dev [] = []"
| "detach_callback dev (p # ps) = (if Some (ref p) = dev then detach_callback dev ps else p # detach_callback dev ps)"

primrec hid_callback :: "('d, 'w) iokit \<Rightarrow> 'w \<Rightarrow> 'd hid_event \<Rightarrow> 'd usb_list_struct list \<Rightarrow> 'd usb_list_struct list" where
  "hid_callback k w (Attached dev) ls = attach_callback k w dev ls"
| "hid_callback k w (Detached dev) ls = detach_callback dev ls"

text \<open>
  The manager that could not be set up is released, but the pointer to it stays, so it is never
  tried again; only where none was created it is.
\<close>

definition init_hid_manager :: "('d, 'w) iokit \<Rightarrow> ('d, 'w) mac \<Rightarrow> ('d, 'w) mac" where
  "init_hid_manager k t =
     (if hid_manager t then t
      else let (m, w1) = IOHIDManagerCreate k (mac_outside t) in
        if m = No_object then t\<lparr>mac_outside := w1\<rparr>
        else if m = Wrong_type then t\<lparr>hid_manager := True, mac_outside := CFRelease k w1\<rparr>
        else let (dict, w2) = CFDictionaryCreateMutable k w1 in
          if \<not> dict then t\<lparr>hid_manager := True, mac_outside := w2\<rparr>
          else let (ok, w3) = IOHIDManagerOpen k (register_callbacks k w2)
               in t\<lparr>hid_manager := True, mac_outside := if ok then w3 else CFRelease k (unschedule k w3)\<rparr>)"

definition do_run_loop :: "('d, 'w) iokit \<Rightarrow> ('d, 'w) mac \<Rightarrow> ('d, 'w) mac" where
  "do_run_loop k t =
     (let (es, w) = pending_events k (mac_outside t) in t\<lparr>usb_list := fold (hid_callback k w) es (usb_list t), mac_outside := w\<rparr>)"

section \<open>Opening and closing\<close>

primrec list_open :: "('d, 'w) iokit \<Rightarrow> int \<Rightarrow> int \<Rightarrow> 'd usb_list_struct list \<Rightarrow> 'w \<Rightarrow> 'd option \<times> 'w" where
  "list_open k v i [] w = (None, w)"
| "list_open k v i (p # ps) w =
     (if vid p = v \<and> pid p = i
      then let (ok, w1) = IOHIDDeviceOpen k (ref p) w in if ok then (Some (ref p), w1) else list_open k v i ps w1
      else list_open k v i ps w)"

definition mac_open_usb_device :: "('d, 'w) iokit \<Rightarrow> int \<Rightarrow> int \<Rightarrow> ('d, 'w) mac \<Rightarrow> 'd option \<times> ('d, 'w) mac" where
  "mac_open_usb_device k v i t =
     (let t1 = do_run_loop k (init_hid_manager k t); (d, w) = list_open k v i (usb_list t1) (mac_outside t1)
      in (d, t1\<lparr>mac_outside := w\<rparr>))"

definition close_usb_device :: "('d, 'w) iokit \<Rightarrow> 'd \<Rightarrow> ('d, 'w) mac \<Rightarrow> ('d, 'w) mac" where
  "close_usb_device k dev t =
     (let t1 = do_run_loop k t
      in if \<exists>p \<in> set (usb_list t1). ref p = dev then t1\<lparr>mac_outside := IOHIDDeviceClose k dev (mac_outside t1)\<rparr> else t1)"

definition mac_teensy_close :: "('d, 'w) iokit \<Rightarrow> ('d, 'w) mac \<Rightarrow> ('d, 'w) mac" where
  "mac_teensy_close k t = (case iokit_teensy_reference t of
       None \<Rightarrow> t
     | Some dev \<Rightarrow> (close_usb_device k dev t)\<lparr>iokit_teensy_reference := None\<rparr>)"

definition mac_teensy_open :: "('d, 'w) iokit \<Rightarrow> ('d, 'w) mac \<Rightarrow> bool \<times> ('d, 'w) mac" where
  "mac_teensy_open k t =
     (let (d, t1) = mac_open_usb_device k 0x15ba 0x003c (mac_teensy_close k t);
          (d', t2) = (if d = None then mac_open_usb_device k 0x15ba 0x003b t1 else (d, t1))
      in (d' \<noteq> None, t2\<lparr>iokit_teensy_reference := d'\<rparr>))"

definition mac_teensy_write :: "('d, 'w) iokit \<Rightarrow> u8 list \<Rightarrow> nat \<Rightarrow> ('d, 'w) mac \<Rightarrow> bool \<times> ('d, 'w) mac" where
  "mac_teensy_write k buf ms t = (case iokit_teensy_reference t of
       None \<Rightarrow> (False, t)
     | Some dev \<Rightarrow> (let (ok, w) = IOHIDDeviceSetReport k dev buf (mac_outside t) in (ok, t\<lparr>mac_outside := w\<rparr>)))"

text \<open>Both attempts look for the bootloader, so the keyboard program is never asked to reboot.\<close>

definition mac_hard_reboot :: "('d, 'w) iokit \<Rightarrow> ('d, 'w) mac \<Rightarrow> bool \<times> ('d, 'w) mac" where
  "mac_hard_reboot k t =
     (let (d, t1) = mac_open_usb_device k 0x15ba 0x003b t;
          (d', t2) = (if d = None then mac_open_usb_device k 0x15ba 0x003b t1 else (d, t1))
      in case d' of
           None \<Rightarrow> (False, t2)
         | Some rebootor \<Rightarrow>
             (let (ok, w) = IOHIDDeviceSetReport k rebootor reboot_report (mac_outside t2)
              in (ok, close_usb_device k rebootor (t2\<lparr>mac_outside := w\<rparr>))))"

definition mac_io ::
  "('d, 'w) iokit \<Rightarrow> (nat \<Rightarrow> 'w \<Rightarrow> 'w) \<Rightarrow> (string \<Rightarrow> 'w \<Rightarrow> string option) \<Rightarrow> bool \<Rightarrow> ('d, 'w) mac host_io" where
  "mac_io k usleep contents stdin_eof =
     \<lparr>io_open = mac_teensy_open k, io_write = mac_teensy_write k, io_close = mac_teensy_close k,
      io_reboot = mac_hard_reboot k, io_delay = (\<lambda>ms t. t\<lparr>mac_outside := usleep ms (mac_outside t)\<rparr>),
      io_file = (\<lambda>name t. contents name (mac_outside t)), io_stdin_eof = stdin_eof\<rparr>"

section \<open>The list holds the attached devices\<close>

lemma detach_filter: "detach_callback dev ls = filter (\<lambda>p. Some (ref p) \<noteq> dev) ls"
  by (induction ls) auto

text \<open>
  The specification: in the order of their arrival, the devices that arrived, with the numbers read
  from them, and were not removed after that.
\<close>

fun present :: "('d option \<Rightarrow> 'd usb_list_struct option) \<Rightarrow> 'd hid_event list \<Rightarrow> 'd usb_list_struct list" where
  "present entry [] = []"
| "present entry (Attached dev # es) =
     (case entry dev of None \<Rightarrow> present entry es
      | Some n \<Rightarrow> if Detached dev \<in> set es then present entry es else n # present entry es)"
| "present entry (Detached dev # es) = present entry es"

lemma new_entry_ref: "new_entry k w dev = Some n \<Longrightarrow> dev = Some (ref n)"
  by (auto simp: new_entry_def split: option.splits if_splits)

lemma callbacks_filter:
  "fold (hid_callback k w) es ls = filter (\<lambda>p. Detached (Some (ref p)) \<notin> set es) ls @ present (new_entry k w) es"
proof (induction es arbitrary: ls)
  case (Cons e es)
  show ?case
  proof (cases e)
    case (Attached dev)
    show ?thesis
    proof (cases "new_entry k w dev")
      case (Some n)
      then show ?thesis using Cons.IH Attached new_entry_ref [OF Some] by (simp add: attach_callback_def)
    qed (use Cons.IH Attached in \<open>simp add: attach_callback_def\<close>)
  next
    case (Detached dev)
    have "filter (\<lambda>p. Detached (Some (ref p)) \<notin> set es) (filter (\<lambda>p. Some (ref p) \<noteq> dev) ls)
        = filter (\<lambda>p. Detached (Some (ref p)) \<notin> set (e # es)) ls"
      by (simp add: Detached conj_commute)
    then show ?thesis using Cons.IH Detached by (simp add: detach_filter)
  qed
qed simp

lemma present_append:
  assumes "\<forall>dev n. entry dev = Some n \<longrightarrow> dev = Some (ref n)"
  shows "present entry (es @ es') = filter (\<lambda>p. Detached (Some (ref p)) \<notin> set es') (present entry es) @ present entry es'"
proof (induction es)
  case (Cons e es)
  then show ?case using assms by (cases e) (auto split: option.split)
qed simp

text \<open>
  C14. After any sequence of events, delivered in any number of runs of the run loop, the list of the
  Mac back end holds exactly the devices that are attached, with the numbers read from them, in the
  order in which they arrived.
\<close>

theorem usb_list_holds_attached_devices:
  assumes "\<forall>w. new_entry k w = entry" "usb_list t = present entry es"
  shows "usb_list (do_run_loop k t) = present entry (es @ fst (pending_events k (mac_outside t)))"
proof -
  have "\<forall>dev n. entry dev = Some n \<longrightarrow> dev = Some (ref n)" using assms(1) new_entry_ref by metis
  then show ?thesis
    using assms by (simp add: do_run_loop_def case_prod_beta Let_def callbacks_filter present_append)
qed

text \<open>A system with a keyboard (60) that goes away and a bootloader (59) that arrives.\<close>

definition swapping :: "(nat, bool) iokit" where
  "swapping = \<lparr>IOHIDManagerCreate = (\<lambda>w. (Manager, w)), CFRelease = id, CFDictionaryCreateMutable = (\<lambda>w. (True, w)),
     register_callbacks = id, IOHIDManagerOpen = (\<lambda>w. (True, w)), unschedule = id,
     pending_events = (\<lambda>w. (if w then [] else [Attached (Some 60), Attached (Some 59), Detached (Some 60)], True)),
     VendorIDKey = (\<lambda>d w. Some 0x15ba), ProductIDKey = (\<lambda>d w. Some (int d)), malloc_entry = (\<lambda>d w. True),
     IOHIDDeviceOpen = (\<lambda>d w. (True, w)), IOHIDDeviceClose = (\<lambda>d w. w), IOHIDDeviceSetReport = (\<lambda>d b w. (True, w))\<rparr>"

lemma usb_list_holds_attached_devices_witness:
  "usb_list (do_run_loop swapping \<lparr>usb_list = [], hid_manager = True, iokit_teensy_reference = None, mac_outside = False\<rparr>)
    = [\<lparr>ref = 59, pid = 59, vid = 0x15ba\<rparr>]"
proof -
  have "\<forall>w. new_entry swapping w = new_entry swapping True" by (auto simp: new_entry_def swapping_def fun_eq_iff split: option.split)
  from usb_list_holds_attached_devices [OF this, of _ "[]"] show ?thesis
    by (simp add: swapping_def new_entry_def)
qed

text \<open>What is opened is a device of the list with the numbers that were asked for.\<close>

lemma list_open_found: "list_open k v i ps w = (Some d, w') \<Longrightarrow> \<exists>p \<in> set ps. ref p = d \<and> vid p = v \<and> pid p = i"
  by (induction ps arbitrary: w) (auto simp: case_prod_beta Let_def split: if_splits)

lemma list_open_first:
  "p \<in> set ps \<Longrightarrow> vid p = v \<Longrightarrow> pid p = i \<Longrightarrow> \<forall>w. fst (IOHIDDeviceOpen k (ref p) w) \<Longrightarrow> \<exists>d w'. list_open k v i ps w = (Some d, w')"
  by (induction ps arbitrary: w) (auto simp: case_prod_beta Let_def)

end
