(* ===== verification/Update.thy ===== *)
theory Update
  imports Flashing WindowsAccess MacAccess
begin

text \<open>
  A whole firmware update, from the text of the hex file to the start of the new program: the main
  program of the loader with the back ends of Linux, Windows and Mac OS X on the one side of the
  cable, the bootloader on the other. What all back ends have in common is an interface; that the USB
  stack of each system delivers reports is a hypothesis on its calls.
\<close>

section \<open>A back end with the bootloader behind it\<close>

text \<open>
  \<open>present\<close>: the bootloader is attached and waiting; \<open>ready\<close>: the loader has opened it. A page report
  programs a page, the report that starts the application ends the bootloader, and opening and closing
  leave it alone.
\<close>

locale flash_backend =
  fixes io :: "'w host_io"
    and present :: "'w \<Rightarrow> bool"
    and ready :: "'w \<Rightarrow> bool"
    and dev :: "'w \<Rightarrow> boot"
    and ps :: nat
  assumes opens: "present w \<Longrightarrow> fst (io_open io w) \<and> ready (snd (io_open io w)) \<and> dev (snd (io_open io w)) = dev w"
    and writes_page: "ready w \<Longrightarrow> page_report ps r \<Longrightarrow> fst (io_write io r t w) \<and> ready (snd (io_write io r t w)) \<and>
      spm_calls (dev (snd (io_write io r t w))) = spm_calls (dev w) @ page_effect r"
    and starts: "ready w \<Longrightarrow> length r = ps + 2 \<Longrightarrow> le16 (r ! 0) (r ! 1) = COMMAND_STARTAPPLICATION \<Longrightarrow>
      let d = dev (io_close io (snd (io_write io r t w)))
      in phase d = Running \<and> \<not> RunBootloader d \<and> spm_calls d = spm_calls (dev w)"

sublocale flash_backend \<subseteq> report_device "io_write io" ready "page_report ps" "\<lambda>w. spm_calls (dev w)" page_effect
  by unfold_locales (rule writes_page)

section \<open>What the file says of the flash\<close>

text \<open>The blocks the loader writes: the first one, and those with a byte of the file.\<close>

definition block_has_data :: "nat \<Rightarrow> (nat \<times> u8 list) list \<Rightarrow> nat \<Rightarrow> bool" where
  "block_has_data ps segs i \<longleftrightarrow> i div ps = 0 \<or> (\<exists>j. j div ps = i div ps \<and> seg_byte segs j \<noteq> None)"

definition new_flash :: "options \<Rightarrow> (nat \<times> u8 list) list \<Rightarrow> (nat \<Rightarrow> u8) \<Rightarrow> nat \<Rightarrow> u8" where
  "new_flash o1 segs old i =
     (if i < code_size o1 \<and> block_has_data (block_size o1) segs i
      then (case seg_byte segs i of None \<Rightarrow> 0xFF | Some b \<Rightarrow> b) else old i)"

lemma written_has_data:
  assumes "small_device o1" "firmware_mask st = (\<lambda>i. if seg_byte segs i = None then 0 else 1)"
  shows "block_written o1 st i \<longleftrightarrow> i < code_size o1 \<and> block_has_data (block_size o1) segs i"
proof -
  let ?ps = "block_size o1"
  note ps = small_sizes [OF assms(1)]
  define a where "a = i div ?ps * ?ps"
  have block: "j div ?ps = i div ?ps \<longleftrightarrow> a \<le> j \<and> j \<le> a + ?ps - 1" for j
  proof -
    have "j div ?ps = i div ?ps \<longleftrightarrow> a \<le> j \<and> j < a + ?ps"
      using ps(2) unfolding a_def
      by (metis add.commute div_nat_eqI dividend_less_div_times div_times_less_eq_dividend mult.commute mult_Suc_right)
    then show ?thesis using ps(2) by auto
  qed
  have below: "i div ?ps < code_size o1 div ?ps \<longleftrightarrow> i < code_size o1"
    using ps(2,4) by (metis div_less_iff_less_mult dvd_div_mult_self)
  have "block_written o1 st i \<longleftrightarrow> i < code_size o1 \<and>
      (a = 0 \<or> ihex_bytes_within_range st (int a) (int a + int ?ps - 1))"
    unfolding block_written_def needed_blocks_def below [symmetric] a_def using ps(2) by auto
  moreover have "ihex_bytes_within_range st (int a) (int a + int ?ps - 1) \<longleftrightarrow>
      (\<exists>j. j div ?ps = i div ?ps \<and> seg_byte segs j \<noteq> None)" if "i < code_size o1"
  proof -
    have "a \<le> i" by (simp add: a_def)
    then have a: "a < code_size o1" using that by simp
    have "a + ?ps < MAX_MEMORY_SIZE" by (rule page_end(2) [OF assms(1) _ a]) (simp add: a_def)
    then have range: "0 \<le> int a" "int a \<le> int a + int ?ps - 1" "int a + int ?ps - 1 < int MAX_MEMORY_SIZE" using ps(2) by simp_all
    have "nat (int a + int ?ps - 1) = a + ?ps - 1" using ps(2) by simp
    then show ?thesis
      unfolding ihex_bytes_within_range_iff [OF range] block by (auto simp: assms(2))
  qed
  moreover have "a = 0 \<longleftrightarrow> i div ?ps = 0" using ps(2) by (simp add: a_def)
  ultimately show ?thesis unfolding block_has_data_def by blast
qed

lemma loaded_image:
  assumes "firmware_image st = (\<lambda>i. case seg_byte segs i of None \<Rightarrow> 0xFF | Some b \<Rightarrow> b)"
    "firmware_mask st = (\<lambda>i. if seg_byte segs i = None then 0 else 1)"
  shows "image_byte st i = (case seg_byte segs i of None \<Rightarrow> 0xFF | Some b \<Rightarrow> b)"
  using assms by (simp add: image_byte_def split: option.split)

lemma reports_leave_new_flash:
  assumes "small_device o1" "spm_hardware step flash buffer (block_size o1)"
    "firmware_image st = (\<lambda>i. case seg_byte segs i of None \<Rightarrow> 0xFF | Some b \<Rightarrow> b)"
    "firmware_mask st = (\<lambda>i. if seg_byte segs i = None then 0 else 1)"
  shows "flash (run_spm step (concat (map page_effect (map (report_for o1 st) (needed_blocks o1 st 0)))) m) = new_flash o1 segs (flash m)"
proof
  fix i
  show "flash (run_spm step (concat (map page_effect (map (report_for o1 st) (needed_blocks o1 st 0)))) m) i = new_flash o1 segs (flash m) i"
    unfolding pages_in_flash [OF assms(1,2) needed_pages [OF assms(1)]] block_written_def [symmetric]
      written_has_data [OF assms(1,4)] loaded_image [OF assms(3,4)] new_flash_def ..
qed

section \<open>The update over any back end\<close>

lemma boot_report_starts:
  "length (boot_report o1) = block_size o1 + 2" "le16 (boot_report o1 ! 0) (boot_report o1 ! 1) = COMMAND_STARTAPPLICATION"
  by (simp_all add: boot_report_def le16_def COMMAND_STARTAPPLICATION_def)

text \<open>
  The update from \<open>d\<close> to \<open>d'\<close>: the device leaves its loop; the commands it has given turn every flash into
  the new one; and after the watchdog reset the new program is started, unless its first word is blank.
\<close>

definition installs :: "(dev_call \<Rightarrow> 'm \<Rightarrow> 'm) \<Rightarrow> ('m \<Rightarrow> nat \<Rightarrow> u8) \<Rightarrow> options \<Rightarrow> (nat \<times> u8 list) list \<Rightarrow> boot \<Rightarrow> boot \<Rightarrow> bool" where
  "installs step flash o1 segs d d' \<longleftrightarrow> phase d' = Running \<and> \<not> RunBootloader d' \<and>
     (\<exists>cs. spm_calls d' = spm_calls d @ cs \<and> (\<forall>m. flash (run_spm step cs m) = new_flash o1 segs (flash m) \<and>
        (\<forall>MCUSR WDRF. MCUSR AND push_bit WDRF 1 \<noteq> 0 \<longrightarrow>
           (let new = new_flash o1 segs (flash m); word0 = le16 (new 0) (new 1)
            in fst (Application_Jump_Check word0 MCUSR WDRF (MagicBootKey (main_exit d'))) = (word0 \<noteq> 0xFFFF)))))"

lemma left_application_starts:
  "MCUSR AND push_bit WDRF 1 \<noteq> 0 \<Longrightarrow>
    fst (Application_Jump_Check word0 MCUSR WDRF (MagicBootKey (main_exit d))) = (word0 \<noteq> 0xFFFF)"
  by (simp add: main_exit_def Application_Jump_Check_def)

context flash_backend begin

lemma update_calls:
  assumes "present w" "parse_options args initial_options = Inr o1" "filename o1 = Some name"
    and "small_device o1" "block_size o1 = ps" "reboot_after_programming o1"
    and "\<not> io_stdin_eof io" "io_file io name w = Some (hex_file segs)" "fits_image segs"
  shows "\<exists>st w'. loader_main io args w = Some (Inr (), w') \<and>
    firmware_image st = (\<lambda>i. case seg_byte segs i of None \<Rightarrow> 0xFF | Some b \<Rightarrow> b) \<and>
    firmware_mask st = (\<lambda>i. if seg_byte segs i = None then 0 else 1) \<and>
    phase (dev w') = Running \<and> \<not> RunBootloader (dev w') \<and>
    spm_calls (dev w') = spm_calls (dev w) @ concat (map page_effect (map (report_for o1 st) (needed_blocks o1 st 0)))"
proof -
  obtain st where st: "read_intel_hex False (Some (hex_file segs)) = Inr (st, int (\<Sum>(a, bs)\<leftarrow>segs. length bs))"
      "firmware_image st = (\<lambda>i. case seg_byte segs i of None \<Rightarrow> 0xFF | Some b \<Rightarrow> b)"
      "firmware_mask st = (\<lambda>i. if seg_byte segs i = None then 0 else 1)"
    using hex_file_read [OF assms(9)] by blast
  have "0 \<le> int (\<Sum>(a, bs)\<leftarrow>segs. length bs)" by (rule of_nat_0_le_iff)
  then have image: "load_image io name w = Inr st"
    using st(1) assms(7,8) by (simp add: load_image_def)
  obtain w1 where w1: "io_open io w = (True, w1)" "ready w1" "dev w1 = dev w"
    using opens [OF assms(1)] by (cases "io_open io w") auto
  then have opened: "open_device io hard wait False w = Some (Inr False, w1)" for hard wait
    using open_device_opened [of io w] by simp
  have good: "good_options o1" using assms(4) by (simp add: small_device_def)
  have reports: "list_all (page_report ps) (map (report_for o1 st) (needed_blocks o1 st 0))"
    using needed_reports [OF assms(4)] assms(5) by simp
  obtain w2 where w2: "program_data io o1 st 0 True w1 = Some (Inr (), w2)" "ready w2"
      "spm_calls (dev w2) = spm_calls (dev w1) @ concat (map page_effect (map (report_for o1 st) (needed_blocks o1 st 0)))"
    using program_reports [OF refl good w1(2) reports] by blast
  define w3 where "w3 = start_new_code io o1 w2"
  have "let d = dev w3 in phase d = Running \<and> \<not> RunBootloader d \<and> spm_calls d = spm_calls (dev w2)"
    using starts [OF w2(2), of "boot_report o1" 250] boot_report_starts [of o1] assms(5,6) by (simp add: w3_def start_new_code_def)
  moreover have "loader_main io args w = Some (Inr (), w3)"
    using assms(2,3) image opened w2(1) good_sizes(4) [OF good]
    by (simp add: loader_main_def after_open_def w3_def)
  ultimately show ?thesis using st(2,3) w2(3) w1(3) by (metis (no_types, lifting))
qed

lemma update_installs:
  assumes "present w" "parse_options args initial_options = Inr o1" "filename o1 = Some name"
    and "small_device o1" "block_size o1 = ps" "reboot_after_programming o1"
    and "\<not> io_stdin_eof io" "io_file io name w = Some (hex_file segs)" "fits_image segs"
    and "spm_hardware step flash buffer (block_size o1)"
  shows "\<exists>w'. loader_main io args w = Some (Inr (), w') \<and> installs step flash o1 segs (dev w) (dev w')"
proof -
  obtain st w' where w': "loader_main io args w = Some (Inr (), w')"
      "firmware_image st = (\<lambda>i. case seg_byte segs i of None \<Rightarrow> 0xFF | Some b \<Rightarrow> b)"
      "firmware_mask st = (\<lambda>i. if seg_byte segs i = None then 0 else 1)"
      "phase (dev w') = Running" "\<not> RunBootloader (dev w')"
      "spm_calls (dev w') = spm_calls (dev w) @ concat (map page_effect (map (report_for o1 st) (needed_blocks o1 st 0)))"
    using update_calls [OF assms(1-9)] by blast
  show ?thesis
    using w'(1,4-6) reports_leave_new_flash [OF assms(4,10) w'(2,3)] left_application_starts
    by (auto simp: installs_def Let_def)
qed

end

section \<open>Linux\<close>

text \<open>Releasing and closing a device sends it nothing.\<close>

definition libusb_ready :: "('d, 'h, 'w) libusb \<Rightarrow> usb_consts \<Rightarrow> nat \<Rightarrow> ('w \<Rightarrow> boot) \<Rightarrow> ('h, 'w) link \<Rightarrow> bool" where
  "libusb_ready l c ps dev t \<longleftrightarrow> linked l c ps dev t \<and>
     (\<forall>h w. dev (usb_close l h w) = dev w \<and> dev (usb_release_interface l h w) = dev w)"

definition libusb_present :: "('d, 'h, 'w) libusb \<Rightarrow> usb_consts \<Rightarrow> nat \<Rightarrow> ('w \<Rightarrow> boot) \<Rightarrow> ('h, 'w) link \<Rightarrow> bool" where
  "libusb_present l c ps dev t \<longleftrightarrow> fst (teensy_open l t) \<and> libusb_ready l c ps dev (snd (teensy_open l t)) \<and>
     dev (outside (snd (teensy_open l t))) = dev (outside t)"

lemma libusb_starts:
  assumes "libusb_ready l c ps dev t" "length r = ps + 2" "le16 (r ! 0) (r ! 1) = COMMAND_STARTAPPLICATION"
  shows "let d = dev (outside (teensy_close l (snd (teensy_write l r ms t))))
    in phase d = Running \<and> \<not> RunBootloader d \<and> spm_calls d = spm_calls (dev (outside t))"
proof -
  have ready: "delivers l c ps dev" "class_set_report c" "running (dev (outside t))"
      "\<And>h w. dev (usb_close l h w) = dev w" "\<And>h w. dev (usb_release_interface l h w) = dev w"
    using assms(1) by (simp_all add: libusb_ready_def linked_def)
  obtain h where h: "teensy_handle t = Some h" using assms(1) by (auto simp: libusb_ready_def linked_def)
  let ?msg = "usb_control_msg l h 0x21 9 0x0200 0 r ms (outside t)"
  obtain q where q: "carries r q" "dev (snd ?msg) = EVENT_USB_Device_ControlRequest c ps q (dev (outside t))"
    using ready(1,3) unfolding delivers_def by metis
  have "2 \<le> length r" using assms(2) by simp
  from carried_start [OF ready(2) q(1) this assms(3)] show ?thesis
    using ready(3-5) q(2) by (simp add: teensy_write_def teensy_close_def h case_prod_beta Let_def running_def)
qed

interpretation libusb_flash: flash_backend "libusb_io l usleep contents stdin_eof" "libusb_present l c ps dev"
    "libusb_ready l c ps dev" "\<lambda>t. dev (outside t)" ps
  for l usleep contents stdin_eof c ps dev
proof
  show "fst (io_open (libusb_io l usleep contents stdin_eof) t) \<and>
      libusb_ready l c ps dev (snd (io_open (libusb_io l usleep contents stdin_eof) t)) \<and>
      dev (outside (snd (io_open (libusb_io l usleep contents stdin_eof) t))) = dev (outside t)"
    if "libusb_present l c ps dev t" for t
    using that by (simp add: libusb_present_def libusb_io_def)
  show "fst (io_write (libusb_io l usleep contents stdin_eof) r ms t) \<and>
      libusb_ready l c ps dev (snd (io_write (libusb_io l usleep contents stdin_eof) r ms t)) \<and>
      spm_calls (dev (outside (snd (io_write (libusb_io l usleep contents stdin_eof) r ms t))))
        = spm_calls (dev (outside t)) @ page_effect r"
    if "libusb_ready l c ps dev t" "page_report ps r" for t r ms
    using that write_linked [of l c ps dev t r ms] by (simp add: libusb_ready_def libusb_io_def)
  show "let d = dev (outside (io_close (libusb_io l usleep contents stdin_eof) (snd (io_write (libusb_io l usleep contents stdin_eof) r ms t))))
      in phase d = Running \<and> \<not> RunBootloader d \<and> spm_calls d = spm_calls (dev (outside t))"
    if "libusb_ready l c ps dev t" "length r = ps + 2" "le16 (r ! 0) (r ! 1) = COMMAND_STARTAPPLICATION" for t r ms
    using libusb_starts [OF that] by (simp add: libusb_io_def)
qed

section \<open>Windows\<close>

text \<open>
  A write of a report with its number 0 in front is done at once, or is pending and done before the
  timeout; the HID driver sends the report as a request.
\<close>

definition win_delivers :: "('i, 'e, 'h, 'w) winapi \<Rightarrow> usb_consts \<Rightarrow> nat \<Rightarrow> ('w \<Rightarrow> boot) \<Rightarrow> bool" where
  "win_delivers a c ps dev \<longleftrightarrow>
     (\<forall>h e buf ms w. running (dev w) \<longrightarrow>
        (let (done, w1) = WriteFile a h e (0 # buf) w; (waited, w2) = (if done then (WAIT_OBJECT_0, w1) else WaitForSingleObject a e ms w1)
         in (done \<or> io_pending a w1) \<and> waited = WAIT_OBJECT_0 \<and> fst (GetOverlappedResult a h w2) \<and>
           (\<exists>r. carries buf r \<and> dev (snd (GetOverlappedResult a h w2)) = EVENT_USB_Device_ControlRequest c ps r (dev w)))) \<and>
     (\<forall>w. fst (CreateEvent a w) \<noteq> None \<and> dev (snd (CreateEvent a w)) = dev w) \<and> (\<forall>h w. dev (CloseHandle a h w) = dev w)"

definition win_ready :: "('i, 'e, 'h, 'w) winapi \<Rightarrow> usb_consts \<Rightarrow> nat \<Rightarrow> ('w \<Rightarrow> boot) \<Rightarrow> ('e, 'h, 'w) win_link \<Rightarrow> bool" where
  "win_ready a c ps dev t \<longleftrightarrow> win_delivers a c ps dev \<and> class_set_report c \<and> even ps \<and> ps + 2 \<le> 1039 \<and>
     win_handle t \<noteq> None \<and> running (dev (win_outside t))"

definition win_present :: "('i, 'e, 'h, 'w) winapi \<Rightarrow> usb_consts \<Rightarrow> nat \<Rightarrow> ('w \<Rightarrow> boot) \<Rightarrow> ('e, 'h, 'w) win_link \<Rightarrow> bool" where
  "win_present a c ps dev t \<longleftrightarrow> fst (win_teensy_open a t) \<and> win_ready a c ps dev (snd (win_teensy_open a t)) \<and>
     dev (win_outside (snd (win_teensy_open a t))) = dev (win_outside t)"

lemma overlapped_delivers:
  assumes "win_delivers a c ps dev" "running (dev w)"
  shows "\<exists>r. carries buf r \<and> fst (overlapped_write a h e buf ms w) \<and>
    dev (snd (overlapped_write a h e buf ms w)) = EVENT_USB_Device_ControlRequest c ps r (dev w)"
proof -
  have "let (done, w1) = WriteFile a h e (0 # buf) w; (waited, w2) = (if done then (WAIT_OBJECT_0, w1) else WaitForSingleObject a e ms w1)
         in (done \<or> io_pending a w1) \<and> waited = WAIT_OBJECT_0 \<and> fst (GetOverlappedResult a h w2) \<and>
           (\<exists>r. carries buf r \<and> dev (snd (GetOverlappedResult a h w2)) = EVENT_USB_Device_ControlRequest c ps r (dev w))"
    using assms unfolding win_delivers_def by blast
  then show ?thesis
    by (cases "WriteFile a h e (0 # buf) w"; cases "fst (WriteFile a h e (0 # buf) w)")
      (auto simp: overlapped_write_def split: prod.splits)
qed

lemma win_write:
  assumes "win_ready a c ps dev t" "length r = ps + 2"
  shows "\<exists>q. carries r q \<and> fst (win_teensy_write a r ms t) \<and> win_handle (snd (win_teensy_write a r ms t)) \<noteq> None \<and>
    dev (win_outside (snd (win_teensy_write a r ms t))) = EVENT_USB_Device_ControlRequest c ps q (dev (win_outside t))"
proof -
  obtain h where h: "win_handle t = Some h" using assms(1) by (auto simp: win_ready_def)
  define p where "p = (case win_event t of None \<Rightarrow> CreateEvent a (win_outside t) | Some e \<Rightarrow> (Some e, win_outside t))"
  have d: "win_delivers a c ps dev" "running (dev (win_outside t))" "ps + 2 \<le> 1039" using assms(1) by (simp_all add: win_ready_def)
  then have "fst p \<noteq> None" "dev (snd p) = dev (win_outside t)" by (simp_all add: p_def win_delivers_def split: option.split)
  then obtain e w1 where p: "p = (Some e, w1)" "dev w1 = dev (win_outside t)" by (cases p) auto
  obtain q where "carries r q" "fst (overlapped_write a h e r ms w1)"
      "dev (snd (overlapped_write a h e r ms w1)) = EVENT_USB_Device_ControlRequest c ps q (dev (win_outside t))"
    using overlapped_delivers [OF d(1), of w1] d(2) p(2) by metis
  moreover have "win_teensy_write a r ms t = (fst (overlapped_write a h e r ms w1),
      t\<lparr>win_event := Some e, win_outside := snd (overlapped_write a h e r ms w1)\<rparr>)"
    using assms(2) d(3) p(1) [unfolded p_def] by (simp add: win_teensy_write_def write_usb_device_def h case_prod_beta)
  ultimately show ?thesis using h by auto
qed

interpretation windows_flash: flash_backend "win_io a sleep contents stdin_eof" "win_present a c ps dev"
    "win_ready a c ps dev" "\<lambda>t. dev (win_outside t)" ps
  for a sleep contents stdin_eof c ps dev
proof
  show "fst (io_open (win_io a sleep contents stdin_eof) t) \<and>
      win_ready a c ps dev (snd (io_open (win_io a sleep contents stdin_eof) t)) \<and>
      dev (win_outside (snd (io_open (win_io a sleep contents stdin_eof) t))) = dev (win_outside t)"
    if "win_present a c ps dev t" for t
    using that by (simp add: win_present_def win_io_def)
  show "fst (io_write (win_io a sleep contents stdin_eof) r ms t) \<and>
      win_ready a c ps dev (snd (io_write (win_io a sleep contents stdin_eof) r ms t)) \<and>
      spm_calls (dev (win_outside (snd (io_write (win_io a sleep contents stdin_eof) r ms t))))
        = spm_calls (dev (win_outside t)) @ page_effect r"
    if "win_ready a c ps dev t" "page_report ps r" for t r ms
  proof -
    note given = that
    have c: "class_set_report c" "even ps" "running (dev (win_outside t))" using given(1) by (simp_all add: win_ready_def)
    obtain q where q: "carries r q" "fst (win_teensy_write a r ms t)" "win_handle (snd (win_teensy_write a r ms t)) \<noteq> None"
        "dev (win_outside (snd (win_teensy_write a r ms t))) = EVENT_USB_Device_ControlRequest c ps q (dev (win_outside t))"
      using win_write [OF given(1)] given(2) unfolding page_report_def by blast
    show ?thesis using carried_page [OF c(1,2) given(2) q(1) c(3)] q given(1) by (simp add: win_io_def win_ready_def)
  qed
  show "let d = dev (win_outside (io_close (win_io a sleep contents stdin_eof) (snd (io_write (win_io a sleep contents stdin_eof) r ms t))))
      in phase d = Running \<and> \<not> RunBootloader d \<and> spm_calls d = spm_calls (dev (win_outside t))"
    if "win_ready a c ps dev t" "length r = ps + 2" "le16 (r ! 0) (r ! 1) = COMMAND_STARTAPPLICATION" for t r ms
  proof -
    note given = that
    have c: "class_set_report c" "running (dev (win_outside t))" "win_delivers a c ps dev" using given(1) by (simp_all add: win_ready_def)
    obtain q where q: "carries r q"
        "dev (win_outside (snd (win_teensy_write a r ms t))) = EVENT_USB_Device_ControlRequest c ps q (dev (win_outside t))"
      using win_write [OF given(1,2)] by blast
    have "2 \<le> length r" using given(2) by simp
    from carried_start [OF c(1) q(1) this given(3)] show ?thesis
      using q(2) c(2,3) by (simp add: win_io_def win_teensy_close_def running_def win_delivers_def Let_def split: option.split)
  qed
qed

section \<open>Mac OS X\<close>

definition mac_delivers :: "('d, 'w) iokit \<Rightarrow> usb_consts \<Rightarrow> nat \<Rightarrow> ('w \<Rightarrow> boot) \<Rightarrow> bool" where
  "mac_delivers k c ps dev \<longleftrightarrow>
     (\<forall>d buf w. running (dev w) \<longrightarrow> fst (IOHIDDeviceSetReport k d buf w) \<and>
        (\<exists>r. carries buf r \<and> dev (snd (IOHIDDeviceSetReport k d buf w)) = EVENT_USB_Device_ControlRequest c ps r (dev w))) \<and>
     (\<forall>w. dev (snd (pending_events k w)) = dev w) \<and> (\<forall>d w. dev (IOHIDDeviceClose k d w) = dev w)"

definition mac_ready :: "('d, 'w) iokit \<Rightarrow> usb_consts \<Rightarrow> nat \<Rightarrow> ('w \<Rightarrow> boot) \<Rightarrow> ('d, 'w) mac \<Rightarrow> bool" where
  "mac_ready k c ps dev t \<longleftrightarrow> mac_delivers k c ps dev \<and> class_set_report c \<and> even ps \<and>
     iokit_teensy_reference t \<noteq> None \<and> running (dev (mac_outside t))"

definition mac_present :: "('d, 'w) iokit \<Rightarrow> usb_consts \<Rightarrow> nat \<Rightarrow> ('w \<Rightarrow> boot) \<Rightarrow> ('d, 'w) mac \<Rightarrow> bool" where
  "mac_present k c ps dev t \<longleftrightarrow> fst (mac_teensy_open k t) \<and> mac_ready k c ps dev (snd (mac_teensy_open k t)) \<and>
     dev (mac_outside (snd (mac_teensy_open k t))) = dev (mac_outside t)"

lemma mac_write:
  assumes "mac_ready k c ps dev t"
  shows "\<exists>q. carries r q \<and> fst (mac_teensy_write k r ms t) \<and>
    iokit_teensy_reference (snd (mac_teensy_write k r ms t)) = iokit_teensy_reference t \<and>
    dev (mac_outside (snd (mac_teensy_write k r ms t))) = EVENT_USB_Device_ControlRequest c ps q (dev (mac_outside t))"
proof -
  obtain d where d: "iokit_teensy_reference t = Some d" using assms by (auto simp: mac_ready_def)
  have "running (dev (mac_outside t))" "mac_delivers k c ps dev" using assms by (simp_all add: mac_ready_def)
  then obtain q where "fst (IOHIDDeviceSetReport k d r (mac_outside t))" "carries r q"
      "dev (snd (IOHIDDeviceSetReport k d r (mac_outside t))) = EVENT_USB_Device_ControlRequest c ps q (dev (mac_outside t))"
    unfolding mac_delivers_def by metis
  then show ?thesis by (auto simp: mac_teensy_write_def d case_prod_beta)
qed

lemma mac_close_dev: "mac_delivers k c ps dev \<Longrightarrow> dev (mac_outside (mac_teensy_close k t)) = dev (mac_outside t)"
  by (simp add: mac_teensy_close_def close_usb_device_def do_run_loop_def mac_delivers_def case_prod_beta Let_def split: option.split)

interpretation mac_flash: flash_backend "mac_io k usleep contents stdin_eof" "mac_present k c ps dev"
    "mac_ready k c ps dev" "\<lambda>t. dev (mac_outside t)" ps
  for k usleep contents stdin_eof c ps dev
proof
  show "fst (io_open (mac_io k usleep contents stdin_eof) t) \<and>
      mac_ready k c ps dev (snd (io_open (mac_io k usleep contents stdin_eof) t)) \<and>
      dev (mac_outside (snd (io_open (mac_io k usleep contents stdin_eof) t))) = dev (mac_outside t)"
    if "mac_present k c ps dev t" for t
    using that by (simp add: mac_present_def mac_io_def)
  show "fst (io_write (mac_io k usleep contents stdin_eof) r ms t) \<and>
      mac_ready k c ps dev (snd (io_write (mac_io k usleep contents stdin_eof) r ms t)) \<and>
      spm_calls (dev (mac_outside (snd (io_write (mac_io k usleep contents stdin_eof) r ms t))))
        = spm_calls (dev (mac_outside t)) @ page_effect r"
    if "mac_ready k c ps dev t" "page_report ps r" for t r ms
  proof -
    note given = that
    have c: "class_set_report c" "even ps" "running (dev (mac_outside t))" using given(1) by (simp_all add: mac_ready_def)
    obtain q where q: "carries r q" "fst (mac_teensy_write k r ms t)"
        "iokit_teensy_reference (snd (mac_teensy_write k r ms t)) = iokit_teensy_reference t"
        "dev (mac_outside (snd (mac_teensy_write k r ms t))) = EVENT_USB_Device_ControlRequest c ps q (dev (mac_outside t))"
      using mac_write [OF given(1)] by blast
    show ?thesis using carried_page [OF c(1,2) given(2) q(1) c(3)] q given(1) by (simp add: mac_io_def mac_ready_def)
  qed
  show "let d = dev (mac_outside (io_close (mac_io k usleep contents stdin_eof) (snd (io_write (mac_io k usleep contents stdin_eof) r ms t))))
      in phase d = Running \<and> \<not> RunBootloader d \<and> spm_calls d = spm_calls (dev (mac_outside t))"
    if "mac_ready k c ps dev t" "length r = ps + 2" "le16 (r ! 0) (r ! 1) = COMMAND_STARTAPPLICATION" for t r ms
  proof -
    note given = that
    have c: "class_set_report c" "running (dev (mac_outside t))" "mac_delivers k c ps dev" using given(1) by (simp_all add: mac_ready_def)
    obtain q where q: "carries r q"
        "dev (mac_outside (snd (mac_teensy_write k r ms t))) = EVENT_USB_Device_ControlRequest c ps q (dev (mac_outside t))"
      using mac_write [OF given(1)] by blast
    have "2 \<le> length r" using given(2) by simp
    from carried_start [OF c(1) q(1) this given(3)] show ?thesis
      using q(2) c(2) mac_close_dev [OF c(3)] by (simp add: mac_io_def running_def Let_def)
  qed
qed

section \<open>Properties\<close>

text \<open>
  C1. A firmware update on Linux, from the text of the hex file to the start of the new program. If the
  bootloader is attached, the controller is one with less than 64 KiB, and the file is well-formed, the
  loader ends with success, and the bootloader has given commands that turn the flash, whatever was in it,
  into the new one: every block with a byte of the file, and the first one, holds the bytes of the file
  and 0xFF between them, every other block and everything behind the program memory is as before; bytes of
  the file behind the program memory are left out. The device has left its loop, and
  after the watchdog reset the new program is started, unless its first word is blank.
\<close>

theorem firmware_update_installs_file:
  assumes "libusb_present l c (block_size o1) dev t"
    and "parse_options args initial_options = Inr o1" "filename o1 = Some name" "small_device o1" "reboot_after_programming o1"
    and "contents name (outside t) = Some (hex_file segs)" "fits_image segs"
    and "spm_hardware step flash buffer (block_size o1)"
  shows "\<exists>t'. loader_main (libusb_io l usleep contents False) args t = Some (Inr (), t') \<and>
    installs step flash o1 segs (dev (outside t)) (dev (outside t'))"
  by (rule libusb_flash.update_installs [OF assms(1-4) refl assms(5)])
    (use assms in \<open>simp_all add: libusb_io_def\<close>)

definition update_usb :: "(unit, unit, boot) libusb" where
  "update_usb = sample_usb\<lparr>usb_get_busses := (\<lambda>_. [[\<lparr>idVendor = 0x15ba, idProduct = 0x003b, usb_dev_id = ()\<rparr>]])\<rparr>"

definition waiting :: boot where
  "waiting = main_start (boot_reset 0)"

definition jump_file :: "(nat \<times> u8 list) list" where
  "jump_file = [(0, [0x0C, 0x94, 0x60, 0x00])]"

lemma update_command_line: "parse_options [''-mmcu=atmega32u4'', ''a.hex''] initial_options = Inr default_options"
  by (simp add: parse_options_def parse_option_def parse_mcu_def mcu_sizes_def strncmp_eq_def initial_options_def default_options_def)

lemma update_defaults:
  "filename default_options = Some ''a.hex''" "block_size default_options = 128" "reboot_after_programming default_options"
  "fits_image jump_file" "spm_hardware (sample_step 128) fst snd (block_size default_options)" "running waiting"
  using started_simps [of 0] sample_hardware
  by (simp_all add: default_options_def jump_file_def fits_image_def MAX_MEMORY_SIZE_def running_def waiting_def)

lemma firmware_update_installs_file_witness:
  "\<exists>t'. loader_main (libusb_io update_usb (\<lambda>_ w. w) (\<lambda>_ _. Some (hex_file jump_file)) False) [''-mmcu=atmega32u4'', ''a.hex'']
      \<lparr>teensy_handle = None, outside = waiting\<rparr> = Some (Inr (), t') \<and>
    installs (sample_step 128) fst default_options jump_file (id waiting) (id (outside t'))"
proof -
  let ?t = "\<lparr>teensy_handle = None, outside = waiting\<rparr>"
  have "teensy_open update_usb ?t = (True, \<lparr>teensy_handle = Some (), outside = waiting\<rparr>)"
    by (simp add: teensy_open_def teensy_close_def open_usb_device_def update_usb_def sample_usb_def try_device_def)
  moreover have "linked update_usb lufa_consts 128 id \<lparr>teensy_handle = Some (), outside = waiting\<rparr>"
    using sample_carries update_defaults(6) by (auto simp: linked_def delivers_def update_usb_def sample_usb_def lufa_class)
  ultimately have present: "libusb_present update_usb lufa_consts (block_size default_options) id ?t"
    by (simp add: libusb_present_def libusb_ready_def update_defaults(2)) (simp add: update_usb_def sample_usb_def)
  have "(\<lambda>_ _. Some (hex_file jump_file)) ''a.hex'' (outside ?t) = Some (hex_file jump_file)" by simp
  from firmware_update_installs_file [OF present update_command_line update_defaults(1) small_default update_defaults(3)
      this update_defaults(4,5)]
  show ?thesis by simp
qed

text \<open>
  C4. The same holds on Windows and Mac OS X, where the reports go through the HID driver of the system:
  the whole update is the same whichever back end the loader is built with.
\<close>

theorem firmware_update_on_windows_and_mac:
  assumes "win_present a c (block_size o1) dev t" "mac_present k c (block_size o1) mdev mt"
    and "parse_options args initial_options = Inr o1" "filename o1 = Some name" "small_device o1" "reboot_after_programming o1"
    and "contents name (win_outside t) = Some (hex_file segs)" "mcontents name (mac_outside mt) = Some (hex_file segs)" "fits_image segs"
    and "spm_hardware step flash buffer (block_size o1)"
  shows "(\<exists>t'. loader_main (win_io a sleep contents False) args t = Some (Inr (), t') \<and>
      installs step flash o1 segs (dev (win_outside t)) (dev (win_outside t'))) \<and>
    (\<exists>mt'. loader_main (mac_io k usleep mcontents False) args mt = Some (Inr (), mt') \<and>
      installs step flash o1 segs (mdev (mac_outside mt)) (mdev (mac_outside mt')))"
proof
  show "\<exists>t'. loader_main (win_io a sleep contents False) args t = Some (Inr (), t') \<and>
      installs step flash o1 segs (dev (win_outside t)) (dev (win_outside t'))"
    by (rule windows_flash.update_installs [OF assms(1,3-5) refl assms(6)])
      (use assms in \<open>simp_all add: win_io_def\<close>)
  show "\<exists>mt'. loader_main (mac_io k usleep mcontents False) args mt = Some (Inr (), mt') \<and>
      installs step flash o1 segs (mdev (mac_outside mt)) (mdev (mac_outside mt'))"
    by (rule mac_flash.update_installs [OF assms(2,3-5) refl assms(6)])
      (use assms in \<open>simp_all add: mac_io_def\<close>)
qed

definition request_done :: "u8 list \<Rightarrow> boot \<Rightarrow> boot" where
  "request_done buf = EVENT_USB_Device_ControlRequest lufa_consts 128 (sample_message buf)"

definition update_windows :: "(unit, unit, unit, boot) winapi" where
  "update_windows = \<lparr>SetupDiGetClassDevs = (\<lambda>w. (Some [()], w)), SetupDiDestroyDeviceInfoList = id,
     malloc_details = (\<lambda>i w. True), SetupDiGetDeviceInterfaceDetail = (\<lambda>i w. (Some ''hid'', w)),
     CreateFile = (\<lambda>p w. (Some (), w)), HidD_GetAttributes = (\<lambda>h w. (Some (0x15ba, 0x003b), w)),
     CloseHandle = (\<lambda>h w. w), CreateEvent = (\<lambda>w. (Some (), w)), WriteFile = (\<lambda>h e b w. (False, request_done (tl b) w)),
     io_pending = (\<lambda>w. True), WaitForSingleObject = (\<lambda>e m w. (WAIT_OBJECT_0, w)), CancelIo = (\<lambda>h w. w),
     GetOverlappedResult = (\<lambda>h w. (True, w))\<rparr>"

definition update_mac :: "(nat, boot) iokit" where
  "update_mac = \<lparr>IOHIDManagerCreate = (\<lambda>w. (Manager, w)), CFRelease = id, CFDictionaryCreateMutable = (\<lambda>w. (True, w)),
     register_callbacks = id, IOHIDManagerOpen = (\<lambda>w. (True, w)), unschedule = id, pending_events = (\<lambda>w. ([], w)),
     VendorIDKey = (\<lambda>d w. Some 0x15ba), ProductIDKey = (\<lambda>d w. Some (int d)), malloc_entry = (\<lambda>d w. True),
     IOHIDDeviceOpen = (\<lambda>d w. (True, w)), IOHIDDeviceClose = (\<lambda>d w. w), IOHIDDeviceSetReport = (\<lambda>d b w. (True, request_done b w))\<rparr>"

definition mac_start :: "(nat, boot) mac" where
  "mac_start = \<lparr>usb_list = [\<lparr>ref = 59, pid = 59, vid = 0x15ba\<rparr>], hid_manager = True, iokit_teensy_reference = None, mac_outside = waiting\<rparr>"

lemma update_mac_present: "mac_present update_mac lufa_consts (block_size default_options) id mac_start"
proof -
  have "mac_teensy_open update_mac mac_start = (True, mac_start\<lparr>iokit_teensy_reference := Some 59\<rparr>)"
    by (simp add: mac_teensy_open_def mac_teensy_close_def mac_open_usb_device_def init_hid_manager_def do_run_loop_def
      update_mac_def mac_start_def)
  moreover have "mac_delivers update_mac lufa_consts 128 id"
    using sample_carries by (auto simp: mac_delivers_def update_mac_def request_done_def)
  ultimately show ?thesis
    using update_defaults(6) by (simp add: mac_present_def mac_ready_def update_defaults(2) lufa_class mac_start_def)
qed

lemma update_windows_present:
  "win_present update_windows lufa_consts (block_size default_options) id \<lparr>win_handle = None, win_event = None, win_outside = waiting\<rparr>"
proof -
  have "win_teensy_open update_windows \<lparr>win_handle = None, win_event = None, win_outside = waiting\<rparr>
      = (True, \<lparr>win_handle = Some (), win_event = None, win_outside = waiting\<rparr>)"
    by (simp add: win_teensy_open_def win_teensy_close_def win_open_either_def win_open_usb_device_def update_windows_def Let_def)
  moreover have "win_delivers update_windows lufa_consts 128 id"
    using sample_carries by (auto simp: win_delivers_def update_windows_def request_done_def)
  ultimately show ?thesis
    using update_defaults(6) by (simp add: win_present_def win_ready_def update_defaults(2) lufa_class)
qed

lemma firmware_update_on_windows_and_mac_witness:
  "(\<exists>t'. loader_main (win_io update_windows (\<lambda>_ w. w) (\<lambda>_ _. Some (hex_file jump_file)) False) [''-mmcu=atmega32u4'', ''a.hex'']
        \<lparr>win_handle = None, win_event = None, win_outside = waiting\<rparr> = Some (Inr (), t') \<and>
      installs (sample_step 128) fst default_options jump_file waiting (win_outside t')) \<and>
   (\<exists>mt'. loader_main (mac_io update_mac (\<lambda>_ w. w) (\<lambda>_ _. Some (hex_file jump_file)) False) [''-mmcu=atmega32u4'', ''a.hex''] mac_start
        = Some (Inr (), mt') \<and> installs (sample_step 128) fst default_options jump_file waiting (mac_outside mt'))"
proof -
  let ?c = "\<lambda>_ _. Some (hex_file jump_file)"
  have "id (mac_outside mac_start) = waiting" by (simp add: mac_start_def)
  with firmware_update_on_windows_and_mac [OF update_windows_present update_mac_present update_command_line update_defaults(1)
      small_default update_defaults(3), of ?c jump_file ?c "sample_step 128" fst snd] update_defaults(4,5)
  show ?thesis by simp
qed

end
