(* ===== verification/HidReports.thy ===== *)
theory HidReports
  imports Prelude
begin

text \<open>
  HID report descriptors: the items the two firmware programs of the keyboard controller list with
  LUFA's macros, and what the HID specification says they mean, the fields of a report with their
  usages, sizes and ranges, and how a host reads the fields from the bytes of a report.
\<close>

section \<open>Items\<close>

datatype iof =
    HID_IOF_CONSTANT | HID_IOF_DATA | HID_IOF_VARIABLE | HID_IOF_ABSOLUTE | HID_IOF_RELATIVE | HID_IOF_NON_VOLATILE

text \<open>Every item has the number of bits of its data, and the data as it is written.\<close>

datatype hid_item =
    HID_RI_USAGE_PAGE nat int
  | HID_RI_USAGE nat int
  | HID_RI_USAGE_MINIMUM nat int
  | HID_RI_USAGE_MAXIMUM nat int
  | HID_RI_COLLECTION nat int
  | HID_RI_END_COLLECTION nat
  | HID_RI_LOGICAL_MINIMUM nat int
  | HID_RI_LOGICAL_MAXIMUM nat int
  | HID_RI_PHYSICAL_MINIMUM nat int
  | HID_RI_PHYSICAL_MAXIMUM nat int
  | HID_RI_REPORT_COUNT nat int
  | HID_RI_REPORT_SIZE nat int
  | HID_RI_INPUT nat "iof list"
  | HID_RI_OUTPUT nat "iof list"

primrec data_bits :: "hid_item \<Rightarrow> nat" where
  "data_bits (HID_RI_USAGE_PAGE n v) = n"
| "data_bits (HID_RI_USAGE n v) = n"
| "data_bits (HID_RI_USAGE_MINIMUM n v) = n"
| "data_bits (HID_RI_USAGE_MAXIMUM n v) = n"
| "data_bits (HID_RI_COLLECTION n v) = n"
| "data_bits (HID_RI_END_COLLECTION n) = n"
| "data_bits (HID_RI_LOGICAL_MINIMUM n v) = n"
| "data_bits (HID_RI_LOGICAL_MAXIMUM n v) = n"
| "data_bits (HID_RI_PHYSICAL_MINIMUM n v) = n"
| "data_bits (HID_RI_PHYSICAL_MAXIMUM n v) = n"
| "data_bits (HID_RI_REPORT_COUNT n v) = n"
| "data_bits (HID_RI_REPORT_SIZE n v) = n"
| "data_bits (HID_RI_INPUT n fs) = n"
| "data_bits (HID_RI_OUTPUT n fs) = n"

text \<open>\<open>sizeof\<close> of an array of items: a byte for the kind of each item, and its data.\<close>

definition report_size :: "hid_item list \<Rightarrow> nat" where
  "report_size is = (\<Sum>i \<leftarrow> is. 1 + data_bits i div 8)"

section \<open>What the items mean\<close>

text \<open>
  The global items hold until they are set again, the local ones (usages) up to the next main item.
\<close>

record hid_state =
  usage_page :: int
  usages :: "int list"
  usage_min :: int
  logical_min :: "nat \<times> int"
  logical_max :: "nat \<times> int"
  report_count :: nat
  report_bits :: nat

definition hid_start :: hid_state where
  "hid_start = \<lparr>usage_page = 0, usages = [], usage_min = 0, logical_min = (8, 0), logical_max = (8, 0),
     report_count = 0, report_bits = 0\<rparr>"

record hid_field =
  to_host :: bool
  is_constant :: bool
  relative :: bool
  usage :: "(int \<times> int) option"
  bits :: nat
  low :: int
  high :: int

definition signed_value :: "nat \<times> int \<Rightarrow> int" where
  "signed_value d = signed_take_bit (fst d - 1) (snd d)"

definition unsigned_value :: "nat \<times> int \<Rightarrow> int" where
  "unsigned_value d = take_bit (fst d) (snd d)"

text \<open>
  The fields of a main item: as many as the report count says, with the usages in order, the last
  one for all that are left. The maximum is unsigned when the minimum is not negative.
\<close>

definition item_usage :: "hid_state \<Rightarrow> nat \<Rightarrow> (int \<times> int) option" where
  "item_usage s j = (if usages s = [] then None else Some (usage_page s, usages s ! min j (length (usages s) - 1)))"

definition item_fields :: "bool \<Rightarrow> iof list \<Rightarrow> hid_state \<Rightarrow> hid_field list" where
  "item_fields input flags s = map (\<lambda>j.
     \<lparr>to_host = input, is_constant = HID_IOF_CONSTANT \<in> set flags, relative = HID_IOF_RELATIVE \<in> set flags,
      usage = (if HID_IOF_VARIABLE \<in> set flags then item_usage s j else None), bits = report_bits s,
      low = signed_value (logical_min s),
      high = (if signed_value (logical_min s) < 0 then signed_value else unsigned_value) (logical_max s)\<rparr>)
     [0..<report_count s]"

definition no_locals :: "hid_state \<Rightarrow> hid_state" where
  "no_locals s = s\<lparr>usages := [], usage_min := 0\<rparr>"

primrec hid_step :: "hid_item \<Rightarrow> hid_state \<Rightarrow> hid_state \<times> hid_field list" where
  "hid_step (HID_RI_USAGE_PAGE n v) s = (s\<lparr>usage_page := unsigned_value (n, v)\<rparr>, [])"
| "hid_step (HID_RI_USAGE n v) s = (s\<lparr>usages := usages s @ [unsigned_value (n, v)]\<rparr>, [])"
| "hid_step (HID_RI_USAGE_MINIMUM n v) s = (s\<lparr>usage_min := unsigned_value (n, v)\<rparr>, [])"
| "hid_step (HID_RI_USAGE_MAXIMUM n v) s = (s\<lparr>usages := usages s @ [usage_min s..unsigned_value (n, v)]\<rparr>, [])"
| "hid_step (HID_RI_COLLECTION n v) s = (no_locals s, [])"
| "hid_step (HID_RI_END_COLLECTION n) s = (no_locals s, [])"
| "hid_step (HID_RI_LOGICAL_MINIMUM n v) s = (s\<lparr>logical_min := (n, v)\<rparr>, [])"
| "hid_step (HID_RI_LOGICAL_MAXIMUM n v) s = (s\<lparr>logical_max := (n, v)\<rparr>, [])"
| "hid_step (HID_RI_PHYSICAL_MINIMUM n v) s = (s, [])"
| "hid_step (HID_RI_PHYSICAL_MAXIMUM n v) s = (s, [])"
| "hid_step (HID_RI_REPORT_COUNT n v) s = (s\<lparr>report_count := nat (unsigned_value (n, v))\<rparr>, [])"
| "hid_step (HID_RI_REPORT_SIZE n v) s = (s\<lparr>report_bits := nat (unsigned_value (n, v))\<rparr>, [])"
| "hid_step (HID_RI_INPUT n flags) s = (no_locals s, item_fields True flags s)"
| "hid_step (HID_RI_OUTPUT n flags) s = (no_locals s, item_fields False flags s)"

primrec hid_fields :: "hid_item list \<Rightarrow> hid_state \<Rightarrow> hid_field list" where
  "hid_fields [] s = []"
| "hid_fields (i # is) s = snd (hid_step i s) @ hid_fields is (fst (hid_step i s))"

definition fields_of :: "hid_item list \<Rightarrow> hid_field list" where
  "fields_of is = hid_fields is hid_start"

definition total_bits :: "hid_field list \<Rightarrow> nat" where
  "total_bits fs = sum_list (map bits fs)"

section \<open>Reading a report\<close>

text \<open>
  The value of a field whose lowest bit has the given number, none where the report is too short;
  all fields of a report in order.
\<close>

definition report_bit :: "u8 list \<Rightarrow> nat \<Rightarrow> bool" where
  "report_bit bs i = bit (bs ! (i div 8)) (i mod 8)"

definition field_value :: "hid_field \<Rightarrow> nat \<Rightarrow> u8 list \<Rightarrow> int option" where
  "field_value f i bs =
     (if i + bits f > 8 * length bs then None
      else let v = horner_sum of_bool 2 (map (report_bit bs) [i..<i + bits f]) in
        Some (if low f < 0 then signed_take_bit (bits f - 1) v else v))"

primrec read_fields :: "hid_field list \<Rightarrow> nat \<Rightarrow> u8 list \<Rightarrow> int option list" where
  "read_fields [] i bs = []"
| "read_fields (f # fs) i bs = field_value f i bs # read_fields fs (i + bits f) bs"

definition in_range :: "hid_field \<Rightarrow> int option \<Rightarrow> bool" where
  "in_range f v = (case v of None \<Rightarrow> False | Some x \<Rightarrow> low f \<le> x \<and> x \<le> high f)"

text \<open>The bits of one byte.\<close>

lemma byte_bits:
  assumes "k < length bs" "a + n \<le> 8"
  shows "horner_sum of_bool 2 (map (report_bit bs) [8 * k + a..<8 * k + a + n]) = take_bit n (drop_bit a (uint (bs ! k)))"
proof -
  have "report_bit bs (8 * k + a + i) = bit (drop_bit a (uint (bs ! k))) i" if "i < n" for i
  proof -
    have split: "8 * k + a + i = (a + i) + k * 8" "a + i < 8" using that assms(2) by simp_all
    have "(8 * k + a + i) div 8 = k" unfolding split(1) using split(2) by simp
    moreover have "(8 * k + a + i) mod 8 = a + i" unfolding split(1) mod_mult_self1 using split(2) by simp
    ultimately have "(8 * k + a + i) div 8 = k" "(8 * k + a + i) mod 8 = a + i" by blast+
    then show ?thesis using that assms(2) by (simp add: report_bit_def bit_uint_iff bit_drop_bit_eq)
  qed
  then have "map (report_bit bs) [8 * k + a..<8 * k + a + n] = map (bit (drop_bit a (uint (bs ! k)))) [0..<n]"
    by (intro nth_equalityI) auto
  then show ?thesis by (simp add: horner_sum_bit_eq_take_bit)
qed

lemma field_in_byte:
  assumes "k < length bs" "a + bits f \<le> 8" "i = 8 * k + a"
  shows "field_value f i bs = Some ((if low f < 0 then signed_take_bit (bits f - 1) else id) (take_bit (bits f) (drop_bit a (uint (bs ! k)))))"
  using byte_bits [OF assms(1,2)] assms by (simp add: field_value_def Let_def)

lemma field_byte:
  assumes "k < length bs" "bits f = 8" "i = 8 * k"
  shows "field_value f i bs = Some (if low f < 0 then sint (bs ! k) else uint (bs ! k))"
proof -
  have "take_bit 8 (uint (bs ! k)) = uint (bs ! k)" using uint_lt2p [of "bs ! k"] by (intro take_bit_int_eq_self) simp_all
  moreover have "signed_take_bit 7 (uint (bs ! k)) = sint (bs ! k)" by (simp add: sint_uint)
  ultimately show ?thesis
    using field_in_byte [of k bs 0 f i] assms by simp
qed

end
