(* ===== verification/Touchpad.thy ===== *)
theory Touchpad
  imports Prelude
begin

text \<open>
  The pointing half of the keyboard controller (\<open>TERES-HID/KeyboardMouse.c\<close>): the mouse reports made
  from the touch pad data, the interrupts that read the touch pad and the button ladder, and the
  timers of tapping and of the guard against touches while typing. On the AVR \<open>int\<close> is 16 bits wide
  and \<open>uint16_t\<close> is \<open>unsigned int\<close>, so differences of positions wrap and are then read as signed.
\<close>

section \<open>State\<close>

definition MOUSE_LEFT :: u8 where "MOUSE_LEFT = 1"
definition MOUSE_RIGTH :: u8 where "MOUSE_RIGTH = 2"
definition MOUSE_MIDDLE :: u8 where "MOUSE_MIDDLE = 4"
definition WHEEL :: u8 where "WHEEL = 1"
definition DRAG_HYST :: u16 where "DRAG_HYST = 5"
definition TP_LOCK :: u8 where "TP_LOCK = 20"
definition PRETAP :: u8 where "PRETAP = 3"
definition CLICK_MS :: u8 where "CLICK_MS = 8"
definition TOUCH_TO :: u8 where "TOUCH_TO = 8"

lemmas tp_consts = MOUSE_LEFT_def MOUSE_RIGTH_def MOUSE_MIDDLE_def WHEEL_def DRAG_HYST_def TP_LOCK_def
  PRETAP_def CLICK_MS_def TOUCH_TO_def

record touchpad =
  ActionSend :: bool
  oldbutton :: u16
  tpdata :: "nat \<Rightarrow> u8"
  lastposX :: u16
  lastposY :: u16
  button :: u8
  lastfingers :: u8
  tpguard :: u8
  touch_to :: u8
  TouchPadLocked :: bool
  tp_guard :: bool
  ticks :: u8
  mouse :: u8
  MR_X :: u16
  MR_Y :: u16
  MR_B :: u8
  MR_W :: u8
  dragtime :: u8
  speedlimit :: u8
  presstime :: u8
  time_zero :: u8
  time_one :: u8
  time_two :: u8
  time_pressed :: u8
  MR_B_REQ :: u8
  startposX :: u16
  startposY :: u16
  itsDone :: bool
  tap_enabled :: bool
  drag :: bool

text \<open>The initial values; \<open>SetupHardware\<close> sets \<open>button\<close> to 0xff.\<close>

definition touchpad_init :: touchpad where
  "touchpad_init = \<lparr>ActionSend = False, oldbutton = 0, tpdata = (\<lambda>_. 0), lastposX = 0xffff, lastposY = 0xffff,
     button = 0xff, lastfingers = 0, tpguard = 0, touch_to = 0, TouchPadLocked = False, tp_guard = False,
     ticks = 0, mouse = 0, MR_X = 0, MR_Y = 0, MR_B = 0, MR_W = 0, dragtime = 0, speedlimit = 0,
     presstime = 0, time_zero = 0, time_one = 0, time_two = 0, time_pressed = 0, MR_B_REQ = 0,
     startposX = 0xffff, startposY = 0xffff, itsDone = False, tap_enabled = True, drag = False\<rparr>"

record mouse_report =
  Button :: u8
  X :: u8
  Y :: u8
  Wheel :: u8

section \<open>The mouse report\<close>

text \<open>\<open>int\<close> arguments and results as 16-bit words; \<open>abs\<close> of the smallest \<open>int\<close> is itself.\<close>

definition abs16 :: "u16 \<Rightarrow> u16" where
  "abs16 v = (if sint v < 0 then - v else v)"

definition limited :: "u8 \<Rightarrow> u16 \<Rightarrow> u16" where
  "limited limit value =
     (if sint value < 0
      then if sint (abs16 value) > uint limit then - ucast limit else value
      else if sint value > uint limit then ucast limit else value)"

definition posx1 :: "touchpad \<Rightarrow> u16" where
  "posx1 s = push_bit 8 (ucast (tpdata s 3)) OR ucast (tpdata s 4)"

definition posy1 :: "touchpad \<Rightarrow> u16" where
  "posy1 s = push_bit 8 (ucast (tpdata s 5)) OR ucast (tpdata s 6)"

text \<open>No finger: a tap is recognised when the finger is lifted.\<close>

definition fingers_none :: "touchpad \<Rightarrow> touchpad" where
  "fingers_none s =
     (let s1 = (if lastfingers s \<noteq> 0
        then (let s0 = (if time_zero s > PRETAP \<and> time_pressed s < CLICK_MS \<and>
                 sint (abs16 (startposX s + startposY s - posx1 s - posy1 s)) < 10
              then s\<lparr>MR_B_REQ := (if time_two s \<noteq> 0 then MOUSE_RIGTH else MOUSE_LEFT)\<rparr>
              else s)
          in s0\<lparr>time_zero := 0\<rparr>)
        else s)
      in s1\<lparr>speedlimit := 0, lastposX := 0, lastposY := 0\<rparr>)"

text \<open>One finger: the pointer moves by the difference to the last position.\<close>

definition fingers_one :: "touchpad \<Rightarrow> touchpad" where
  "fingers_one s =
     (let s1 = s\<lparr>touch_to := TOUCH_TO\<rparr>;
          s2 = (if lastfingers s1 = 0 then s1\<lparr>presstime := CLICK_MS, speedlimit := 0\<rparr>
                else if lastfingers s1 = 1
                then if lastposX s1 \<noteq> 0
                     then s1\<lparr>MR_X := limited (speedlimit s1) (posx1 s1 - lastposX s1),
                             MR_Y := limited (speedlimit s1) (posy1 s1 - lastposY s1)\<rparr>
                     else s1
                else if lastfingers s1 = 2 then s1\<lparr>speedlimit := 0\<rparr>
                else s1);
          s3 = (if lastfingers s2 \<noteq> 1
                then s2\<lparr>time_one := 0, startposX := posx1 s2, startposY := posy1 s2, lastfingers := 1\<rparr>
                else s2);
          s4 = s3\<lparr>lastposX := posx1 s3, lastposY := posy1 s3\<rparr>
      in if speedlimit s4 \<noteq> 0x80 then s4\<lparr>speedlimit := speedlimit s4 + 0x04\<rparr> else s4)"

text \<open>Two fingers: the wheel turns by one step when they moved far enough.\<close>

definition fingers_two :: "touchpad \<Rightarrow> touchpad" where
  "fingers_two s =
     (let s1 = (if lastfingers s = 0 then s\<lparr>touch_to := TOUCH_TO\<rparr> else s);
          s2 = (if lastfingers s1 = 2
                then (let s' = (if lastposY s1 > posy1 s1 + DRAG_HYST then s1\<lparr>MR_W := WHEEL\<rparr>
                          else if lastposY s1 + DRAG_HYST < posy1 s1 then s1\<lparr>MR_W := - WHEEL\<rparr>
                          else s1);
                        s'' = (if MR_W s' \<noteq> 0 then s'\<lparr>time_zero := 0\<rparr> else s')
                    in s''\<lparr>presstime := 0\<rparr>)
                else s1\<lparr>time_two := 0, startposX := posx1 s1, startposY := posy1 s1, lastfingers := 2\<rparr>)
      in s2\<lparr>lastposX := posx1 s2, lastposY := posy1 s2\<rparr>)"

definition fingers_more :: "touchpad \<Rightarrow> touchpad" where
  "fingers_more s = s\<lparr>lastposX := 0, lastposY := 0\<rparr>"

definition touch_action :: "touchpad \<Rightarrow> touchpad" where
  "touch_action s =
     (let s1 = (if tpdata s 2 = 0 then fingers_none s
                else if tpdata s 2 = 1 then fingers_one s
                else if tpdata s 2 = 2 then fingers_two s
                else fingers_more s)
      in s1\<lparr>lastfingers := tpdata s1 2, ActionSend := False, itsDone := True\<rparr>)"

text \<open>The mouse branch of \<open>CALLBACK_HID_Device_CreateHIDReport\<close>.\<close>

definition CreateMouseReport :: "touchpad \<Rightarrow> touchpad \<times> mouse_report" where
  "CreateMouseReport s =
     (let s1 = s\<lparr>MR_Y := 0, MR_X := 0, MR_W := 0, MR_B := MR_B s OR mouse s\<rparr>;
          s2 = (if ActionSend s1 then touch_action s1 else s1)
      in (s2\<lparr>MR_B := 0\<rparr>,
          \<lparr>Button = MR_B s2, X = ucast (MR_X s2), Y = ucast (MR_Y s2), Wheel = MR_W s2\<rparr>))"

section \<open>Interrupts\<close>

text \<open>The analog button ladder.\<close>

definition ADC_vect :: "u8 \<Rightarrow> touchpad \<Rightarrow> touchpad" where
  "ADC_vect ADCH s0 =
     (let s = s0\<lparr>button := ADCH\<rparr>
      in if ucast (button s) = oldbutton s
         then if button s < 0xe8
              then if button s > 0xa0 then s\<lparr>mouse := MOUSE_RIGTH\<rparr>
                   else if button s > 0x80 then s\<lparr>mouse := MOUSE_LEFT\<rparr>
                   else s\<lparr>mouse := MOUSE_MIDDLE\<rparr>
              else s\<lparr>mouse := 0\<rparr>
         else s\<lparr>oldbutton := ucast (button s)\<rparr>)"

text \<open>
  Reading the touch pad over TWI: the seven bytes received, or \<open>None\<close> where one of the two
  transmissions could not be started; then the old data stay.
\<close>

definition read_touchpad :: "u8 list option \<Rightarrow> touchpad \<Rightarrow> touchpad" where
  "read_touchpad r s = (case r of None \<Rightarrow> s | Some bs \<Rightarrow> s\<lparr>tpdata := blit (tpdata s) 0 (take 7 bs)\<rparr>)"

definition INT2_vect :: "u8 list option \<Rightarrow> touchpad \<Rightarrow> touchpad" where
  "INT2_vect r s0 = (let s = read_touchpad r s0
     in if \<not> TouchPadLocked s \<and> \<not> tp_guard s then s\<lparr>ActionSend := True\<rparr> else s)"

text \<open>The counters of the timer interrupt, in the order of the code.\<close>

definition tap_timer :: "touchpad \<Rightarrow> touchpad" where
  "tap_timer s0 =
     (let s1 = (if time_zero s0 \<noteq> 0xff \<and> tpdata s0 2 = 0 then s0\<lparr>time_zero := time_zero s0 + 1\<rparr> else s0);
          s2 = (if time_zero s1 = TOUCH_TO
                then s1\<lparr>MR_B := MR_B_REQ s1, MR_B_REQ := 0, time_one := 0, time_two := 0, time_pressed := 0\<rparr>
                else s1);
          s3 = (if time_one s2 \<noteq> 0xff \<and> tpdata s2 2 = 1 then s2\<lparr>time_one := time_one s2 + 1\<rparr> else s2)
      in if time_two s3 \<noteq> 0xff \<and> tpdata s3 2 = 2 then s3\<lparr>time_two := time_two s3 + 1\<rparr> else s3)"

definition guard_timer :: "touchpad \<Rightarrow> touchpad" where
  "guard_timer s0 =
     (let s1 = (if ticks s0 \<noteq> 0 then s0\<lparr>ticks := ticks s0 - 1\<rparr> else s0);
          s2 = (if dragtime s1 \<noteq> 0 then s1\<lparr>dragtime := dragtime s1 - 1\<rparr> else s1);
          s3 = (if presstime s2 \<noteq> 0 then s2\<lparr>presstime := presstime s2 - 1\<rparr> else s2);
          s4 = (if tpguard s3 \<noteq> 0 then s3\<lparr>tpguard := tpguard s3 - 1\<rparr> else s3)
      in if tpguard s4 = 1 then s4\<lparr>tp_guard := False\<rparr> else s4)"

definition touch_timer :: "touchpad \<Rightarrow> touchpad" where
  "touch_timer s0 =
     (let s1 = (if touch_to s0 \<noteq> 0 then s0\<lparr>touch_to := touch_to s0 - 1\<rparr> else s0)
      in if touch_to s1 = 1
         then (let s2 = s1\<lparr>tap_enabled := True, lastposX := 0, lastposY := 0, drag := False\<rparr>
               in if presstime s2 \<noteq> 0 then s2\<lparr>ActionSend := True\<rparr> else s2\<lparr>lastfingers := 0\<rparr>)
         else s1)"

definition TIMER0_OVF_vect :: "u8 list option \<Rightarrow> touchpad \<Rightarrow> touchpad" where
  "TIMER0_OVF_vect r s0 =
     (let s = read_touchpad r s0;
          s1 = (if \<not> TouchPadLocked s \<and> \<not> tp_guard s \<and> tpdata s 0 \<noteq> 0 then s\<lparr>ActionSend := True\<rparr> else s)
      in touch_timer (guard_timer (tap_timer s1)))"

text \<open>Called by the keyboard report: no touches while typing.\<close>

definition tp_guarder :: "touchpad \<Rightarrow> touchpad" where
  "tp_guarder s = s\<lparr>tp_guard := True, tpguard := TP_LOCK\<rparr>"

section \<open>Runs\<close>

text \<open>What happens to the pointing half, in any order; a run collects the mouse reports.\<close>

datatype tp_event =
    Adc u8
  | Touch_interrupt "u8 list option"
  | Timer "u8 list option"
  | Mouse_report
  | Key_pressed
  | Lock_key

fun tp_step :: "tp_event \<Rightarrow> touchpad \<times> mouse_report list \<Rightarrow> touchpad \<times> mouse_report list" where
  "tp_step (Adc v) (s, rs) = (ADC_vect v s, rs)"
| "tp_step (Touch_interrupt r) (s, rs) = (INT2_vect r s, rs)"
| "tp_step (Timer r) (s, rs) = (TIMER0_OVF_vect r s, rs)"
| "tp_step Mouse_report (s, rs) = (let (s', r) = CreateMouseReport s in (s', rs @ [r]))"
| "tp_step Key_pressed (s, rs) = (tp_guarder s, rs)"
| "tp_step Lock_key (s, rs) = (s\<lparr>TouchPadLocked := \<not> TouchPadLocked s\<rparr>, rs)"

definition tp_run :: "tp_event list \<Rightarrow> touchpad \<times> mouse_report list \<Rightarrow> touchpad \<times> mouse_report list" where
  "tp_run es c = fold tp_step es c"


section \<open>Invariant\<close>

definition speed_ok :: "u8 \<Rightarrow> bool" where
  "speed_ok v \<longleftrightarrow> (\<exists>k \<le> 32. v = word_of_nat (4 * k))"

definition tp_core :: "touchpad \<Rightarrow> bool" where
  "tp_core s \<longleftrightarrow> time_pressed s = 0 \<and> speed_ok (speedlimit s) \<and>
     unat (tpguard s) \<le> 20 \<and> (tp_guard s \<longrightarrow> 2 \<le> unat (tpguard s)) \<and>
     mouse s \<in> {0, MOUSE_LEFT, MOUSE_RIGTH, MOUSE_MIDDLE} \<and>
     MR_B_REQ s \<in> {0, MOUSE_LEFT, MOUSE_RIGTH}"

definition tp_inv :: "touchpad \<Rightarrow> bool" where
  "tp_inv s \<longleftrightarrow> tp_core s \<and> MR_B s \<in> {0, MOUSE_LEFT, MOUSE_RIGTH}"

definition report_ok :: "mouse_report \<Rightarrow> bool" where
  "report_ok r \<longleftrightarrow> Button r AND 0xF8 = 0 \<and> Wheel r \<in> {0, WHEEL, - WHEEL}"

lemma speed_ok_0 [simp]: "speed_ok 0"
  unfolding speed_ok_def by (intro exI [of _ 0]) simp

lemma speed_ok_128 [simp]: "speed_ok 0x80"
  unfolding speed_ok_def by (intro exI [of _ 32]) simp

lemma speed_ok_step: "speed_ok v \<Longrightarrow> v \<noteq> 0x80 \<Longrightarrow> speed_ok (v + 4)"
proof -
  assume "speed_ok v" "v \<noteq> 0x80"
  then obtain k where k: "k \<le> 32" "v = word_of_nat (4 * k)" by (auto simp: speed_ok_def)
  with \<open>v \<noteq> 0x80\<close> have "k \<noteq> 32" by auto
  then show "speed_ok (v + 4)"
    unfolding speed_ok_def using k by (intro exI [of _ "Suc k"]) (simp add: algebra_simps)
qed

lemma speed_ok_le: "speed_ok v \<Longrightarrow> unat v \<le> 128"
  by (auto simp: speed_ok_def unat_of_nat simp del: of_nat_mult)

lemma unat_pred: "(w :: 'a::len word) \<noteq> 0 \<Longrightarrow> unat (w - 1) = unat w - 1"
  by (simp add: unat_minus_one)

lemma inv_fingers_none: "tp_core s \<Longrightarrow> tp_core (fingers_none s)"
  by (auto simp: tp_core_def fingers_none_def Let_def)

lemma inv_fingers_one: "tp_core s \<Longrightarrow> tp_core (fingers_one s)"
  by (simp add: tp_core_def fingers_one_def Let_def speed_ok_step)

lemma inv_fingers_two: "tp_core s \<Longrightarrow> tp_core (fingers_two s)"
  by (simp add: tp_core_def fingers_two_def Let_def)

lemma inv_touch_action: "tp_core s \<Longrightarrow> tp_core (touch_action s)"
  using inv_fingers_none [of s] inv_fingers_one [of s] inv_fingers_two [of s]
  by (simp add: touch_action_def fingers_more_def Let_def tp_core_def)

lemma MR_B_touch_action: "MR_B (touch_action s) = MR_B s"
  by (simp add: touch_action_def fingers_none_def fingers_one_def fingers_two_def fingers_more_def Let_def)

lemma MR_W_touch_action: "MR_W s = 0 \<Longrightarrow> MR_W (touch_action s) \<in> {0, WHEEL, - WHEEL}"
  by (simp add: touch_action_def fingers_none_def fingers_one_def fingers_two_def fingers_more_def Let_def)

lemma inv_CreateMouseReport:
  assumes "tp_inv s"
  shows "tp_inv (fst (CreateMouseReport s)) \<and> report_ok (snd (CreateMouseReport s))"
proof -
  define s1 where "s1 = s\<lparr>MR_Y := 0, MR_X := 0, MR_W := 0, MR_B := MR_B s OR mouse s\<rparr>"
  define s2 where "s2 = (if ActionSend s1 then touch_action s1 else s1)"
  have rep: "CreateMouseReport s = (s2\<lparr>MR_B := 0\<rparr>,
      \<lparr>Button = MR_B s2, X = ucast (MR_X s2), Y = ucast (MR_Y s2), Wheel = MR_W s2\<rparr>)"
    by (simp add: CreateMouseReport_def s1_def s2_def Let_def)
  have "tp_core s1" using assms by (simp add: s1_def tp_inv_def tp_core_def)
  then have "tp_core s2" by (simp add: s2_def inv_touch_action)
  then have inv: "tp_inv (s2\<lparr>MR_B := 0\<rparr>)" by (simp add: tp_inv_def tp_core_def)
  have "MR_B s2 = MR_B s OR mouse s" by (simp add: s2_def MR_B_touch_action) (simp add: s1_def)
  moreover have "MR_W s1 = 0" by (simp add: s1_def)
  then have "MR_W s2 \<in> {0, WHEEL, - WHEEL}" using MR_W_touch_action [of s1] by (simp add: s2_def)
  moreover have "(MR_B s OR mouse s) AND 0xF8 = 0"
    using assms by (auto simp: tp_inv_def tp_core_def tp_consts)
  ultimately show ?thesis using inv by (simp add: rep report_ok_def)
qed

lemma inv_ADC_vect: "tp_inv s \<Longrightarrow> tp_inv (ADC_vect v s)"
  by (simp add: tp_inv_def tp_core_def ADC_vect_def Let_def)

lemma inv_read_touchpad: "tp_inv s \<Longrightarrow> tp_inv (read_touchpad r s)"
  by (simp add: tp_inv_def tp_core_def read_touchpad_def split: option.split)

lemma inv_ActionSend: "tp_inv s \<Longrightarrow> tp_inv (s\<lparr>ActionSend := b\<rparr>)"
  by (simp add: tp_inv_def tp_core_def)

lemma inv_INT2_vect: "tp_inv s \<Longrightarrow> tp_inv (INT2_vect r s)"
  by (simp add: INT2_vect_def Let_def inv_read_touchpad inv_ActionSend)

lemma inv_tap_timer: "tp_inv s \<Longrightarrow> tp_inv (tap_timer s)"
  by (auto simp: tp_inv_def tp_core_def tap_timer_def Let_def)

lemma guard_timer_guard:
  "tpguard (guard_timer s) = (if tpguard s = 0 then 0 else tpguard s - 1)"
  "tp_guard (guard_timer s) = (tp_guard s \<and> tpguard (guard_timer s) \<noteq> 1)"
  by (simp_all add: guard_timer_def Let_def)

lemma guard_timer_frame [simp]:
  "time_pressed (guard_timer s) = time_pressed s" "speedlimit (guard_timer s) = speedlimit s"
  "mouse (guard_timer s) = mouse s" "MR_B_REQ (guard_timer s) = MR_B_REQ s" "MR_B (guard_timer s) = MR_B s"
  by (simp_all add: guard_timer_def Let_def)

lemma inv_guard_timer:
  assumes "tp_inv s"
  shows "tp_inv (guard_timer s)"
proof -
  have "unat (tpguard (guard_timer s)) = unat (tpguard s) - 1"
    by (simp add: guard_timer_guard unat_pred)
  moreover have "tpguard (guard_timer s) \<noteq> 1 \<longleftrightarrow> unat (tpguard (guard_timer s)) \<noteq> 1"
    by (simp add: word_unat_eq_iff)
  ultimately show ?thesis
    using assms by (auto simp: tp_inv_def tp_core_def guard_timer_guard(2))
qed

lemma inv_touch_timer: "tp_inv s \<Longrightarrow> tp_inv (touch_timer s)"
  by (simp add: tp_inv_def tp_core_def touch_timer_def Let_def)

lemma inv_TIMER0_OVF_vect: "tp_inv s \<Longrightarrow> tp_inv (TIMER0_OVF_vect r s)"
  by (simp add: TIMER0_OVF_vect_def Let_def inv_read_touchpad inv_ActionSend inv_tap_timer inv_guard_timer
      inv_touch_timer)

lemma inv_tp_guarder: "tp_inv s \<Longrightarrow> tp_inv (tp_guarder s)"
  by (simp add: tp_guarder_def tp_inv_def tp_core_def TP_LOCK_def)

lemma inv_lock: "tp_inv s \<Longrightarrow> tp_inv (s\<lparr>TouchPadLocked := b\<rparr>)"
  by (simp add: tp_inv_def tp_core_def)

lemmas tp_inv_ops = inv_ADC_vect inv_INT2_vect inv_TIMER0_OVF_vect inv_tp_guarder inv_lock

lemma inv_tp_step:
  assumes "tp_inv (fst c)" "list_all report_ok (snd c)"
  shows "tp_inv (fst (tp_step e c)) \<and> list_all report_ok (snd (tp_step e c))"
proof (cases c)
  case (Pair s rs)
  then show ?thesis
    using assms inv_CreateMouseReport [of s]
    by (cases e) (simp_all add: tp_inv_ops case_prod_beta Let_def)
qed

lemma inv_tp_run:
  "tp_inv (fst c) \<Longrightarrow> list_all report_ok (snd c) \<Longrightarrow>
   tp_inv (fst (tp_run es c)) \<and> list_all report_ok (snd (tp_run es c))"
  unfolding tp_run_def
proof (induction es arbitrary: c)
  case (Cons e es)
  then show ?case using inv_tp_step [of c e] by simp
qed simp

lemma tp_inv_init: "tp_inv touchpad_init"
  by (simp add: tp_inv_def tp_core_def touchpad_init_def)


section \<open>Moving and scrolling\<close>

lemma sint_of_int16: "- 32768 \<le> k \<Longrightarrow> k < 32768 \<Longrightarrow> sint (word_of_int k :: u16) = k"
  by (simp add: signed_of_int signed_take_bit_int_eq_self)

lemma sint_of_int8: "- 128 \<le> k \<Longrightarrow> k < 128 \<Longrightarrow> sint (word_of_int k :: u8) = k"
  by (simp add: signed_of_int signed_take_bit_int_eq_self)

lemma sint_range16: "- 32768 \<le> sint (v :: u16)" "sint (v :: u16) < 32768"
  using sint_range_size [of v] by (simp_all add: word_size)

lemma uint_range8: "0 \<le> uint (l :: u8)" "uint (l :: u8) < 256"
  using uint_bounded [of l] by simp_all

lemma sint_abs16: "sint v \<noteq> - 32768 \<Longrightarrow> sint (abs16 v) = \<bar>sint v\<bar>"
proof -
  assume v: "sint v \<noteq> - 32768"
  have "- v = word_of_int (- sint v)" by simp
  moreover have "sint (word_of_int (- sint v) :: u16) = - sint v"
    using v sint_range16 [of v] by (intro sint_of_int16) simp_all
  ultimately have "sint (- v) = - sint v" by (simp only:)
  then show ?thesis by (simp add: abs16_def)
qed

lemma sint_limit: "sint (ucast (l :: u8) :: u16) = uint l" "sint (- (ucast l) :: u16) = - uint l"
proof -
  have "(ucast l :: u16) = word_of_int (uint l)" by simp
  moreover have "(- ucast l :: u16) = word_of_int (- uint l)" by simp
  ultimately show "sint (ucast (l :: u8) :: u16) = uint l" "sint (- (ucast l) :: u16) = - uint l"
    using uint_range8 [of l] by (simp_all only: sint_of_int16)
qed

lemma clamp_cases:
  "(x::int) < 0 \<Longrightarrow> 0 \<le> l \<Longrightarrow> (if - x > l then - l else x) = max (- l) (min l x)"
  "0 \<le> (x::int) \<Longrightarrow> 0 \<le> l \<Longrightarrow> (if x > l then l else x) = max (- l) (min l x)"
  by auto

lemma clamp_range: "0 \<le> l \<Longrightarrow> l \<le> 127 \<Longrightarrow> - 128 \<le> max (- l) (min l x) \<and> max (- l) (min l x) \<le> (127 :: int)"
  by auto

lemma sint_limited:
  assumes "sint v \<noteq> - 32768"
  shows "sint (limited l v) = max (- uint l) (min (uint l) (sint v))"
proof (cases "sint v < 0")
  case True
  then have "sint (limited l v) = (if - sint v > uint l then - uint l else sint v)"
    using sint_abs16 [OF assms] by (simp add: limited_def sint_limit)
  then show ?thesis by (simp only: clamp_cases(1) [OF True uint_range8(1)])
next
  case False
  then have "sint (limited l v) = (if sint v > uint l then uint l else sint v)"
    by (simp add: limited_def sint_limit)
  moreover have "0 \<le> sint v" using False by simp
  ultimately show ?thesis by (simp only: clamp_cases(2) [OF _ uint_range8(1)])
qed

lemma narrow_of_int: "(ucast (word_of_int k :: u16) :: u8) = word_of_int k"
  by (rule bit_word_eqI) (simp add: bit_simps)

lemma sint_narrow: "- 128 \<le> sint w \<Longrightarrow> sint w \<le> 127 \<Longrightarrow> sint (ucast (w :: u16) :: u8) = sint w"
proof -
  assume "- 128 \<le> sint w" "sint w \<le> 127"
  then have "sint (word_of_int (sint w) :: u8) = sint w" by (intro sint_of_int8) simp_all
  then show ?thesis using narrow_of_int [of "sint w"] by simp
qed

lemma report_moving:
  assumes "ActionSend s" "tpdata s 2 = 1" "lastfingers s = 1" "lastposX s \<noteq> 0"
  shows "X (snd (CreateMouseReport s)) = ucast (limited (speedlimit s) (posx1 s - lastposX s))"
    and "Y (snd (CreateMouseReport s)) = ucast (limited (speedlimit s) (posy1 s - lastposY s))"
  using assms
  by (simp_all add: CreateMouseReport_def touch_action_def fingers_one_def posx1_def posy1_def Let_def)

lemma report_scrolling:
  assumes "ActionSend s" "tpdata s 2 = 2" "lastfingers s = 2"
  shows "Wheel (snd (CreateMouseReport s)) = (if lastposY s > posy1 s + DRAG_HYST then WHEEL
      else if lastposY s + DRAG_HYST < posy1 s then - WHEEL else 0)"
    and "X (snd (CreateMouseReport s)) = 0" "Y (snd (CreateMouseReport s)) = 0"
  using assms
  by (simp_all add: CreateMouseReport_def touch_action_def fingers_two_def posx1_def posy1_def Let_def)

lemma mouse_touch_action: "mouse (touch_action s) = mouse s"
  by (simp add: touch_action_def fingers_none_def fingers_one_def fingers_two_def fingers_more_def Let_def)

lemma report_button:
  "Button (snd (CreateMouseReport s)) = MR_B s OR mouse s"
  "MR_B (fst (CreateMouseReport s)) = 0" "mouse (fst (CreateMouseReport s)) = mouse s"
  by (simp_all add: CreateMouseReport_def Let_def MR_B_touch_action mouse_touch_action)

section \<open>Tapping\<close>

text \<open>Events that put no finger on the pad and press no button.\<close>

fun quiet_read :: "u8 list option \<Rightarrow> bool" where
  "quiet_read None = True"
| "quiet_read (Some bs) = (length bs = 7 \<and> bs ! 2 = 0)"

fun quiet :: "tp_event \<Rightarrow> bool" where
  "quiet (Adc v) = (0xe8 \<le> v)"
| "quiet (Touch_interrupt r) = quiet_read r"
| "quiet (Timer r) = quiet_read r"
| "quiet _ = True"

fun timers :: "tp_event list \<Rightarrow> nat" where
  "timers [] = 0"
| "timers (Timer r # es) = Suc (timers es)"
| "timers (_ # es) = timers es"

text \<open>A click \<open>b\<close> is pending since \<open>k\<close> ticks.\<close>

definition pending :: "u8 \<Rightarrow> nat \<Rightarrow> touchpad \<Rightarrow> bool" where
  "pending b k s \<longleftrightarrow> tpdata s 2 = 0 \<and> lastfingers s = 0 \<and> MR_B_REQ s = b \<and> time_zero s = word_of_nat k \<and>
     mouse s = 0 \<and> MR_B s = 0"

lemma quiet_read_data:
  "quiet_read r \<Longrightarrow> tpdata s 2 = 0 \<Longrightarrow> tpdata (read_touchpad r s) 2 = 0"
  by (cases r) (simp_all add: read_touchpad_def blit_def)

lemma read_touchpad_frame [simp]:
  "lastfingers (read_touchpad r s) = lastfingers s" "MR_B_REQ (read_touchpad r s) = MR_B_REQ s"
  "time_zero (read_touchpad r s) = time_zero s" "mouse (read_touchpad r s) = mouse s"
  "MR_B (read_touchpad r s) = MR_B s" "tpguard (read_touchpad r s) = tpguard s"
  "tp_guard (read_touchpad r s) = tp_guard s"
  by (simp_all add: read_touchpad_def split: option.split)

lemma guard_timer_more [simp]:
  "tpdata (guard_timer s) = tpdata s" "lastfingers (guard_timer s) = lastfingers s"
  "time_zero (guard_timer s) = time_zero s"
  by (simp_all add: guard_timer_def Let_def)

lemma touch_timer_frame [simp]:
  "tpdata (touch_timer s) = tpdata s" "MR_B_REQ (touch_timer s) = MR_B_REQ s" "MR_B (touch_timer s) = MR_B s"
  "time_zero (touch_timer s) = time_zero s" "mouse (touch_timer s) = mouse s"
  "tpguard (touch_timer s) = tpguard s" "tp_guard (touch_timer s) = tp_guard s"
  by (simp_all add: touch_timer_def Let_def)

lemma touch_timer_lastfingers: "lastfingers s = 0 \<Longrightarrow> lastfingers (touch_timer s) = 0"
  by (simp add: touch_timer_def Let_def)

lemma tap_timer_frame [simp]:
  "tpdata (tap_timer s) = tpdata s" "lastfingers (tap_timer s) = lastfingers s" "mouse (tap_timer s) = mouse s"
  "tpguard (tap_timer s) = tpguard s" "tp_guard (tap_timer s) = tp_guard s"
  by (simp_all add: tap_timer_def Let_def)

lemma tap_timer_count:
  assumes "tpdata s 2 = 0" "time_zero s = word_of_nat k" "k \<le> 7"
  shows "time_zero (tap_timer s) = word_of_nat (Suc k)"
    and "MR_B (tap_timer s) = (if k = 7 then MR_B_REQ s else MR_B s)"
    and "MR_B_REQ (tap_timer s) = (if k = 7 then 0 else MR_B_REQ s)"
proof -
  have "(word_of_nat k :: u8) \<noteq> 0xff" using assms(3) by (simp add: word_unat_eq_iff unat_of_nat)
  moreover have "(word_of_nat k + 1 :: u8) = 8 \<longleftrightarrow> k = 7"
  proof -
    have "(word_of_nat (Suc k) :: u8) = word_of_nat 8 \<longleftrightarrow> Suc k = 8"
      using assms(3) by (simp only: word_unat_eq_iff unat_of_nat) simp
    then show ?thesis by (simp add: add.commute)
  qed
  ultimately show "time_zero (tap_timer s) = word_of_nat (Suc k)"
    "MR_B (tap_timer s) = (if k = 7 then MR_B_REQ s else MR_B s)"
    "MR_B_REQ (tap_timer s) = (if k = 7 then 0 else MR_B_REQ s)"
    using assms by (simp_all add: tap_timer_def TOUCH_TO_def Let_def add.commute)
qed

lemma TIMER0_pending:
  assumes "pending b k s" "k \<le> 7" "quiet_read r"
  shows "k < 7 \<Longrightarrow> pending b (Suc k) (TIMER0_OVF_vect r s)"
    and "k = 7 \<Longrightarrow> MR_B (TIMER0_OVF_vect r s) = b \<and> mouse (TIMER0_OVF_vect r s) = 0"
proof -
  define s1 where "s1 = (let s' = read_touchpad r s in
    if \<not> TouchPadLocked s' \<and> \<not> tp_guard s' \<and> tpdata s' 0 \<noteq> 0 then s'\<lparr>ActionSend := True\<rparr> else s')"
  have s1: "pending b k s1"
    using assms(1) quiet_read_data [OF assms(3), of s] by (simp add: pending_def s1_def Let_def)
  have T: "TIMER0_OVF_vect r s = touch_timer (guard_timer (tap_timer s1))"
    by (simp add: TIMER0_OVF_vect_def s1_def Let_def)
  have d: "tpdata s1 2 = 0" "time_zero s1 = word_of_nat k" using s1 by (simp_all add: pending_def)
  note count = tap_timer_count [OF d assms(2)]
  show "k < 7 \<Longrightarrow> pending b (Suc k) (TIMER0_OVF_vect r s)"
    using s1 count by (simp add: T pending_def touch_timer_lastfingers)
  show "k = 7 \<Longrightarrow> MR_B (TIMER0_OVF_vect r s) = b \<and> mouse (TIMER0_OVF_vect r s) = 0"
    using s1 count by (simp add: T pending_def)
qed

lemma report_pending:
  assumes "pending b k s"
  shows "pending b k (fst (CreateMouseReport s)) \<and> Button (snd (CreateMouseReport s)) = 0"
  using assms
  by (simp add: pending_def CreateMouseReport_def touch_action_def fingers_none_def Let_def)

lemma pending_step:
  assumes "pending b k s" "quiet e" "timers [e] + k \<le> 7"
  shows "pending b (timers [e] + k) (fst (tp_step e (s, rs))) \<and>
     (\<exists>rs'. snd (tp_step e (s, rs)) = rs @ rs' \<and> list_all (\<lambda>r. Button r = 0) rs')"
proof (cases e)
  case (Adc v)
  then show ?thesis using assms by (simp add: pending_def ADC_vect_def Let_def not_less [symmetric])
next
  case (Touch_interrupt r)
  then show ?thesis
    using assms quiet_read_data [of r s] by (simp add: pending_def INT2_vect_def Let_def)
next
  case (Timer r)
  then show ?thesis using assms TIMER0_pending(1) [of b k s r] by simp
next
  case Mouse_report
  then show ?thesis using report_pending [OF assms(1)] by (auto simp: case_prod_beta Let_def)
qed (use assms in \<open>simp_all add: pending_def tp_guarder_def\<close>)

lemma timers_Cons: "timers (e # es) = timers [e] + timers es"
  by (cases e) simp_all

lemma pending_run:
  assumes "pending b k s" "list_all quiet es" "timers es + k \<le> 7"
  shows "pending b (timers es + k) (fst (tp_run es (s, rs))) \<and>
     (\<exists>rs'. snd (tp_run es (s, rs)) = rs @ rs' \<and> list_all (\<lambda>r. Button r = 0) rs')"
  using assms
proof (induction es arbitrary: k s rs)
  case Nil
  then show ?case by (simp add: tp_run_def)
next
  case (Cons e es)
  obtain s1 rs1 where step: "tp_step e (s, rs) = (s1, rs1)" by (cases "tp_step e (s, rs)")
  have t: "timers (e # es) = timers [e] + timers es" by (rule timers_Cons)
  have "pending b (timers [e] + k) s1 \<and> (\<exists>rs'. rs1 = rs @ rs' \<and> list_all (\<lambda>r. Button r = 0) rs')"
    using pending_step [of b k s e rs] Cons.prems t unfolding step by simp
  then obtain rs' where 1: "pending b (timers [e] + k) s1" "rs1 = rs @ rs'" "list_all (\<lambda>r. Button r = 0) rs'"
    by blast
  have "timers es + (timers [e] + k) \<le> 7" "list_all quiet es" using Cons.prems(2,3) t by simp_all
  from Cons.IH [OF 1(1) this(2,1), of rs1] 1(2,3) show ?case
    by (auto simp: tp_run_def step t add.commute add.left_commute)
qed

section \<open>The guard against touches while typing\<close>

lemma TIMER0_guard:
  "tpguard (TIMER0_OVF_vect r s) = (if tpguard s = 0 then 0 else tpguard s - 1)"
  "tp_guard (TIMER0_OVF_vect r s) = (tp_guard s \<and> tpguard (TIMER0_OVF_vect r s) \<noteq> 1)"
  by (simp_all add: TIMER0_OVF_vect_def Let_def guard_timer_guard)

lemma unguarded_stays: "\<not> tp_guard s \<Longrightarrow> \<not> tp_guard (fold TIMER0_OVF_vect rs s)"
  by (induction rs arbitrary: s) (simp_all add: TIMER0_guard(2))

lemma guard_runs_out:
  "tp_guard s \<Longrightarrow> 2 \<le> unat (tpguard s) \<Longrightarrow>
   tp_guard (fold TIMER0_OVF_vect rs s) \<longleftrightarrow> length rs < unat (tpguard s) - 1"
proof (induction rs arbitrary: s)
  case Nil
  then show ?case by simp
next
  case (Cons r rs)
  let ?s = "TIMER0_OVF_vect r s"
  have "tpguard s \<noteq> 0" using Cons.prems(2) by auto
  then have g: "unat (tpguard ?s) = unat (tpguard s) - 1"
    by (simp add: TIMER0_guard(1) unat_pred)
  show ?case
  proof (cases "unat (tpguard s) = 2")
    case True
    then have "unat (tpguard ?s) = unat (1 :: u8)" using g by simp
    then have "tpguard ?s = 1" by (rule word_unat_eq_iff [THEN iffD2])
    then have "\<not> tp_guard ?s" by (simp add: TIMER0_guard(2))
    then show ?thesis using True unguarded_stays [of ?s rs] by simp
  next
    case False
    then have "2 \<le> unat (tpguard ?s)" using g Cons.prems(2) by simp
    moreover from this have "tpguard ?s \<noteq> 1" by auto
    then have "tp_guard ?s" using Cons.prems(1) by (simp add: TIMER0_guard(2))
    ultimately show ?thesis using Cons.IH [of ?s] g Cons.prems(2) by auto
  qed
qed

section \<open>The button ladder\<close>

text \<open>What a reading of the ladder means.\<close>

definition ladder :: "u8 \<Rightarrow> u8" where
  "ladder v = (if v < 0xe8
     then if v > 0xa0 then MOUSE_RIGTH else if v > 0x80 then MOUSE_LEFT else MOUSE_MIDDLE else 0)"

lemma ADC_cases:
  "mouse (ADC_vect v s) = (if ucast v = oldbutton s then ladder v else mouse s)"
  "oldbutton (ADC_vect v s) = ucast v"
  by (simp_all add: ADC_vect_def ladder_def Let_def)

section \<open>Properties\<close>

text \<open>
  In every run of the pointing half, whatever the interrupts deliver and in whatever order: the
  speed limit never exceeds 128, the guard is never set without a counter that will release it,
  and every report has only the three buttons and at most one step of the wheel. The counter
  \<open>time_pressed\<close> is always 0, so the test that a tap must be short never refuses one.
\<close>

theorem touchpad_invariant:
  assumes "tp_run es (touchpad_init, []) = (s, rs)"
  shows "time_pressed s = 0 \<and> unat (speedlimit s) \<le> 128 \<and>
    (tp_guard s \<longrightarrow> 2 \<le> unat (tpguard s) \<and> unat (tpguard s) \<le> 20) \<and>
    mouse s \<in> {0, MOUSE_LEFT, MOUSE_RIGTH, MOUSE_MIDDLE} \<and> list_all report_ok rs"
  using inv_tp_run [of "(touchpad_init, [])" es] assms tp_inv_init
  by (auto simp: tp_inv_def tp_core_def speed_ok_le)

theorem touchpad_invariant_witness:
  "let (s, rs) = tp_run [Adc 0x90, Adc 0x90, Key_pressed, Mouse_report] (touchpad_init, [])
   in tp_guard s \<and> 2 \<le> unat (tpguard s) \<and> rs = [\<lparr>Button = MOUSE_LEFT, X = 0, Y = 0, Wheel = 0\<rparr>] \<and>
      list_all report_ok rs"
proof -
  define c where "c = tp_run [Adc 0x90, Adc 0x90, Key_pressed, Mouse_report] (touchpad_init, [])"
  have c: "tp_guard (fst c) \<and> snd c = [\<lparr>Button = MOUSE_LEFT, X = 0, Y = 0, Wheel = 0\<rparr>]"
    by (simp add: c_def tp_run_def ADC_vect_def touchpad_init_def tp_guarder_def CreateMouseReport_def Let_def)
  have "tp_run [Adc 0x90, Adc 0x90, Key_pressed, Mouse_report] (touchpad_init, []) = (fst c, snd c)"
    by (simp add: c_def)
  from touchpad_invariant [OF this] show ?thesis
    using c unfolding c_def [symmetric] by (simp add: case_prod_beta)
qed

text \<open>
  C20. A tap makes exactly one click: when the finger is lifted near the place where it was put
  down, and the pad was left alone before, the reports carry no button while seven timer ticks
  pass, whatever else happens without a touch; the first report after the eighth tick
  carries the left button, or the right one if two fingers were seen, and the next report
  releases it.
\<close>

theorem tap_clicks_once:
  assumes "ActionSend s" "tpdata s 2 = 0" "lastfingers s \<noteq> 0" "time_zero s > PRETAP" "time_pressed s = 0"
    and "sint (abs16 (startposX s + startposY s - posx1 s - posy1 s)) < 10"
    and "MR_B s = 0" "mouse s = 0"
    and "list_all quiet es" "timers es = 7" "quiet_read r"
    and "b = (if time_two s \<noteq> 0 then MOUSE_RIGTH else MOUSE_LEFT)"
  shows "\<exists>rs r1 r2. snd (tp_run (Mouse_report # es @ [Timer r, Mouse_report, Mouse_report]) (s, [])) = rs @ [r1, r2] \<and>
    list_all (\<lambda>r. Button r = 0) rs \<and> Button r1 = b \<and> Button r2 = 0"
proof -
  have s1: "pending b 0 (fst (CreateMouseReport s))" "Button (snd (CreateMouseReport s)) = 0"
    using assms(1-8,12)
    by (simp_all add: pending_def CreateMouseReport_def touch_action_def fingers_none_def Let_def
        posx1_def posy1_def CLICK_MS_def)
  obtain s2 rs2 where run: "tp_run es (fst (CreateMouseReport s), [snd (CreateMouseReport s)]) = (s2, rs2)"
    by (cases "tp_run es (fst (CreateMouseReport s), [snd (CreateMouseReport s)])")
  then have s2: "pending b 7 s2" "list_all (\<lambda>r. Button r = 0) rs2"
    using pending_run [OF s1(1) assms(9), of "[snd (CreateMouseReport s)]"] s1(2) assms(10) by auto
  define s3 where "s3 = TIMER0_OVF_vect r s2"
  have s3: "MR_B s3 = b" "mouse s3 = 0"
    using TIMER0_pending(2) [OF s2(1) _ assms(11)] by (simp_all add: s3_def)
  define s4 where "s4 = fst (CreateMouseReport s3)"
  have "tp_run (Mouse_report # es @ [Timer r, Mouse_report, Mouse_report]) (s, [])
      = tp_run [Timer r, Mouse_report, Mouse_report] (s2, rs2)"
    using run by (simp add: tp_run_def case_prod_beta Let_def)
  also have "\<dots> = (fst (CreateMouseReport s4), rs2 @ [snd (CreateMouseReport s3), snd (CreateMouseReport s4)])"
    by (simp add: tp_run_def s3_def [symmetric] s4_def case_prod_beta Let_def)
  finally show ?thesis
    using s2(2) s3 by (auto simp: s4_def report_button)
qed

definition sample_tap :: touchpad where
  "sample_tap = touchpad_init\<lparr>ActionSend := True, lastfingers := 1, time_zero := 10, startposX := 3, startposY := 4\<rparr>"

theorem tap_clicks_once_witness:
  "\<exists>rs r1 r2. snd (tp_run (Mouse_report # replicate 7 (Timer None) @ [Timer None, Mouse_report, Mouse_report])
       (sample_tap, [])) = rs @ [r1, r2] \<and>
    list_all (\<lambda>r. Button r = 0) rs \<and> Button r1 = MOUSE_LEFT \<and> Button r2 = 0"
proof -
  have "timers (replicate n (Timer None)) = n" "list_all quiet (replicate n (Timer None))" for n
    by (induction n) simp_all
  then show ?thesis
    by (intro tap_clicks_once) (simp_all add: sample_tap_def touchpad_init_def PRETAP_def posx1_def posy1_def abs16_def)
qed

text \<open>
  C29. While one finger stays on the pad, the pointer follows it: each report moves by the finger's
  movement, cut to the speed limit, with the right sign, as long as the limit has not reached 128
  and the movement is not the one value without a negative counterpart.
\<close>

theorem pointer_follows_finger:
  assumes "ActionSend s" "tpdata s 2 = 1" "lastfingers s = 1" "lastposX s \<noteq> 0"
    and "speedlimit s < 0x80" "dx = sint (posx1 s - lastposX s)" "dy = sint (posy1 s - lastposY s)"
    and "dx \<noteq> - 32768" "dy \<noteq> - 32768"
  shows "sint (X (snd (CreateMouseReport s))) = max (- uint (speedlimit s)) (min (uint (speedlimit s)) dx) \<and>
    sint (Y (snd (CreateMouseReport s))) = max (- uint (speedlimit s)) (min (uint (speedlimit s)) dy)"
proof -
  have l: "uint (speedlimit s) \<le> 127" using assms(5) by (simp add: word_less_def)
  have narrow: "sint (ucast (limited (speedlimit s) v) :: u8) = max (- uint (speedlimit s)) (min (uint (speedlimit s)) (sint v))"
    if "sint v \<noteq> - 32768" for v
    using clamp_range [OF uint_range8(1) l, of "sint v"]
    unfolding sint_limited [OF that, symmetric] by (intro sint_narrow) simp_all
  show ?thesis
    using narrow assms(6-9) by (simp add: report_moving [OF assms(1-4)])
qed

definition sample_move :: touchpad where
  "sample_move = touchpad_init\<lparr>ActionSend := True, lastfingers := 1, speedlimit := 40,
     lastposX := 100, lastposY := 100, tpdata := (\<lambda>_. 0)(2 := 1, 4 := 90, 6 := 200)\<rparr>"

theorem pointer_follows_finger_witness:
  "sint (X (snd (CreateMouseReport sample_move))) = - 10 \<and> sint (Y (snd (CreateMouseReport sample_move))) = 40"
proof -
  have st: "ActionSend sample_move" "tpdata sample_move 2 = 1" "lastfingers sample_move = 1"
      "lastposX sample_move \<noteq> 0" "speedlimit sample_move < 0x80" "uint (speedlimit sample_move) = 40"
    by (simp_all add: sample_move_def)
  have "- 10 = sint (posx1 sample_move - lastposX sample_move)" "100 = sint (posy1 sample_move - lastposY sample_move)"
    by (simp_all add: sample_move_def posx1_def posy1_def)
  from pointer_follows_finger [OF st(1-5) this] show ?thesis unfolding st(6) by simp
qed

text \<open>A finger that rests, and then moves fast to the right.\<close>

definition touch_at :: "u8 \<Rightarrow> u8 \<Rightarrow> tp_event" where
  "touch_at hi lo = Touch_interrupt (Some [1, 0, 1, hi, lo, 0, 50])"

definition resting :: "nat \<Rightarrow> touchpad \<Rightarrow> bool" where
  "resting k s \<longleftrightarrow> lastfingers s = 1 \<and> lastposX s = 100 \<and> speedlimit s = word_of_nat (4 * k) \<and>
     \<not> TouchPadLocked s \<and> \<not> tp_guard s"

lemma blit_7: "blit f 0 [a, b, c, d, e, g, h] = f(0 := a, 1 := b, 2 := c, 3 := d, 4 := e, 5 := g, 6 := h)"
  by (simp add: blit_Cons numeral_eq_Suc)

lemma resting_first:
  "resting 1 (fst (tp_run [touch_at 0 100, Mouse_report] (touchpad_init, [])))"
  by (simp add: tp_run_def touch_at_def INT2_vect_def read_touchpad_def blit_7 touchpad_init_def
      CreateMouseReport_def touch_action_def fingers_one_def posx1_def resting_def case_prod_beta Let_def)

lemma resting_step:
  assumes "resting k s" "k < 32"
  shows "resting (Suc k) (fst (tp_run [touch_at 0 100, Mouse_report] (s, rs)))"
proof -
  have "unat (word_of_nat (4 * k) :: u8) \<noteq> unat (0x80 :: u8)"
    using assms(2) by (simp add: unat_of_nat del: of_nat_mult)
  then have "(word_of_nat (4 * k) :: u8) \<noteq> 0x80" by auto
  then show ?thesis
    using assms(1)
    by (simp add: tp_run_def touch_at_def INT2_vect_def read_touchpad_def blit_7
      CreateMouseReport_def touch_action_def fingers_one_def posx1_def resting_def case_prod_beta Let_def)
qed

primrec rests :: "nat \<Rightarrow> tp_event list" where
  "rests 0 = []"
| "rests (Suc n) = rests n @ [touch_at 0 100, Mouse_report]"

lemma tp_run_append: "tp_run (as @ bs) c = tp_run bs (tp_run as c)"
  by (simp add: tp_run_def)

lemma resting_run: "n < 32 \<Longrightarrow> resting (Suc n) (fst (tp_run (rests (Suc n)) (touchpad_init, [])))"
proof (induction n)
  case 0
  then show ?case using resting_first by simp
next
  case (Suc n)
  obtain s rs where s: "tp_run (rests (Suc n)) (touchpad_init, []) = (s, rs)"
    by (cases "tp_run (rests (Suc n)) (touchpad_init, [])")
  then have "resting (Suc (Suc n)) (fst (tp_run [touch_at 0 100, Mouse_report] (s, rs)))"
    using Suc by (intro resting_step) simp_all
  then show ?case using s by (simp only: rests.simps(2) [of "Suc n"] tp_run_append)
qed

lemma limited_128: "128 \<le> sint v \<Longrightarrow> ucast (limited 0x80 v) = (0x80 :: u8)"
proof (cases "sint v = 128")
  case True
  have "v = word_of_int (sint v)" by simp
  then have "v = 128" unfolding True by simp
  then show ?thesis by (simp add: limited_def)
qed (auto simp: limited_def sint_limit)

lemma fast_report:
  assumes "resting 32 s"
  shows "\<exists>r. snd (tp_run [touch_at 1 44, Mouse_report] (s, rs)) = rs @ [r] \<and> X r = 0x80"
proof -
  define s1 where "s1 = INT2_vect (Some [1, 0, 1, 1, 44, 0, 50]) s"
  have s1: "ActionSend s1" "tpdata s1 2 = 1" "lastfingers s1 = 1" "lastposX s1 = 100" "speedlimit s1 = 0x80"
      "posx1 s1 = 300"
    using assms by (simp_all add: s1_def INT2_vect_def read_touchpad_def blit_7 resting_def posx1_def Let_def)
  have "X (snd (CreateMouseReport s1)) = ucast (limited 0x80 200)"
    using s1 by (subst report_moving) simp_all
  also have "\<dots> = (0x80 :: u8)" by (rule limited_128) simp
  finally show ?thesis
    by (simp add: tp_run_def touch_at_def s1_def [symmetric] case_prod_beta Let_def)
qed

text \<open>
  When the limit is 128, which thirty-three reports with one finger reach, a movement of 128
  or more to the right is cut to 128, and this is -128 in the report: the pointer jumps to the
  left.
\<close>

theorem fast_finger_moves_backwards:
  "\<exists>r rs. snd (tp_run (rests 32 @ [touch_at 1 44, Mouse_report]) (touchpad_init, [])) = rs @ [r] \<and>
     lastposX (fst (tp_run (rests 32) (touchpad_init, []))) = 100 \<and> sint (X r) = - 128"
proof -
  obtain s rs where s: "tp_run (rests 32) (touchpad_init, []) = (s, rs)"
    by (cases "tp_run (rests 32) (touchpad_init, [])")
  have "resting 32 s" using resting_run [of 31] s by simp
  then obtain r where "snd (tp_run [touch_at 1 44, Mouse_report] (s, rs)) = rs @ [r]" "X r = 0x80" "lastposX s = 100"
    using fast_report by (auto simp: resting_def)
  then show ?thesis unfolding tp_run_append s by auto
qed

text \<open>
  Two fingers turn the wheel by one step, down or up, exactly when they moved by more than five
  positions since the last report, and never move the pointer.
\<close>

theorem two_fingers_scroll:
  assumes "ActionSend s" "tpdata s 2 = 2" "lastfingers s = 2"
    and "unat (posy1 s) < 65531" "unat (lastposY s) < 65531"
  shows "X (snd (CreateMouseReport s)) = 0 \<and> Y (snd (CreateMouseReport s)) = 0 \<and>
    sint (Wheel (snd (CreateMouseReport s))) =
      (if unat (lastposY s) > unat (posy1 s) + 5 then 1 else if unat (posy1 s) > unat (lastposY s) + 5 then - 1 else 0)"
proof -
  have add5: "unat (w + 5) = unat w + 5" if "unat w < 65531" for w :: u16
    using that by (simp add: unat_word_ariths)
  show ?thesis
    unfolding report_scrolling [OF assms(1-3)]
    using assms(4,5) by (simp add: DRAG_HYST_def WHEEL_def word_less_nat_alt add5)
qed

theorem two_fingers_scroll_witness:
  "sint (Wheel (snd (CreateMouseReport (sample_move\<lparr>lastfingers := 2, tpdata := (\<lambda>_. 0)(2 := 2, 6 := 90)\<rparr>)))) = 1"
proof -
  let ?s = "sample_move\<lparr>lastfingers := 2, tpdata := (\<lambda>_. 0)(2 := 2, 6 := 90)\<rparr>"
  have "posy1 ?s = 90" "lastposY ?s = 100" by (simp_all add: posy1_def sample_move_def)
  then show ?thesis using two_fingers_scroll [of ?s] by (simp add: sample_move_def)
qed

text \<open>
  After a key press the touch pad is ignored until the timer has ticked 19 times, whatever the
  touch pad delivers, and not longer.
\<close>

theorem guard_lasts_19_ticks:
  "tp_guard (fold TIMER0_OVF_vect rs (tp_guarder s)) \<longleftrightarrow> length rs < 19"
proof -
  have "tp_guard (tp_guarder s)" "unat (tpguard (tp_guarder s)) = 20"
    by (simp_all add: tp_guarder_def TP_LOCK_def)
  then show ?thesis using guard_runs_out [of "tp_guarder s" rs] by simp
qed

text \<open>
  The button ladder is debounced: one reading that differs from the one before changes no
  button, a reading that is repeated sets the button it stands for.
\<close>

theorem ladder_needs_two_readings:
  "mouse (ADC_vect v (ADC_vect v s)) = ladder v \<and>
   (if oldbutton s = ucast v then mouse (ADC_vect v s) = ladder v else mouse (ADC_vect v s) = mouse s)"
  by (simp add: ADC_cases)

end
