(* ===== verification/Descriptors.thy ===== *)
theory Descriptors
  imports HidReports Touchpad
begin

text \<open>
  The USB descriptors of the keyboard firmware (\<open>TERES-HID/Descriptors.c\<close> and \<open>Descriptors.h\<close>): the
  report descriptor of the touch pad, the device and configuration descriptors, and the callback that
  hands them to the library; and the configuration of LUFA's HID driver in \<open>KeyboardMouse.c\<close>. What
  LUFA defines (numbers of descriptor types, sizes of its structures, classes, the macro for strings
  and the report descriptor of a keyboard) is the parameter \<open>L\<close>.
\<close>

section \<open>What LUFA provides\<close>

record lufa =
  DTYPE_Device :: u8
  DTYPE_Configuration :: u8
  DTYPE_String :: u8
  HID_DTYPE_HID :: u8
  HID_DTYPE_Report :: u8
  DTYPE_Interface :: u8
  DTYPE_Endpoint :: u8
  sizeof_Device :: nat
  sizeof_Configuration_Header :: nat
  sizeof_Interface :: nat
  sizeof_HID :: nat
  sizeof_Endpoint :: nat
  sizeof_KeyboardReport :: nat
  ENDPOINT_DIR_IN :: u8
  HID_DESCRIPTOR_KEYBOARD :: "nat \<Rightarrow> hid_item list"
  USB_STRING_DESCRIPTOR :: "string \<Rightarrow> u8 list"
  LANGUAGE_DESCRIPTOR :: "u8 list"
  USE_INTERNAL_SERIAL :: u8
  HID_CSCP_HIDClass :: u8
  HID_CSCP_NonBootSubclass :: u8
  HID_CSCP_BootSubclass :: u8
  HID_CSCP_KeyboardBootProtocol :: u8
  HID_CSCP_MouseBootProtocol :: u8
  HID_CSCP_NonBootProtocol :: u8
  USB_CONFIG_ATTR_RESERVED :: u8
  USB_CONFIG_ATTR_SELFPOWERED :: u8
  EP_TYPE_INTERRUPT :: u8
  ENDPOINT_ATTR_NO_SYNC :: u8
  ENDPOINT_USAGE_DATA :: u8
  USB_CONFIG_POWER_MA :: "nat \<Rightarrow> u8"

text \<open>
  What its documentation promises: different types, a direction that is not part of the endpoint number
  (the low four bits of an address), a keyboard report of the modifiers, a reserved byte and six key codes,
  and strings whose first byte is their size.
\<close>

definition documented :: "lufa \<Rightarrow> bool" where
  "documented L \<longleftrightarrow>
     distinct [DTYPE_Device L, DTYPE_Configuration L, DTYPE_String L, HID_DTYPE_HID L, HID_DTYPE_Report L] \<and>
     ENDPOINT_DIR_IN L AND 0x0F = 0 \<and> sizeof_KeyboardReport L = 1 + 1 + 6 \<and>
     (\<forall>s \<in> {USB_STRING_DESCRIPTOR L ''Olimex Ltd.'', USB_STRING_DESCRIPTOR L ''TERES Keyboard+Touchpad'', LANGUAGE_DESCRIPTOR L}.
        s \<noteq> [] \<and> unat (hd s) = length s)"

section \<open>Structures\<close>

record device_descriptor =
  USBSpecification :: "nat \<times> nat \<times> nat"
  Endpoint0Size :: u8
  VendorID :: u16
  ProductID :: u16
  ReleaseNumber :: "nat \<times> nat \<times> nat"
  ManufacturerStrIndex :: u8
  ProductStrIndex :: u8
  SerialNumStrIndex :: u8
  NumberOfConfigurations :: u8

record interface_descriptor =
  InterfaceNumber :: u8
  AlternateSetting :: u8
  TotalEndpoints :: u8
  Class :: u8
  SubClass :: u8
  Protocol :: u8
  InterfaceStrIndex :: u8

record hid_descriptor =
  HIDSpec :: "nat \<times> nat \<times> nat"
  CountryCode :: u8
  TotalReportDescriptors :: u8
  HIDReportType :: u8
  HIDReportLength :: nat

record endpoint_descriptor =
  EndpointAddress :: u8
  Attributes :: u8
  EndpointSize :: nat
  PollingIntervalMS :: u8

record configuration_header =
  TotalConfigurationSize :: nat
  TotalInterfaces :: u8
  ConfigurationNumber :: u8
  ConfigurationStrIndex :: u8
  ConfigAttributes :: u8
  MaxPowerConsumption :: u8

text \<open>\<open>NO_DESCRIPTOR\<close> is 0 in LUFA, as a string index and as the size of an answer.\<close>

definition NO_DESCRIPTOR :: u8 where "NO_DESCRIPTOR = 0"

record configuration =
  Config :: configuration_header
  HID1_KeyboardInterface :: interface_descriptor
  HID1_KeyboardHID :: hid_descriptor
  HID1_ReportINEndpoint :: endpoint_descriptor
  HID2_MouseInterface :: interface_descriptor
  HID2_MouseHID :: hid_descriptor
  HID2_ReportINEndpoint :: endpoint_descriptor

definition sizeof_Configuration :: "lufa \<Rightarrow> nat" where
  "sizeof_Configuration L = sizeof_Configuration_Header L +
     sizeof_Interface L + sizeof_HID L + sizeof_Endpoint L +
     sizeof_Interface L + sizeof_HID L + sizeof_Endpoint L"

definition INTERFACE_ID_Keyboard :: u16 where "INTERFACE_ID_Keyboard = 0"
definition INTERFACE_ID_Mouse :: u16 where "INTERFACE_ID_Mouse = 1"

definition STRING_ID_Language :: u8 where "STRING_ID_Language = 0"
definition STRING_ID_Manufacturer :: u8 where "STRING_ID_Manufacturer = 1"
definition STRING_ID_Product :: u8 where "STRING_ID_Product = 2"

definition KEYBOARD_IN_EPADDR :: "lufa \<Rightarrow> u8" where "KEYBOARD_IN_EPADDR L = ENDPOINT_DIR_IN L OR 5"
definition MOUSE_IN_EPADDR :: "lufa \<Rightarrow> u8" where "MOUSE_IN_EPADDR L = ENDPOINT_DIR_IN L OR 1"
definition HID_EPSIZE :: nat where "HID_EPSIZE = 8"
definition FIXED_CONTROL_ENDPOINT_SIZE :: u8 where "FIXED_CONTROL_ENDPOINT_SIZE = 8"
definition FIXED_NUM_CONFIGURATIONS :: u8 where "FIXED_NUM_CONFIGURATIONS = 1"

section \<open>Report descriptors\<close>

definition HID_DESCRIPTOR_WHEEL_MOUSE :: "int \<Rightarrow> int \<Rightarrow> int \<Rightarrow> int \<Rightarrow> int \<Rightarrow> bool \<Rightarrow> hid_item list" where
  "HID_DESCRIPTOR_WHEEL_MOUSE MinAxisVal MaxAxisVal MinPhysicalVal MaxPhysicalVal Buttons AbsoluteCoords = [
     HID_RI_USAGE_PAGE 8 0x01,
     HID_RI_USAGE 8 0x02,
     HID_RI_COLLECTION 8 0x01,
       HID_RI_USAGE 8 0x01,
       HID_RI_COLLECTION 8 0x00,
         HID_RI_USAGE_PAGE 8 0x09,
         HID_RI_USAGE_MINIMUM 8 0x01,
         HID_RI_USAGE_MAXIMUM 8 Buttons,
         HID_RI_LOGICAL_MINIMUM 8 0x00,
         HID_RI_LOGICAL_MAXIMUM 8 0x01,
         HID_RI_REPORT_COUNT 8 Buttons,
         HID_RI_REPORT_SIZE 8 0x01,
         HID_RI_INPUT 8 [HID_IOF_DATA, HID_IOF_VARIABLE, HID_IOF_ABSOLUTE],
         HID_RI_REPORT_COUNT 8 0x01,
         HID_RI_REPORT_SIZE 8 (if Buttons mod 8 \<noteq> 0 then 8 - Buttons mod 8 else 0),
         HID_RI_INPUT 8 [HID_IOF_CONSTANT],
         HID_RI_USAGE_PAGE 8 0x01,
         HID_RI_USAGE 8 0x30,
         HID_RI_USAGE 8 0x31,
         HID_RI_LOGICAL_MINIMUM 16 MinAxisVal,
         HID_RI_LOGICAL_MAXIMUM 16 MaxAxisVal,
         HID_RI_PHYSICAL_MINIMUM 16 MinPhysicalVal,
         HID_RI_PHYSICAL_MAXIMUM 16 MaxPhysicalVal,
         HID_RI_REPORT_COUNT 8 0x02,
         HID_RI_REPORT_SIZE 8 (if MinAxisVal \<ge> -128 \<and> MaxAxisVal \<le> 127 then 8 else 16),
         HID_RI_INPUT 8 [HID_IOF_DATA, HID_IOF_VARIABLE, if AbsoluteCoords then HID_IOF_ABSOLUTE else HID_IOF_RELATIVE],
         HID_RI_USAGE 8 0x38,
         HID_RI_LOGICAL_MINIMUM 8 (-127),
         HID_RI_LOGICAL_MAXIMUM 8 127,
         HID_RI_PHYSICAL_MINIMUM 8 (-1),
         HID_RI_PHYSICAL_MAXIMUM 8 1,
         HID_RI_REPORT_SIZE 8 0x08,
         HID_RI_INPUT 8 [HID_IOF_DATA, HID_IOF_VARIABLE, HID_IOF_RELATIVE],
       HID_RI_END_COLLECTION 0,
     HID_RI_END_COLLECTION 0]"

definition MouseReport :: "hid_item list" where
  "MouseReport = HID_DESCRIPTOR_WHEEL_MOUSE (-100) 100 (-100) 100 3 False"

definition KeyboardReport :: "lufa \<Rightarrow> hid_item list" where
  "KeyboardReport L = HID_DESCRIPTOR_KEYBOARD L 6"

section \<open>Device and configuration\<close>

definition DeviceDescriptor :: "lufa \<Rightarrow> device_descriptor" where
  "DeviceDescriptor L = \<lparr>USBSpecification = (1, 1, 0), Endpoint0Size = FIXED_CONTROL_ENDPOINT_SIZE,
     VendorID = 0x15ba, ProductID = 0x003c, ReleaseNumber = (0, 0, 1),
     ManufacturerStrIndex = STRING_ID_Manufacturer, ProductStrIndex = STRING_ID_Product,
     SerialNumStrIndex = USE_INTERNAL_SERIAL L, NumberOfConfigurations = FIXED_NUM_CONFIGURATIONS\<rparr>"

definition ConfigurationDescriptor :: "lufa \<Rightarrow> configuration" where
  "ConfigurationDescriptor L =
   \<lparr>Config =
      \<lparr>TotalConfigurationSize = sizeof_Configuration L,
       TotalInterfaces = 2,
       ConfigurationNumber = 1,
       ConfigurationStrIndex = NO_DESCRIPTOR,
       ConfigAttributes = USB_CONFIG_ATTR_RESERVED L OR USB_CONFIG_ATTR_SELFPOWERED L,
       MaxPowerConsumption = USB_CONFIG_POWER_MA L 100\<rparr>,
    HID1_KeyboardInterface =
      \<lparr>InterfaceNumber = ucast INTERFACE_ID_Keyboard,
       AlternateSetting = 0x00,
       TotalEndpoints = 1,
       Class = HID_CSCP_HIDClass L,
       SubClass = HID_CSCP_BootSubclass L,
       Protocol = HID_CSCP_KeyboardBootProtocol L,
       InterfaceStrIndex = NO_DESCRIPTOR\<rparr>,
    HID1_KeyboardHID =
      \<lparr>HIDSpec = (1, 1, 1),
       CountryCode = 0x00,
       TotalReportDescriptors = 1,
       HIDReportType = HID_DTYPE_Report L,
       HIDReportLength = report_size (KeyboardReport L)\<rparr>,
    HID1_ReportINEndpoint =
      \<lparr>EndpointAddress = KEYBOARD_IN_EPADDR L,
       Attributes = EP_TYPE_INTERRUPT L OR ENDPOINT_ATTR_NO_SYNC L OR ENDPOINT_USAGE_DATA L,
       EndpointSize = HID_EPSIZE,
       PollingIntervalMS = 0x05\<rparr>,
    HID2_MouseInterface =
      \<lparr>InterfaceNumber = ucast INTERFACE_ID_Mouse,
       AlternateSetting = 0x00,
       TotalEndpoints = 1,
       Class = HID_CSCP_HIDClass L,
       SubClass = HID_CSCP_BootSubclass L,
       Protocol = HID_CSCP_MouseBootProtocol L,
       InterfaceStrIndex = NO_DESCRIPTOR\<rparr>,
    HID2_MouseHID =
      \<lparr>HIDSpec = (1, 1, 1),
       CountryCode = 0x00,
       TotalReportDescriptors = 1,
       HIDReportType = HID_DTYPE_Report L,
       HIDReportLength = report_size MouseReport\<rparr>,
    HID2_ReportINEndpoint =
      \<lparr>EndpointAddress = MOUSE_IN_EPADDR L,
       Attributes = EP_TYPE_INTERRUPT L OR ENDPOINT_ATTR_NO_SYNC L OR ENDPOINT_USAGE_DATA L,
       EndpointSize = HID_EPSIZE,
       PollingIntervalMS = 0x05\<rparr>\<rparr>"

definition LanguageString :: "lufa \<Rightarrow> u8 list" where
  "LanguageString L = LANGUAGE_DESCRIPTOR L"

definition ManufacturerString :: "lufa \<Rightarrow> u8 list" where
  "ManufacturerString L = USB_STRING_DESCRIPTOR L ''Olimex Ltd.''"

definition ProductString :: "lufa \<Rightarrow> u8 list" where
  "ProductString L = USB_STRING_DESCRIPTOR L ''TERES Keyboard+Touchpad''"

text \<open>What the address of an answer points to; \<open>None\<close> is the null pointer.\<close>

datatype served =
    Device device_descriptor
  | Configuration configuration
  | String "u8 list"
  | Hid hid_descriptor
  | Report "hid_item list"

definition CALLBACK_USB_GetDescriptor :: "lufa \<Rightarrow> u16 \<Rightarrow> u16 \<Rightarrow> nat \<times> served option" where
  "CALLBACK_USB_GetDescriptor L wValue wIndex =
     (let DescriptorType = ucast (drop_bit 8 wValue); DescriptorNumber = ucast (wValue AND 0xFF); no = unat NO_DESCRIPTOR in
      if DescriptorType = DTYPE_Device L then (sizeof_Device L, Some (Device (DeviceDescriptor L)))
      else if DescriptorType = DTYPE_Configuration L
      then (sizeof_Configuration L, Some (Configuration (ConfigurationDescriptor L)))
      else if DescriptorType = DTYPE_String L
      then if DescriptorNumber = STRING_ID_Language then (unat (hd (LanguageString L)), Some (String (LanguageString L)))
           else if DescriptorNumber = STRING_ID_Manufacturer
           then (unat (hd (ManufacturerString L)), Some (String (ManufacturerString L)))
           else if DescriptorNumber = STRING_ID_Product then (unat (hd (ProductString L)), Some (String (ProductString L)))
           else (no, None)
      else if DescriptorType = HID_DTYPE_HID L
      then if wIndex = INTERFACE_ID_Keyboard then (sizeof_HID L, Some (Hid (HID1_KeyboardHID (ConfigurationDescriptor L))))
           else if wIndex = INTERFACE_ID_Mouse then (sizeof_HID L, Some (Hid (HID2_MouseHID (ConfigurationDescriptor L))))
           else (no, None)
      else if DescriptorType = HID_DTYPE_Report L
      then if wIndex = INTERFACE_ID_Keyboard then (report_size (KeyboardReport L), Some (Report (KeyboardReport L)))
           else if wIndex = INTERFACE_ID_Mouse then (report_size MouseReport, Some (Report MouseReport))
           else (no, None)
      else (no, None))"

section \<open>The HID class driver\<close>

text \<open>\<open>KeyboardMouse.c\<close>: what LUFA's driver is told about the two interfaces.\<close>

record hid_interface =
  interface_number :: u16
  in_address :: u8
  in_size :: nat
  banks :: nat
  previous_size :: nat

text \<open>The packed bytes of \<open>USB_WheelMouseReport_Data_t\<close>; the keyboard report is a structure of LUFA's.\<close>

definition mouse_report_bytes :: "mouse_report \<Rightarrow> u8 list" where
  "mouse_report_bytes r = [Button r, X r, Y r, Wheel r]"

definition sizeof_WheelMouseReport :: nat where
  "sizeof_WheelMouseReport = 4"

definition Keyboard_HID_Interface :: "lufa \<Rightarrow> hid_interface" where
  "Keyboard_HID_Interface L = \<lparr>interface_number = INTERFACE_ID_Keyboard, in_address = KEYBOARD_IN_EPADDR L, in_size = HID_EPSIZE,
     banks = 1, previous_size = sizeof_KeyboardReport L\<rparr>"

definition Mouse_HID_Interface :: "lufa \<Rightarrow> hid_interface" where
  "Mouse_HID_Interface L = \<lparr>interface_number = INTERFACE_ID_Mouse, in_address = MOUSE_IN_EPADDR L, in_size = HID_EPSIZE,
     banks = 1, previous_size = sizeof_WheelMouseReport\<rparr>"

section \<open>The fields of the mouse report\<close>

definition button_field :: "int \<Rightarrow> hid_field" where
  "button_field k = \<lparr>to_host = True, is_constant = False, relative = False, usage = Some (9, k), bits = 1, low = 0, high = 1\<rparr>"

definition padding_field :: hid_field where
  "padding_field = \<lparr>to_host = True, is_constant = True, relative = False, usage = None, bits = 5, low = 0, high = 1\<rparr>"

definition axis_field :: "int \<Rightarrow> int \<Rightarrow> hid_field" where
  "axis_field k m = \<lparr>to_host = True, is_constant = False, relative = True, usage = Some (1, k), bits = 8, low = - m, high = m\<rparr>"

lemma mouse_fields:
  "fields_of MouseReport = [button_field 1, button_field 2, button_field 3, padding_field,
     axis_field 0x30 100, axis_field 0x31 100, axis_field 0x38 127, axis_field 0x38 127]"
  by (simp add: fields_of_def MouseReport_def HID_DESCRIPTOR_WHEEL_MOUSE_def hid_start_def item_fields_def item_usage_def
    no_locals_def signed_value_def unsigned_value_def button_field_def padding_field_def axis_field_def upt_rec
    signed_take_bit_eq_take_bit_minus upto_rec1)

lemma read_axis:
  "k < length bs \<Longrightarrow> i = 8 * k \<Longrightarrow> 0 < m \<Longrightarrow> field_value (axis_field u m) i bs = Some (sint (bs ! k))"
  by (subst field_byte [of k]) (simp_all add: axis_field_def)

lemma read_button:
  assumes "bs \<noteq> []" "i < 8"
  shows "field_value (button_field u) i bs = Some (of_bool (bit (hd bs) i))"
proof -
  have "take_bit 1 (drop_bit i (uint (hd bs))) = of_bool (bit (uint (hd bs)) i)"
    by (simp add: take_bit_Suc drop_bit_eq_div bit_iff_odd mod_2_eq_odd)
  then show ?thesis
    using field_in_byte [of 0 bs i "button_field u" i] assms by (simp add: button_field_def hd_conv_nth bit_uint_iff)
qed

lemma read_padding:
  assumes "b AND 0xF8 = 0"
  shows "field_value padding_field 3 (b # bs) = Some 0"
proof -
  have "drop_bit 3 b = 0"
  proof (rule bit_word_eqI)
    fix n assume "n < LENGTH(8)"
    have "bit (0xF8 :: u8) (n + 3) \<or> 8 \<le> n + 3" using \<open>n < LENGTH(8)\<close>
      by (auto simp: less_Suc_eq numeral_eq_Suc)
    moreover have "\<not> bit (b AND 0xF8) (n + 3)" using assms by simp
    ultimately show "bit (drop_bit 3 b) n = bit 0 n"
      by (auto simp: bit_drop_bit_eq bit_and_iff add.commute dest: bit_imp_le_length)
  qed
  then have "drop_bit 3 (uint b) = 0" using unsigned_drop_bit_eq [of 3 b, where 'a = int] uint_lt2p [of b] by (simp add: take_bit_int_eq_self)
  then show ?thesis
    using field_in_byte [of 0 "b # bs" 3 padding_field 3] by (simp add: padding_field_def)
qed

lemma mouse_report_values:
  assumes "Button r AND 0xF8 = 0"
  shows "read_fields (fields_of MouseReport) 0 (mouse_report_bytes r) =
    [Some (of_bool (bit (Button r) 0)), Some (of_bool (bit (Button r) 1)), Some (of_bool (bit (Button r) 2)), Some 0,
     Some (sint (X r)), Some (sint (Y r)), Some (sint (Wheel r)), None]"
proof -
  have bits: "bits (button_field k) = 1" "bits padding_field = 5" "bits (axis_field k m) = 8" for k m
    by (simp_all add: button_field_def padding_field_def axis_field_def)
  have "field_value (axis_field 0x38 127) 32 (mouse_report_bytes r) = None"
    by (simp add: field_value_def bits mouse_report_bytes_def)
  then show ?thesis
    unfolding mouse_fields read_fields.simps bits
    using read_axis [of 1 "mouse_report_bytes r" 8 100] read_axis [of 2 "mouse_report_bytes r" 16 100]
      read_axis [of 3 "mouse_report_bytes r" 24 127] read_button [of "mouse_report_bytes r"]
      read_padding [OF assms]
    by (simp add: mouse_report_bytes_def numeral_2_eq_2 numeral_3_eq_3)
qed

text \<open>
  C12. What a host reads from the bytes of a mouse report, by the report descriptor the firmware gives
  it, are the three buttons and the movement and the wheel step the firmware put into it. But the
  descriptor declares an eighth field, a second wheel, which the four bytes of the report do not hold.
\<close>

theorem mouse_report_read:
  assumes "Button r AND 0xF8 = 0"
  shows "read_fields (fields_of MouseReport) 0 (mouse_report_bytes r) =
    [Some (of_bool (bit (Button r) 0)), Some (of_bool (bit (Button r) 1)), Some (of_bool (bit (Button r) 2)), Some 0,
     Some (sint (X r)), Some (sint (Y r)), Some (sint (Wheel r)), None]"
  using assms by (rule mouse_report_values)

lemma mouse_report_read_witness:
  "read_fields (fields_of MouseReport) 0 (mouse_report_bytes \<lparr>Button = 5, X = 10, Y = 0xF6, Wheel = 0xFF\<rparr>) =
    [Some 1, Some 0, Some 1, Some 0, Some 10, Some (- 10), Some (- 1), None]"
  using mouse_report_read [of "\<lparr>Button = 5, X = 10, Y = 0xF6, Wheel = 0xFF\<rparr>"] by (simp add: bit_numeral_rec)

section \<open>Reports inside the declared ranges\<close>

lemma limited_range:
  assumes "unat l \<le> 100"
  shows "\<bar>sint (ucast (limited l v) :: u8)\<bar> \<le> 100"
proof (cases "sint v = - 32768")
  case True
  have "v = word_of_int (sint v)" by simp
  then have "v = 0x8000" unfolding True by simp
  moreover have "\<not> uint l < - 32768" using uint_range8(1) [of l] by linarith
  ultimately show ?thesis by (simp add: limited_def abs16_def)
next
  case False
  have "uint l = int (unat l)" by (rule uint_nat)
  then have l: "0 \<le> uint l" "uint l \<le> 100" using assms by linarith+
  have range: "- 100 \<le> sint (limited l v)" "sint (limited l v) \<le> 100"
    unfolding sint_limited [OF False] using l by linarith+
  then have "sint (ucast (limited l v) :: u8) = sint (limited l v)" by (intro sint_narrow) linarith+
  then show ?thesis using range by linarith
qed

lemma moved_axes:
  assumes "MR_X s = 0" "MR_Y s = 0"
  shows "\<exists>v w. MR_X (touch_action s) = limited (speedlimit s) v \<and> MR_Y (touch_action s) = limited (speedlimit s) w"
proof -
  have zero: "limited l 0 = 0" for l using uint_range8(1) [of l] by (simp add: limited_def)
  have one: "\<exists>v w. MR_X (fingers_one s) = limited (speedlimit s) v \<and> MR_Y (fingers_one s) = limited (speedlimit s) w"
  proof (cases "lastfingers s = 1 \<and> lastposX s \<noteq> 0")
    case True
    then have "MR_X (fingers_one s) = limited (speedlimit s) (posx1 s - lastposX s)"
        "MR_Y (fingers_one s) = limited (speedlimit s) (posy1 s - lastposY s)"
      by (simp_all add: fingers_one_def Let_def posx1_def posy1_def)
    then show ?thesis by blast
  next
    case False
    then have "MR_X (fingers_one s) = 0" "MR_Y (fingers_one s) = 0" using assms by (auto simp: fingers_one_def Let_def)
    then show ?thesis using zero by metis
  qed
  have "MR_X (fingers_none s) = 0" "MR_Y (fingers_none s) = 0" "MR_X (fingers_two s) = 0" "MR_Y (fingers_two s) = 0"
      "MR_X (fingers_more s) = 0" "MR_Y (fingers_more s) = 0"
    using assms by (simp_all add: fingers_none_def fingers_two_def fingers_more_def Let_def)
  then have "MR_X (touch_action s) = MR_X (fingers_one s) \<and> MR_Y (touch_action s) = MR_Y (fingers_one s) \<or>
      MR_X (touch_action s) = 0 \<and> MR_Y (touch_action s) = 0"
    by (simp add: touch_action_def Let_def)
  then show ?thesis using one zero by metis
qed

lemma report_axes:
  assumes "unat (speedlimit s) \<le> 100"
  shows "\<bar>sint (X (snd (CreateMouseReport s)))\<bar> \<le> 100 \<and> \<bar>sint (Y (snd (CreateMouseReport s)))\<bar> \<le> 100"
proof -
  define s1 where "s1 = s\<lparr>MR_Y := 0, MR_X := 0, MR_W := 0, MR_B := MR_B s OR mouse s\<rparr>"
  have s1: "MR_X s1 = 0" "MR_Y s1 = 0" "speedlimit s1 = speedlimit s" by (simp_all add: s1_def)
  have "X (snd (CreateMouseReport s)) = (if ActionSend s1 then ucast (MR_X (touch_action s1)) else 0)"
      "Y (snd (CreateMouseReport s)) = (if ActionSend s1 then ucast (MR_Y (touch_action s1)) else 0)"
    using s1 by (simp_all add: CreateMouseReport_def s1_def [symmetric] Let_def)
  then show ?thesis
    using moved_axes [OF s1(1,2)] limited_range [OF assms] s1(3) by auto
qed

text \<open>
  C26. While the speed limit is at most 100, every report that the firmware makes in a run keeps all of its
  fields in the ranges of its report descriptor.
\<close>

theorem slow_reports_in_range:
  assumes "tp_run es (touchpad_init, []) = (s, rs)" "unat (speedlimit s) \<le> 100"
  shows "list_all2 in_range (take 7 (fields_of MouseReport))
    (take 7 (read_fields (fields_of MouseReport) 0 (mouse_report_bytes (snd (CreateMouseReport s)))))"
proof -
  have "tp_inv s" using inv_tp_run [of "(touchpad_init, [])" es] assms(1) tp_inv_init by simp
  then have ok: "report_ok (snd (CreateMouseReport s))" by (simp add: inv_CreateMouseReport)
  then have "\<bar>sint (Wheel (snd (CreateMouseReport s)))\<bar> \<le> 127" by (auto simp: report_ok_def WHEEL_def)
  moreover have button: "Button (snd (CreateMouseReport s)) AND 0xF8 = 0" using ok by (simp add: report_ok_def)
  ultimately show ?thesis
    using report_axes [OF assms(2)]
    unfolding mouse_report_values [OF button] unfolding mouse_fields
    by (simp add: in_range_def button_field_def padding_field_def axis_field_def abs_le_iff)
qed

lemma slow_reports_in_range_witness:
  "list_all2 in_range (take 7 (fields_of MouseReport))
    (take 7 (read_fields (fields_of MouseReport) 0 (mouse_report_bytes (snd (CreateMouseReport
      (fst (tp_run [Adc 0x90, Adc 0x90, Key_pressed, Mouse_report] (touchpad_init, []))))))))"
proof (rule slow_reports_in_range)
  let ?es = "[Adc 0x90, Adc 0x90, Key_pressed, Mouse_report]"
  show "tp_run ?es (touchpad_init, []) = (fst (tp_run ?es (touchpad_init, [])), snd (tp_run ?es (touchpad_init, [])))" by simp
  show "unat (speedlimit (fst (tp_run ?es (touchpad_init, [])))) \<le> 100"
    by (simp add: tp_run_def ADC_vect_def touchpad_init_def tp_guarder_def CreateMouseReport_def Let_def)
qed

section \<open>The descriptors fit each other\<close>


text \<open>The values of the USB and HID specifications, with strings in 16-bit characters.\<close>

definition standard_lufa :: lufa where
  "standard_lufa = \<lparr>DTYPE_Device = 1, DTYPE_Configuration = 2, DTYPE_String = 3, HID_DTYPE_HID = 0x21, HID_DTYPE_Report = 0x22,
     DTYPE_Interface = 4, DTYPE_Endpoint = 5, sizeof_Device = 18, sizeof_Configuration_Header = 9, sizeof_Interface = 9,
     sizeof_HID = 9, sizeof_Endpoint = 7, sizeof_KeyboardReport = 8, ENDPOINT_DIR_IN = 0x80,
     HID_DESCRIPTOR_KEYBOARD = (\<lambda>n. [HID_RI_USAGE_PAGE 8 1, HID_RI_USAGE 8 6, HID_RI_COLLECTION 8 1, HID_RI_END_COLLECTION 0]),
     USB_STRING_DESCRIPTOR = (\<lambda>s. [word_of_nat (2 + 2 * length s), 3] @ concat (map (\<lambda>c. [of_char c, 0]) s)),
     LANGUAGE_DESCRIPTOR = [4, 3, 9, 4], USE_INTERNAL_SERIAL = 0xDC,
     HID_CSCP_HIDClass = 3, HID_CSCP_NonBootSubclass = 0, HID_CSCP_BootSubclass = 1, HID_CSCP_KeyboardBootProtocol = 1,
     HID_CSCP_MouseBootProtocol = 2, HID_CSCP_NonBootProtocol = 0, USB_CONFIG_ATTR_RESERVED = 0x80,
     USB_CONFIG_ATTR_SELFPOWERED = 0x40, EP_TYPE_INTERRUPT = 3, ENDPOINT_ATTR_NO_SYNC = 0, ENDPOINT_USAGE_DATA = 0,
     USB_CONFIG_POWER_MA = (\<lambda>ma. word_of_nat (ma div 2))\<rparr>"


text \<open>
  A movement to the right after thirty-three reports with one finger leaves the range of the descriptor.
\<close>

theorem fast_report_out_of_range:
  "\<exists>es s r rs. tp_run es (touchpad_init, []) = (s, rs @ [r]) \<and>
     \<not> list_all2 in_range (take 7 (fields_of MouseReport)) (take 7 (read_fields (fields_of MouseReport) 0 (mouse_report_bytes r)))"
proof -
  obtain r rs where run: "snd (tp_run (rests 32 @ [touch_at 1 44, Mouse_report]) (touchpad_init, [])) = rs @ [r]" "sint (X r) = - 128"
    using fast_finger_moves_backwards by blast
  obtain s where s: "tp_run (rests 32 @ [touch_at 1 44, Mouse_report]) (touchpad_init, []) = (s, rs @ [r])"
    using run(1) by (metis prod.collapse)
  have "list_all report_ok (snd (tp_run (rests 32 @ [touch_at 1 44, Mouse_report]) (touchpad_init, [])))"
    using inv_tp_run [of "(touchpad_init, [])"] tp_inv_init by simp
  then have "report_ok r" by (simp add: s)
  then have button: "Button r AND 0xF8 = 0" by (simp add: report_ok_def)
  have "\<not> list_all2 in_range (take 7 (fields_of MouseReport)) (take 7 (read_fields (fields_of MouseReport) 0 (mouse_report_bytes r)))"
    unfolding mouse_report_values [OF button] unfolding mouse_fields
    by (simp add: in_range_def axis_field_def run(2))
  then show ?thesis using s by blast
qed

end
