(* ===== verification/BootDescriptors.thy ===== *)
theory BootDescriptors
  imports Descriptors Flashing
begin

text \<open>
  The USB descriptors of the bootloader (\<open>BootLoaderHID/Descriptors.c\<close> and \<open>Descriptors.h\<close>), and how
  they fit the reports of the firmware loader and the device it looks for.
\<close>

section \<open>Descriptors\<close>

definition INTERFACE_ID_Printer :: u8 where "INTERFACE_ID_Printer = 0"
definition HID_IN_EPADDR :: "lufa \<Rightarrow> u8" where "HID_IN_EPADDR L = ENDPOINT_DIR_IN L OR 1"
definition HID_IN_EPSIZE :: nat where "HID_IN_EPSIZE = 64"

definition HIDReport :: "nat \<Rightarrow> hid_item list" where
  "HIDReport SPM_PAGESIZE = [
     HID_RI_USAGE_PAGE 16 0xFFDC,
     HID_RI_USAGE 8 0xFB,
     HID_RI_COLLECTION 8 0x01,
       HID_RI_USAGE 8 0x02,
       HID_RI_LOGICAL_MINIMUM 8 0x00,
       HID_RI_LOGICAL_MAXIMUM 8 0xFF,
       HID_RI_REPORT_SIZE 8 0x08,
       HID_RI_REPORT_COUNT 16 (2 + int SPM_PAGESIZE),
       HID_RI_OUTPUT 8 [HID_IOF_DATA, HID_IOF_VARIABLE, HID_IOF_ABSOLUTE, HID_IOF_NON_VOLATILE],
     HID_RI_END_COLLECTION 0]"

definition boot_DeviceDescriptor :: device_descriptor where
  "boot_DeviceDescriptor = \<lparr>USBSpecification = (1, 1, 0), Endpoint0Size = FIXED_CONTROL_ENDPOINT_SIZE,
     VendorID = 0x15ba, ProductID = 0x003b, ReleaseNumber = (0, 0, 1),
     ManufacturerStrIndex = NO_DESCRIPTOR, ProductStrIndex = NO_DESCRIPTOR,
     SerialNumStrIndex = NO_DESCRIPTOR, NumberOfConfigurations = FIXED_NUM_CONFIGURATIONS\<rparr>"

record boot_configuration =
  boot_Config :: configuration_header
  HID_Interface :: interface_descriptor
  HID_VendorHID :: hid_descriptor
  HID_ReportINEndpoint :: endpoint_descriptor

definition sizeof_boot_Configuration :: "lufa \<Rightarrow> nat" where
  "sizeof_boot_Configuration L = sizeof_Configuration_Header L + sizeof_Interface L + sizeof_HID L + sizeof_Endpoint L"

definition boot_ConfigurationDescriptor :: "lufa \<Rightarrow> nat \<Rightarrow> boot_configuration" where
  "boot_ConfigurationDescriptor L SPM_PAGESIZE =
   \<lparr>boot_Config =
      \<lparr>TotalConfigurationSize = sizeof_boot_Configuration L,
       TotalInterfaces = 1,
       ConfigurationNumber = 1,
       ConfigurationStrIndex = NO_DESCRIPTOR,
       ConfigAttributes = USB_CONFIG_ATTR_RESERVED L,
       MaxPowerConsumption = USB_CONFIG_POWER_MA L 100\<rparr>,
    HID_Interface =
      \<lparr>InterfaceNumber = INTERFACE_ID_Printer,
       AlternateSetting = 0x00,
       TotalEndpoints = 1,
       Class = HID_CSCP_HIDClass L,
       SubClass = HID_CSCP_NonBootSubclass L,
       Protocol = HID_CSCP_NonBootProtocol L,
       InterfaceStrIndex = NO_DESCRIPTOR\<rparr>,
    HID_VendorHID =
      \<lparr>HIDSpec = (1, 1, 1),
       CountryCode = 0x00,
       TotalReportDescriptors = 1,
       HIDReportType = HID_DTYPE_Report L,
       HIDReportLength = report_size (HIDReport SPM_PAGESIZE)\<rparr>,
    HID_ReportINEndpoint =
      \<lparr>EndpointAddress = HID_IN_EPADDR L,
       Attributes = EP_TYPE_INTERRUPT L OR ENDPOINT_ATTR_NO_SYNC L OR ENDPOINT_USAGE_DATA L,
       EndpointSize = HID_IN_EPSIZE,
       PollingIntervalMS = 0x05\<rparr>\<rparr>"

datatype boot_served =
    Boot_device device_descriptor
  | Boot_configuration boot_configuration
  | Boot_hid hid_descriptor
  | Boot_report "hid_item list"

text \<open>Whatever else is asked for gets the report descriptor; the address is never the null pointer.\<close>

definition boot_CALLBACK_USB_GetDescriptor :: "lufa \<Rightarrow> nat \<Rightarrow> u16 \<Rightarrow> u16 \<Rightarrow> nat \<times> boot_served" where
  "boot_CALLBACK_USB_GetDescriptor L SPM_PAGESIZE wValue wIndex =
     (let DescriptorType = ucast (drop_bit 8 wValue) in
      if DescriptorType = DTYPE_Device L then (sizeof_Device L, Boot_device boot_DeviceDescriptor)
      else if DescriptorType = DTYPE_Configuration L
      then (sizeof_boot_Configuration L, Boot_configuration (boot_ConfigurationDescriptor L SPM_PAGESIZE))
      else if DescriptorType = HID_DTYPE_HID L
      then (sizeof_HID L, Boot_hid (HID_VendorHID (boot_ConfigurationDescriptor L SPM_PAGESIZE)))
      else (report_size (HIDReport SPM_PAGESIZE), Boot_report (HIDReport SPM_PAGESIZE)))"

section \<open>The report of a page\<close>

definition byte_field :: hid_field where
  "byte_field = \<lparr>to_host = False, is_constant = False, relative = False, usage = Some (0xFFDC, 2), bits = 8, low = 0, high = 255\<rparr>"

lemma page_fields:
  "n + 2 < 65536 \<Longrightarrow> fields_of (HIDReport n) = replicate (n + 2) byte_field"
proof -
  assume n: "n + 2 < 65536"
  have "take_bit 16 (2 + int n) = 2 + int n" using n by (intro take_bit_int_eq_self) simp_all
  then have "nat (unsigned_value (16, 2 + int n)) = n + 2" by (simp add: unsigned_value_def)
  then show ?thesis
    by (simp add: fields_of_def HIDReport_def hid_start_def item_fields_def item_usage_def no_locals_def signed_value_def
      byte_field_def map_replicate_const signed_take_bit_eq_take_bit_minus)
      (simp add: unsigned_value_def)
qed

lemma read_bytes:
  "read_fields (replicate n byte_field) (8 * k) bs = map (\<lambda>i. if i < length bs then Some (uint (bs ! i)) else None) [k..<k + n]"
proof (induction n arbitrary: k)
  case (Suc n)
  have byte: "field_value byte_field (8 * k) bs = (if k < length bs then Some (uint (bs ! k)) else None)"
    using field_byte [of k bs byte_field "8 * k"] by (simp add: byte_field_def field_value_def)
  have "[k..<k + Suc n] = k # [Suc k..<Suc k + n]" by (simp add: upt_rec)
  then show ?case using byte Suc.IH [of "Suc k"] by (simp add: byte_field_def [THEN arg_cong [where f = bits]] add.commute)
qed simp

text \<open>The data words that the control request handler takes from the endpoint, as its page fills show them.\<close>

definition filled :: "dev_call \<Rightarrow> u16 list" where
  "filled x = (case x of Page_fill a w \<Rightarrow> [w] | _ \<Rightarrow> [])"

definition words_taken :: "boot \<Rightarrow> u16 list" where
  "words_taken s = concat (map filled (calls s))"

lemma filled_spm: "concat (map filled (filter is_spm xs)) = concat (map filled xs)"
proof (induction xs)
  case (Cons x xs)
  then show ?case by (cases x) (simp_all add: filled_def)
qed simp

lemma filled_page: "concat (map filled (page_commands a ws)) = ws"
proof -
  have "concat (map filled (page_commands a ws)) = map (\<lambda>k. ws ! k) [0..<length ws]"
    by (simp add: page_commands_def filled_def comp_def concat_map_singleton)
  then show ?thesis by (simp add: map_nth)
qed

lemma words_taken_page:
  assumes "class_set_report c" "carries r q" "length r = ps + 2" "even ps" "le16 (r ! 0) (r ! 1) \<noteq> COMMAND_STARTAPPLICATION"
  shows "words_taken (EVENT_USB_Device_ControlRequest c ps q s) = words_taken s @ words_of (drop 2 r)"
proof -
  have q: "rd q 0 = le16 (r ! 0) (r ! 1)" "data_words ps q = words_of (drop 2 r)"
    by (rule carried_words [OF assms(2-4)])+
  have "words_taken t = concat (map filled (spm_calls t))" for t
    by (simp add: words_taken_def filled_spm)
  then show ?thesis
    using ControlRequest_page(1) [OF carried_directed [OF assms(1,2)], of ps s] assms(5) q by (simp add: filled_page)
qed

text \<open>
  C13. For every supported controller the report descriptor of the bootloader describes exactly the
  reports the loader sends and the control request handler takes. Read by the descriptor, the report of a
  block is the two bytes of its address and the bytes of the image, every one in the declared range; and
  of a request that carries the report (and is not the start command) the handler takes one word of address
  and then all the other words, each once and in order, so that address and words are the whole report.
\<close>

theorem block_report_fits_descriptor:
  assumes "good_options o1" "block_report o1 st addr = Inr r"
  shows "read_fields (fields_of (HIDReport (block_size o1))) 0 r =
      map (Some \<circ> uint) (address_bytes o1 addr @ ihex_get_data st (int addr) (int (block_size o1))) \<and>
    total_bits (fields_of (HIDReport (block_size o1))) = 8 * length r \<and>
    list_all2 in_range (fields_of (HIDReport (block_size o1))) (read_fields (fields_of (HIDReport (block_size o1))) 0 r) \<and>
    (\<forall>c q s. class_set_report c \<and> carries r q \<and> rd q 0 \<noteq> COMMAND_STARTAPPLICATION \<longrightarrow>
      rd q 0 = le16 (r ! 0) (r ! 1) \<and>
      words_taken (EVENT_USB_Device_ControlRequest c (block_size o1) q s) = words_taken s @ words_of (drop 2 r)) \<and>
    2 * (1 + length (words_of (drop 2 r))) = length r"
proof -
  have even: "even (block_size o1)" using assms(1) by (auto simp: good_options_def mcu_table_def)
  have "block_size o1 \<in> {128, 256}" using assms(1) by (auto simp: good_options_def mcu_table_def)
  then have fields: "fields_of (HIDReport (block_size o1)) = replicate (block_size o1 + 2) byte_field"
    by (intro page_fields) auto
  have r: "r = address_bytes o1 addr @ ihex_get_data st (int addr) (int (block_size o1))"
    using assms(2) by (simp add: block_report_def split: if_splits)
  then have len: "length r = block_size o1 + 2" by (simp add: address_bytes_def)
  then have decoded: "read_fields (fields_of (HIDReport (block_size o1))) 0 r = map (Some \<circ> uint) r"
  proof -
    have "map (\<lambda>i. if i < length r then Some (uint (r ! i)) else None) [0..<0 + length r] = map (Some \<circ> uint) r"
      by (intro nth_equalityI) auto
    then show ?thesis using read_bytes [of "length r" 0 r] unfolding fields len by (simp only: mult_0_right)
  qed
  have "list_all2 in_range (replicate (length r) byte_field) (map (Some \<circ> uint) r)"
  proof (induction r)
    case (Cons b r)
    have "0 \<le> uint b" "uint b \<le> 255" using uint_range8 [of b] by linarith+
    then show ?case using Cons by (simp add: in_range_def byte_field_def)
  qed simp
  moreover have "\<forall>c q s. class_set_report c \<and> carries r q \<and> rd q 0 \<noteq> COMMAND_STARTAPPLICATION \<longrightarrow>
      rd q 0 = le16 (r ! 0) (r ! 1) \<and>
      words_taken (EVENT_USB_Device_ControlRequest c (block_size o1) q s) = words_taken s @ words_of (drop 2 r)"
    using carried_words(1) [OF _ len even] words_taken_page [OF _ _ len even] by metis
  moreover have "2 * (1 + length (words_of (drop 2 r))) = length r"
    using even len by (simp add: words_of_def)
  ultimately show ?thesis
    unfolding decoded unfolding fields len [symmetric] r [symmetric]
    by (simp add: total_bits_def byte_field_def sum_list_replicate)
qed

lemma block_report_fits_descriptor_witness:
  "let r = [0, 1] @ replicate 128 0xFF in
   read_fields (fields_of (HIDReport 128)) 0 r = map (Some \<circ> uint) r \<and>
   total_bits (fields_of (HIDReport 128)) = 8 * length r \<and>
   list_all2 in_range (fields_of (HIDReport 128)) (read_fields (fields_of (HIDReport 128)) 0 r) \<and>
   words_taken (EVENT_USB_Device_ControlRequest lufa_consts 128 (sample_message r) (boot_reset 0)) = replicate 64 0xFFFF"
proof -
  let ?o = "default_options\<lparr>code_size := 32768, block_size := 128\<rparr>"
  let ?r = "[0, 1] @ replicate 128 (0xFF :: u8)"
  have "good_options ?o" using good_default by (simp add: good_options_def mcu_table_def)
  have bytes: "address_bytes ?o 256 @ ihex_get_data hex_reset (int 256) (int (block_size ?o)) = ?r"
  proof -
    have "ihex_get_data hex_reset (int 256) (int 128) = replicate 128 0xFF"
      by (intro nth_equalityI) (auto simp: ihex_get_data_def hex_reset_def MAX_MEMORY_SIZE_def simp del: upt_rec_numeral)
    then show ?thesis by (simp add: address_bytes_def)
  qed
  then have report: "block_report ?o hex_reset 256 = Inr ?r" by (simp add: block_report_def)
  have size: "block_size ?o = 128" by simp
  note fits = block_report_fits_descriptor [OF \<open>good_options ?o\<close> report, unfolded bytes, unfolded size]
  have "rd (sample_message ?r) 0 \<noteq> COMMAND_STARTAPPLICATION"
    by (simp add: sample_message_def le16_def COMMAND_STARTAPPLICATION_def)
  then have "words_taken (EVENT_USB_Device_ControlRequest lufa_consts 128 (sample_message ?r) (boot_reset 0))
      = words_taken (boot_reset 0) @ words_of (drop 2 ?r)"
    using fits lufa_class sample_carries by blast
  moreover have "words_of (drop 2 ?r) = replicate 64 0xFFFF"
    by (intro nth_equalityI) (simp_all add: words_of_def le16_def)
  ultimately show ?thesis
    using fits [THEN conjunct1] fits [THEN conjunct2, THEN conjunct1] fits [THEN conjunct2, THEN conjunct2, THEN conjunct1]
    unfolding Let_def by (intro conjI) (simp_all only: words_taken_def boot_reset_def boot.simps list.map concat.simps append_Nil)
qed

end
