(* ===== verification/BackEnds.thy ===== *)
theory BackEnds
  imports BootDescriptors WindowsAccess MacAccess
begin

text \<open>
  The four back ends of the firmware loader side by side: which of the two programs of the keyboard
  controller each of them takes for the bootloader, by the numbers in the device descriptors.
\<close>

definition numbers :: "device_descriptor \<Rightarrow> nat \<times> nat" where
  "numbers d = (unat (VendorID d), unat (ProductID d))"

lemma numbers [simp]: "numbers (DeviceDescriptor L) = (0x15ba, 0x003c)" "numbers boot_DeviceDescriptor = (0x15ba, 0x003b)"
  by (simp_all add: numbers_def DeviceDescriptor_def boot_DeviceDescriptor_def)

section \<open>libusb and uhid\<close>

text \<open>All devices on the buses have the given numbers; every node in /dev has.\<close>

definition libusb_only :: "('d, 'h, 'w) libusb \<Rightarrow> nat \<times> nat \<Rightarrow> bool" where
  "libusb_only l ids \<longleftrightarrow> (\<forall>w. \<forall>ds \<in> set (usb_get_busses l w). \<forall>d \<in> set ds. (idVendor d, idProduct d) = ids)"

definition uhid_only :: "'w uhid \<Rightarrow> nat \<times> nat \<Rightarrow> bool" where
  "uhid_only u ids \<longleftrightarrow> (\<forall>fd w. get_deviceinfo u fd w = Some ids)"

lemma bus_misses:
  "\<forall>d \<in> set ds. (idVendor d, idProduct d) \<noteq> (v, p) \<Longrightarrow> open_on_bus l v p ds w = (None, w)"
  by (induction ds) auto

lemma busses_miss:
  "\<forall>ds \<in> set bs. \<forall>d \<in> set ds. (idVendor d, idProduct d) \<noteq> (v, p) \<Longrightarrow> open_on_busses l v p bs w = (None, w)"
  by (induction bs) (simp_all add: bus_misses)

lemma libusb_misses: "libusb_only l ids \<Longrightarrow> ids \<noteq> (v, p) \<Longrightarrow> fst (open_usb_device l v p w) = None"
  unfolding open_usb_device_def Let_def libusb_only_def by (subst busses_miss) auto

lemma uhid_search_misses:
  "uhid_only u ids \<Longrightarrow> ids \<noteq> (v, p) \<Longrightarrow> \<exists>w'. uhid_search u v p ds w = (Inr (- 1), w')"
  by (induction ds arbitrary: w) (auto simp: uhid_only_def case_prod_beta Let_def split: option.split)

lemma uhid_misses: "uhid_only u ids \<Longrightarrow> ids \<noteq> (v, p) \<Longrightarrow> \<exists>w'. uhid_open_usb_device u v p w = (Inr (- 1), w')"
  using uhid_search_misses [of u ids v p] by (simp add: uhid_open_usb_device_def split: option.split)

section \<open>Windows and Mac OS X\<close>

text \<open>An interface that can be opened, with the given numbers; a device of the list that can.\<close>

definition win_reachable :: "('i, 'e, 'h, 'w) winapi \<Rightarrow> nat \<times> nat \<Rightarrow> bool" where
  "win_reachable a ids \<longleftrightarrow> (\<forall>w. \<exists>i is w1. SetupDiGetClassDevs a w = (Some (i # is), w1) \<and> malloc_details a i w1 \<and>
     (\<exists>path w2 h w3 w4. SetupDiGetDeviceInterfaceDetail a i w1 = (Some path, w2) \<and> CreateFile a path w2 = (Some h, w3) \<and>
        HidD_GetAttributes a h w3 = (Some ids, w4)))"

definition mac_reachable :: "('d, 'w) iokit \<Rightarrow> ('d, 'w) mac \<Rightarrow> int \<times> int \<Rightarrow> bool" where
  "mac_reachable k t ids \<longleftrightarrow> (\<exists>p \<in> set (usb_list (do_run_loop k (init_hid_manager k t))). (vid p, pid p) = ids \<and>
     (\<forall>w. fst (IOHIDDeviceOpen k (ref p) w)))"

lemma win_finds: "win_reachable a (v, p) \<Longrightarrow> \<exists>h w'. win_open_usb_device a v p w = (Some h, w')"
  unfolding win_reachable_def win_open_usb_device_def by (drule spec [of _ w]) auto

lemma mac_finds:
  assumes "mac_reachable k t (v, p)"
  shows "fst (mac_open_usb_device k v p t) \<noteq> None"
proof -
  obtain q where q: "q \<in> set (usb_list (do_run_loop k (init_hid_manager k t)))" "vid q = v" "pid q = p"
      "\<forall>w. fst (IOHIDDeviceOpen k (ref q) w)"
    using assms by (auto simp: mac_reachable_def)
  obtain d w' where "list_open k v p (usb_list (do_run_loop k (init_hid_manager k t)))
      (mac_outside (do_run_loop k (init_hid_manager k t))) = (Some d, w')"
    using list_open_first [OF q, of "mac_outside (do_run_loop k (init_hid_manager k t))"] by (elim exE)
  then show ?thesis by (simp add: mac_open_usb_device_def Let_def)
qed

lemma uhid_either_misses:
  assumes "uhid_only u ids" "ids \<noteq> (0x15ba, 0x003b)"
  shows "\<exists>w'. uhid_open_either u w = (Inr (- 1), w')"
proof -
  obtain w1 where "uhid_open_usb_device u 0x15ba 0x003b w = (Inr (- 1), w1)" using uhid_misses [OF assms] by blast
  then show ?thesis using uhid_misses [OF assms, of w1] by (simp add: uhid_open_either_def)
qed

text \<open>
  C23. While only the keyboard program is running, the loader does not take it for the bootloader on
  Linux and OpenBSD; on Windows and Mac OS X it does, and goes on to send it the new program.
\<close>

theorem keyboard_taken_for_bootloader:
  assumes "libusb_only l (numbers (DeviceDescriptor L))" "uhid_only u (numbers (DeviceDescriptor L))"
    and "win_reachable a (numbers (DeviceDescriptor L))"
    and "mac_reachable k (mac_teensy_close k m) (map_prod int int (numbers (DeviceDescriptor L)))"
  shows "fst (teensy_open l t) = False \<and> fst (uhid_teensy_open u d) = Inr False \<and>
    fst (win_teensy_open a x) = True \<and> fst (mac_teensy_open k m) = True"
proof -
  have "fst (open_usb_device l 0x15ba 0x003b w) = None" for w using libusb_misses [OF assms(1)] by simp
  then have libusb: "fst (teensy_open l t) = False" by (simp add: teensy_open_def case_prod_beta Let_def)
  have "\<exists>w'. uhid_open_either u (snd (uhid_teensy_close u d)) = (Inr (- 1), w')"
    using uhid_either_misses [OF assms(2)] by simp
  then have uhid: "fst (uhid_teensy_open u d) = Inr False" by (auto simp: uhid_teensy_open_def)
  obtain h w' where "win_open_usb_device a 0x15ba 0x003c (win_outside (win_teensy_close a x)) = (Some h, w')"
    using win_finds assms(3) by (metis numbers(1))
  then have win: "fst (win_teensy_open a x) = True" by (simp add: win_teensy_open_def win_open_either_def Let_def)
  have "fst (mac_open_usb_device k 0x15ba 0x003c (mac_teensy_close k m)) \<noteq> None"
    using mac_finds assms(4) by simp
  then show ?thesis
    using libusb uhid win by (auto simp: mac_teensy_open_def case_prod_beta Let_def)
qed

text \<open>A world with one device, that of the keyboard program, on each of the four systems.\<close>

definition linux_keyboard :: "(unit, unit, int) libusb" where
  "linux_keyboard = one_device\<lparr>usb_get_busses := (\<lambda>_. [[\<lparr>idVendor = 0x15ba, idProduct = 0x003c, usb_dev_id = ()\<rparr>]])\<rparr>"

definition bsd_keyboard :: "int uhid" where
  "bsd_keyboard = \<lparr>dev_names = (\<lambda>w. Some [''null'', ''uhid0'']), open_node = (\<lambda>p w. (3, w)),
     get_deviceinfo = (\<lambda>fd w. Some (0x15ba, 0x003c)), write_node = (\<lambda>fd b w. (int (length b), w)),
     close_node = (\<lambda>fd w. w), uhid_delay = (\<lambda>ms w. w)\<rparr>"

definition mac_keyboard :: "(nat, bool) iokit" where
  "mac_keyboard = swapping\<lparr>pending_events := (\<lambda>w. (if w then [] else [Attached (Some 60)], True))\<rparr>"

lemma keyboard_taken_for_bootloader_witness:
  "fst (teensy_open linux_keyboard \<lparr>teensy_handle = None, outside = 0\<rparr>) = False \<and>
   fst (uhid_teensy_open bsd_keyboard (- 1, 0)) = Inr False \<and>
   fst (win_teensy_open (windows_device (0x15ba, 0x003c)) \<lparr>win_handle = None, win_event = None, win_outside = 0\<rparr>) = True \<and>
   fst (mac_teensy_open mac_keyboard \<lparr>usb_list = [], hid_manager = False, iokit_teensy_reference = None, mac_outside = False\<rparr>) = True"
proof (rule keyboard_taken_for_bootloader [where L = standard_lufa])
  show "libusb_only linux_keyboard (numbers (DeviceDescriptor standard_lufa))"
    by (simp add: libusb_only_def linux_keyboard_def)
  show "uhid_only bsd_keyboard (numbers (DeviceDescriptor standard_lufa))"
    by (simp add: uhid_only_def bsd_keyboard_def)
  show "win_reachable (windows_device (0x15ba, 0x003c)) (numbers (DeviceDescriptor standard_lufa))"
    by (simp add: win_reachable_def windows_device_def)
  let ?m = "\<lparr>usb_list = [], hid_manager = False, iokit_teensy_reference = None, mac_outside = False\<rparr>"
  have "usb_list (do_run_loop mac_keyboard (init_hid_manager mac_keyboard (mac_teensy_close mac_keyboard ?m)))
      = [\<lparr>ref = 60, pid = 60, vid = 0x15ba\<rparr>]"
    by (simp add: mac_teensy_close_def init_hid_manager_def do_run_loop_def mac_keyboard_def swapping_def
      attach_callback_def new_entry_def)
  then show "mac_reachable mac_keyboard (mac_teensy_close mac_keyboard ?m) (map_prod int int (numbers (DeviceDescriptor standard_lufa)))"
    by (simp add: mac_reachable_def mac_keyboard_def swapping_def)
qed

end
