(* ===== verification/KeyMatrix.thy ===== *)
theory KeyMatrix
  imports Prelude
begin

text \<open>
  The keyboard half of the keyboard controller (\<open>TERES-HID/KeyboardMouse.c\<close>): the scan of the key
  matrix for a report, and the key chord of the main loop. The pins are an input of the model: a
  function from what the code drives on the ports and from the number of reads so far, so that the
  matrix may change between any two reads. A wait for a pin is a loop that may not end.
\<close>

section \<open>Key codes\<close>

text \<open>
  The codes the header defines itself are numbers; the others are named in LUFA's headers, and
  their values are a parameter.
\<close>

definition HID_KEY_WLAN :: u8 where "HID_KEY_WLAN = 246"
definition HID_KEY_LOCK_TOUCHPAD :: u8 where "HID_KEY_LOCK_TOUCHPAD = 199"
definition HID_KEY_BRIGTHNESS_DOWN :: u8 where "HID_KEY_BRIGTHNESS_DOWN = 0x6f"
definition HID_KEY_BRIGTHNESS_UP :: u8 where "HID_KEY_BRIGTHNESS_UP = 0x70"
definition HID_KEYBOARD_SC_SLEEP :: u8 where "HID_KEYBOARD_SC_SLEEP = 0x71"
definition HID_KEY_DISPLAY_SWITCH :: u8 where "HID_KEY_DISPLAY_SWITCH = 0xe3"
definition HID_KEYBOARD_SC_COMPOSE :: u8 where "HID_KEYBOARD_SC_COMPOSE = 0x65"

datatype keysym = NoKey | Own u8 | Lufa string

primrec key_code :: "(string \<Rightarrow> u8) \<Rightarrow> keysym \<Rightarrow> u8" where
  "key_code lufa NoKey = 0"
| "key_code lufa (Own v) = v"
| "key_code lufa (Lufa n) = lufa n"

definition keys :: "keysym list" where
  "keys = [
     Lufa ''LEFT_CONTROL'', Lufa ''GRAVE_ACCENT_AND_TILDE'', Lufa ''F1'', Lufa ''F2'', Lufa ''5_AND_PERCENTAGE'', Lufa ''6_AND_CARET'', Lufa ''EQUAL_AND_PLUS'', Lufa ''F8'', Lufa ''MINUS_AND_UNDERSCORE'', NoKey, Lufa ''F9'', Lufa ''DELETE'', NoKey, NoKey,
     NoKey, Lufa ''TAB'', Lufa ''CAPS_LOCK'', Lufa ''F3'', Lufa ''T'', Lufa ''Y'', Lufa ''CLOSING_BRACKET_AND_CLOSING_BRACE'', Lufa ''F7'', Lufa ''OPENING_BRACKET_AND_OPENING_BRACE'', NoKey, Lufa ''BACKSPACE'', NoKey, NoKey, Lufa ''LEFT_SHIFT'',
     NoKey, Lufa ''A'', Lufa ''S'', Lufa ''D'', Lufa ''F'', Lufa ''J'', Lufa ''K'', Lufa ''L'', Lufa ''SEMICOLON_AND_COLON'', NoKey, Lufa ''BACKSLASH_AND_PIPE'', NoKey, NoKey, Lufa ''RIGHT_SHIFT'',
     NoKey, Lufa ''ESCAPE'', NoKey, Lufa ''F4'', Lufa ''G'', Lufa ''H'', Lufa ''F6'', NoKey, Lufa ''APOSTROPHE_AND_QUOTE'', Lufa ''LEFT_ALT'', Lufa ''F11'', Lufa ''SPACE'', NoKey, Lufa ''UP_ARROW'',
     Lufa ''RIGHT_CONTROL'', Lufa ''Z'', Lufa ''X'', Lufa ''C'', Lufa ''V'', Lufa ''M'', Lufa ''COMMA_AND_LESS_THAN_SIGN'', Lufa ''DOT_AND_GREATER_THAN_SIGN'', NoKey, NoKey, Lufa ''ENTER'', NoKey, NoKey, NoKey,
     NoKey, NoKey, NoKey, NoKey, Lufa ''B'', Lufa ''N'', NoKey, Own HID_KEYBOARD_SC_COMPOSE, Lufa ''SLASH_AND_QUESTION_MARK'', Lufa ''RIGHT_ALT'', Lufa ''F12'', Lufa ''DOWN_ARROW'', Lufa ''RIGHT_ARROW'', Lufa ''LEFT_ARROW'',
     NoKey, Lufa ''Q'', Lufa ''W'', Lufa ''E'', Lufa ''R'', Lufa ''U'', Lufa ''I'', Lufa ''O'', Lufa ''P'', NoKey, NoKey, NoKey, NoKey, NoKey,
     Lufa ''F5'', Lufa ''1_AND_EXCLAMATION'', Lufa ''2_AND_AT'', Lufa ''3_AND_HASHMARK'', Lufa ''4_AND_DOLLAR'', Lufa ''7_AND_AMPERSAND'', Lufa ''8_AND_ASTERISK'', Lufa ''9_AND_OPENING_PARENTHESIS'', Lufa ''0_AND_CLOSING_PARENTHESIS'', Lufa ''PRINT_SCREEN'', Lufa ''F10'', NoKey, NoKey, NoKey,
     Lufa ''LEFT_CONTROL'', Lufa ''GRAVE_ACCENT_AND_TILDE'', Own HID_KEYBOARD_SC_SLEEP, Own HID_KEY_WLAN, Lufa ''5_AND_PERCENTAGE'', Lufa ''6_AND_CARET'', Lufa ''EQUAL_AND_PLUS'', Own HID_KEY_BRIGTHNESS_UP, Lufa ''MINUS_AND_UNDERSCORE'', NoKey, Own HID_KEY_DISPLAY_SWITCH, Lufa ''DELETE'', NoKey, NoKey,
     NoKey, Lufa ''TAB'', Lufa ''CAPS_LOCK'', Own HID_KEY_LOCK_TOUCHPAD, Lufa ''T'', Lufa ''Y'', Lufa ''CLOSING_BRACKET_AND_CLOSING_BRACE'', Own HID_KEY_BRIGTHNESS_DOWN, Lufa ''OPENING_BRACKET_AND_OPENING_BRACE'', NoKey, Lufa ''BACKSPACE'', NoKey, NoKey, Lufa ''LEFT_SHIFT'',
     NoKey, Lufa ''A'', Lufa ''S'', Lufa ''D'', Lufa ''F'', Lufa ''KEYPAD_1_AND_END'', Lufa ''KEYPAD_2_AND_DOWN_ARROW'', Lufa ''KEYPAD_3_AND_PAGE_DOWN'', Lufa ''KEYPAD_MINUS'', NoKey, Lufa ''BACKSLASH_AND_PIPE'', NoKey, NoKey, Lufa ''RIGHT_SHIFT'',
     NoKey, Lufa ''ESCAPE'', NoKey, Lufa ''VOLUME_DOWN'', Lufa ''G'', Lufa ''H'', Lufa ''MUTE'', NoKey, Lufa ''APOSTROPHE_AND_QUOTE'', Lufa ''LEFT_ALT'', Lufa ''INSERT'', Lufa ''SPACE'', NoKey, Lufa ''PAGE_UP'',
     Lufa ''RIGHT_CONTROL'', Lufa ''Z'', Lufa ''X'', Lufa ''C'', Lufa ''V'', Lufa ''KEYPAD_0_AND_INSERT'', Lufa ''COMMA_AND_LESS_THAN_SIGN'', Lufa ''DOT_AND_GREATER_THAN_SIGN'', NoKey, NoKey, Lufa ''ENTER'', NoKey, NoKey, NoKey,
     NoKey, NoKey, NoKey, NoKey, Lufa ''B'', Lufa ''N'', NoKey, Own HID_KEYBOARD_SC_COMPOSE, Lufa ''KEYPAD_PLUS'', Lufa ''RIGHT_ALT'', Lufa ''F12'', Lufa ''PAGE_DOWN'', Lufa ''END'', Lufa ''HOME'',
     NoKey, Lufa ''Q'', Lufa ''W'', Lufa ''E'', Lufa ''R'', Lufa ''KEYPAD_4_AND_LEFT_ARROW'', Lufa ''KEYPAD_5'', Lufa ''KEYPAD_6_AND_RIGHT_ARROW'', Lufa ''KEYPAD_ASTERISK'', NoKey, NoKey, NoKey, NoKey, NoKey,
     Lufa ''VOLUME_UP'', Lufa ''1_AND_EXCLAMATION'', Lufa ''2_AND_AT'', Lufa ''3_AND_HASHMARK'', Lufa ''4_AND_DOLLAR'', Lufa ''7_AND_AMPERSAND'', Lufa ''8_AND_ASTERISK'', Lufa ''9_AND_OPENING_PARENTHESIS'', Lufa ''KEYPAD_SLASH'', Lufa ''NUM_LOCK'', Lufa ''PAUSE'', NoKey, NoKey, NoKey]"

text \<open>The modifiers of the keys, by the names of their bits.\<close>

definition keym :: "keysym list" where
  "keym = [
     Lufa ''LEFTCTRL'', NoKey, NoKey, NoKey, NoKey, NoKey, NoKey, NoKey, NoKey, NoKey, NoKey, NoKey, NoKey, NoKey,
     NoKey, NoKey, NoKey, NoKey, NoKey, NoKey, NoKey, NoKey, NoKey, NoKey, NoKey, NoKey, Lufa ''LEFTGUI'', Lufa ''LEFTSHIFT'',
     NoKey, NoKey, NoKey, NoKey, NoKey, NoKey, NoKey, NoKey, NoKey, NoKey, NoKey, NoKey, NoKey, Lufa ''RIGHTSHIFT'',
     NoKey, NoKey, NoKey, NoKey, NoKey, NoKey, NoKey, NoKey, NoKey, Lufa ''LEFTALT'', NoKey, NoKey, NoKey, NoKey,
     Lufa ''RIGHTCTRL'', NoKey, NoKey, NoKey, NoKey, NoKey, NoKey, NoKey, NoKey, NoKey, NoKey, NoKey, NoKey, NoKey,
     NoKey, NoKey, NoKey, NoKey, NoKey, NoKey, NoKey, NoKey, NoKey, Lufa ''RIGHTALT'', NoKey, NoKey, NoKey, NoKey,
     NoKey, NoKey, NoKey, NoKey, NoKey, NoKey, NoKey, NoKey, NoKey, NoKey, NoKey, NoKey, NoKey, NoKey,
     NoKey, NoKey, NoKey, NoKey, NoKey, NoKey, NoKey, NoKey, NoKey, NoKey, NoKey, NoKey, NoKey, NoKey]"

definition rowY :: "u8 list" where
  "rowY = [0xbf, 0xfd, 0x7f, 0xfe, 0xef, 0xdf, 0xfb, 0xf7]"

definition rowYN :: "u8 list" where
  "rowYN = [0x40, 0x02, 0x80, 0x01, 0x10, 0x20, 0x04, 0x08]"

section \<open>State\<close>

datatype port = PINB | PINC | PIND | PINE | PINF

record board =
  DDRB :: u8
  PORTB :: u8
  DDRC :: u8
  PORTC :: u8
  DDRD :: u8
  PORTD :: u8
  DDRE :: u8
  PORTE :: u8
  DDRF :: u8
  PORTF :: u8
  reads :: nat

type_synonym pins = "board \<Rightarrow> port \<Rightarrow> u8"

record keyboard =
  brd :: board
  Modifier :: u8
  KeyCode :: "u8 list"
  keyc :: u8
  fn :: nat
  TouchPadLocked :: bool
  guarded :: bool

definition read_pin :: "pins \<Rightarrow> port \<Rightarrow> keyboard \<Rightarrow> u8 \<times> keyboard" where
  "read_pin pins p s = (pins (brd s) p, s\<lparr>brd := (brd s)\<lparr>reads := Suc (reads (brd s))\<rparr>\<rparr>)"

text \<open>\<open>while (!P(PIN));\<close>\<close>

partial_function (option) wait_pin :: "pins \<Rightarrow> port \<Rightarrow> (u8 \<Rightarrow> bool) \<Rightarrow> keyboard \<Rightarrow> keyboard c option" where
  "wait_pin pins p stop s =
     (let (v, s') = read_pin pins p s in if stop v then Some (Inr s') else wait_pin pins p stop s')"

section \<open>Scanning\<close>

text \<open>\<open>KeyCode[keyc] = code; if (keyc<5) keyc++;\<close>\<close>

definition store_key :: "u8 \<Rightarrow> keyboard \<Rightarrow> keyboard" where
  "store_key c s = s\<lparr>KeyCode := (KeyCode s)[unat (keyc s) := c], keyc := (if keyc s < 5 then keyc s + 1 else keyc s)\<rparr>"

definition press :: "u8 \<Rightarrow> keyboard \<Rightarrow> keyboard c" where
  "press c s = (if unat (keyc s) < length (KeyCode s) then Inr (store_key c s) else Inl OutOfBounds)"

definition modify :: "u8 \<Rightarrow> keyboard \<Rightarrow> keyboard" where
  "modify m s = s\<lparr>Modifier := Modifier s OR m\<rparr>"

text \<open>
  The keys of the two rows that are read backwards, through port B: the bit of each, its modifier and its
  code.
\<close>

definition direct_key :: "pins \<Rightarrow> u8 \<Rightarrow> u8 \<Rightarrow> (nat \<Rightarrow> u8) \<Rightarrow> keyboard \<Rightarrow> keyboard c" where
  "direct_key pins bits m c s0 =
     (let (v, s) = read_pin pins PINB s0
      in if v AND bits \<noteq> 0 then press (c (fn s)) (modify m s) else Inr s)"

primrec direct_keys :: "pins \<Rightarrow> (u8 \<times> u8 \<times> (nat \<Rightarrow> u8)) list \<Rightarrow> keyboard \<Rightarrow> keyboard c" where
  "direct_keys pins [] s = Inr s"
| "direct_keys pins (k # ks) s = (case k of (bits, m, c) \<Rightarrow> bind_c (direct_key pins bits m c s) (direct_keys pins ks))"

definition drive :: "u8 \<Rightarrow> u8 \<Rightarrow> u8 \<Rightarrow> u8 \<Rightarrow> keyboard \<Rightarrow> keyboard" where
  "drive ddrb portb ddrd portd s =
     s\<lparr>brd := (brd s)\<lparr>DDRB := ddrb, PORTB := portb, DDRD := ddrd, PORTD := portd\<rparr>\<rparr>"

text \<open>Row 13: the function key first, then the keys it shifts.\<close>

definition row_13 :: "(string \<Rightarrow> u8) \<Rightarrow> (string \<Rightarrow> u8) \<Rightarrow> pins \<Rightarrow> keyboard \<Rightarrow> keyboard c" where
  "row_13 lufa lmod pins s0 =
     (let (v, s) = read_pin pins PINB (drive 0x00 0x00 0x10 0x10 s0)
      in if v AND 0x40 \<noteq> 0
         then direct_keys pins
               [(0x01, 0, \<lambda>_. lufa ''PAGE_UP''), (0x02, lmod ''LEFTSHIFT'', \<lambda>_. lufa ''LEFT_SHIFT''),
                (0x20, 0, \<lambda>_. lufa ''HOME''), (0x80, lmod ''RIGHTSHIFT'', \<lambda>_. lufa ''RIGHT_SHIFT'')] (s\<lparr>fn := 112\<rparr>)
         else direct_keys pins
               [(0x01, 0, \<lambda>_. lufa ''UP_ARROW''), (0x02, lmod ''LEFTSHIFT'', \<lambda>_. lufa ''LEFT_SHIFT''),
                (0x20, 0, \<lambda>_. lufa ''LEFT_ARROW''), (0x80, lmod ''RIGHTSHIFT'', \<lambda>_. lufa ''RIGHT_SHIFT'')] s)"

text \<open>Row 0.\<close>

definition row_0 :: "(string \<Rightarrow> u8) \<Rightarrow> (string \<Rightarrow> u8) \<Rightarrow> pins \<Rightarrow> keyboard \<Rightarrow> keyboard c" where
  "row_0 lufa lmod pins s =
     direct_keys pins
       [(0x10, lmod ''RIGHTCTRL'', \<lambda>_. lufa ''RIGHT_CONTROL''), (0x40, lmod ''LEFTCTRL'', \<lambda>_. lufa ''LEFT_CONTROL''),
        (0x08, 0, \<lambda>f. if f = 112 then lufa ''VOLUME_UP'' else lufa ''F5'')] (drive 0x00 0x00 0x40 0x40 s)"

definition first_column :: "(string \<Rightarrow> u8) \<Rightarrow> (string \<Rightarrow> u8) \<Rightarrow> pins \<Rightarrow> keyboard \<Rightarrow> keyboard c" where
  "first_column lufa lmod pins s =
     bind_c (row_13 lufa lmod pins s) (\<lambda>s. bind_c (row_0 lufa lmod pins s) (\<lambda>s.
       bind_c (array_at rowY 0) (\<lambda>y. Inr (drive 0xff y 0 0xfc s))))"

text \<open>
  One of the twelve rows of a column: \<open>x\<close>, and the port and bit it is wired to. The touch pad lock
  key is looked for in row 3 only.
\<close>

definition scan_row ::
  "(string \<Rightarrow> u8) \<Rightarrow> (string \<Rightarrow> u8) \<Rightarrow> pins \<Rightarrow> nat \<Rightarrow> nat \<Rightarrow> port \<Rightarrow> nat \<Rightarrow> keyboard \<Rightarrow> keyboard c option" where
  "scan_row lufa lmod pins colmn x p b s0 =
     (let (v, s1) = read_pin pins p s0
      in if v AND push_bit b 1 = 0
         then bind_o (Some (array_at keys (colmn * 14 + x + fn s1))) (\<lambda>key.
              bind_o (Some (array_at keym (colmn * 14 + x))) (\<lambda>m.
                let keynow = key_code lufa key; s2 = modify (key_code lmod m) s1
                in bind_o (if x = 3 \<and> keynow = HID_KEY_LOCK_TOUCHPAD
                           then wait_pin pins p (\<lambda>v. v AND push_bit b 1 \<noteq> 0)
                                  (s2\<lparr>TouchPadLocked := \<not> TouchPadLocked s2\<rparr>)
                           else Some (Inr s2))
                     (\<lambda>s3. Some (if keynow \<noteq> 0 then press keynow s3 else Inr s3))))
         else Some (Inr s1))"

primrec scan_list ::
  "(string \<Rightarrow> u8) \<Rightarrow> (string \<Rightarrow> u8) \<Rightarrow> pins \<Rightarrow> nat \<Rightarrow> (nat \<times> port \<times> nat) list \<Rightarrow> keyboard \<Rightarrow> keyboard c option" where
  "scan_list lufa lmod pins c [] s = Some (Inr s)"
| "scan_list lufa lmod pins c (r # rs) s =
     (case r of (x, p, k) \<Rightarrow> bind_o (scan_row lufa lmod pins c x p k s) (scan_list lufa lmod pins c rs))"

text \<open>The rows in the order of the code, which has them one after the other.\<close>

definition scan_rows :: "(string \<Rightarrow> u8) \<Rightarrow> (string \<Rightarrow> u8) \<Rightarrow> pins \<Rightarrow> nat \<Rightarrow> keyboard \<Rightarrow> keyboard c option" where
  "scan_rows lufa lmod pins colmn =
     scan_list lufa lmod pins colmn
       [(1, PINC, 7), (2, PINC, 6), (3, PIND, 7), (4, PIND, 3), (5, PINF, 1), (6, PINF, 6),
        (7, PINE, 6), (8, PINF, 4), (9, PIND, 5), (10, PINF, 5), (11, PINF, 7), (12, PINE, 2)]"

definition scan_column :: "(string \<Rightarrow> u8) \<Rightarrow> (string \<Rightarrow> u8) \<Rightarrow> pins \<Rightarrow> nat \<Rightarrow> keyboard \<Rightarrow> keyboard c option" where
  "scan_column lufa lmod pins colmn s =
     bind_o (Some (if colmn = 0 then first_column lufa lmod pins s else Inr s)) (\<lambda>s1.
     bind_o (Some (array_at rowY colmn)) (\<lambda>y.
     bind_o (wait_pin pins PINB (\<lambda>v. v = y) (s1\<lparr>brd := (brd s1)\<lparr>PORTB := y\<rparr>\<rparr>)) (\<lambda>s3.
     bind_o (scan_rows lufa lmod pins colmn s3) (\<lambda>s4.
       Some (Inr (s4\<lparr>brd := (brd s4)\<lparr>DDRD := 0, PORTD := 0xfc\<rparr>\<rparr>))))))"

primrec scan_columns :: "(string \<Rightarrow> u8) \<Rightarrow> (string \<Rightarrow> u8) \<Rightarrow> pins \<Rightarrow> nat list \<Rightarrow> keyboard \<Rightarrow> keyboard c option" where
  "scan_columns lufa lmod pins [] s = Some (Inr s)"
| "scan_columns lufa lmod pins (c # cs) s = bind_o (scan_column lufa lmod pins c s) (scan_columns lufa lmod pins cs)"

text \<open>
  The keyboard branch of \<open>CALLBACK_HID_Device_CreateHIDReport\<close>. (It also clears \<open>itsDone\<close>, which is read
  nowhere else.)
\<close>

definition report_start :: "keyboard \<Rightarrow> keyboard" where
  "report_start s = s\<lparr>keyc := 0, Modifier := 0, KeyCode := replicate 6 0, fn := 0, guarded := False,
     brd := (brd s)\<lparr>DDRE := 0, DDRF := 0, DDRC := 0, DDRD := 0, PORTD := 0xfc, PORTE := 0xff,
        PORTF := 0xff, PORTC := 0xff, DDRB := 0xff\<rparr>\<rparr>"

definition CreateKeyboardReport :: "(string \<Rightarrow> u8) \<Rightarrow> (string \<Rightarrow> u8) \<Rightarrow> pins \<Rightarrow> keyboard \<Rightarrow> keyboard c option" where
  "CreateKeyboardReport lufa lmod pins s =
     bind_o (scan_columns lufa lmod pins [0..<8] (report_start s)) (\<lambda>s'.
       Some (Inr (s'\<lparr>guarded := (Modifier s' = 0 \<and> keyc s' \<noteq> 0)\<rparr>)))"

section \<open>The main loop\<close>

datatype kbd_call = Usb_disable | Cli | Wait_ms nat | Wdt_enable

definition Jump_To_Bootloader :: "kbd_call list" where
  "Jump_To_Bootloader = [Usb_disable, Cli, Wait_ms 1000, Wdt_enable]"

text \<open>
  The chord that starts the bootloader, after the USB tasks: whether it was seen. The first test reads the
  column that is driven when it comes; the code drives the second column before the USB tasks.
\<close>

definition chord :: "pins \<Rightarrow> keyboard \<Rightarrow> bool \<times> keyboard" where
  "chord pins s1 =
     (let (e, s2) = read_pin pins PINE s1
      in if e AND push_bit 2 1 = 0
         then (let s3 = s2\<lparr>brd := (brd s2)\<lparr>DDRB := 0xff, PORTB := 0xfe\<rparr>\<rparr>;
                   (c, s4) = read_pin pins PINC s3
               in if c AND push_bit 7 1 = 0
                  then (let s5 = s4\<lparr>brd := (brd s4)\<lparr>PORTB := 0xbf\<rparr>\<rparr>; (d, s6) = read_pin pins PIND s5
                        in (d AND push_bit 4 1 = 0, s6))
                  else (False, s4))
         else (False, s2))"

section \<open>The specification of a report\<close>

text \<open>
  The order in which pressed keys are found: the keys of rows 13 and 0 in the first column's
  preamble, then column by column. A key is a pair of column and row.
\<close>

definition scan_order :: "(nat \<times> nat) list" where
  "scan_order = [(3, 13), (1, 13), (5, 13), (2, 13), (4, 0), (0, 0), (7, 0)]
     @ concat (map (\<lambda>c. map (Pair c) [1..<13]) [0..<8])"

definition sym_of :: "nat \<Rightarrow> nat \<times> nat \<Rightarrow> keysym" where
  "sym_of f k = keys ! (fst k * 14 + snd k + f)"

definition mod_of :: "nat \<times> nat \<Rightarrow> keysym" where
  "mod_of k = keym ! (fst k * 14 + snd k)"

definition codes_of :: "(string \<Rightarrow> u8) \<Rightarrow> nat \<Rightarrow> (nat \<times> nat) list \<Rightarrow> u8 list" where
  "codes_of lufa f ks = filter (\<lambda>c. c \<noteq> 0) (map (\<lambda>k. key_code lufa (sym_of f k)) ks)"

definition mods_of :: "(string \<Rightarrow> u8) \<Rightarrow> (nat \<times> nat) list \<Rightarrow> u8" where
  "mods_of lmod ks = foldl (\<lambda>m k. m OR key_code lmod (mod_of k)) 0 ks"

text \<open>
  The six slots: the first five codes keep their slots, every further one goes to the sixth, so
  that the last one wins.
\<close>

definition slots :: "u8 list \<Rightarrow> u8 list" where
  "slots cs = take 5 (cs @ replicate 5 0) @ [if length cs \<le> 5 then 0 else last cs]"

text \<open>The state after the codes \<open>cs\<close> and modifiers \<open>m\<close> were found.\<close>

definition found :: "u8 list \<Rightarrow> u8 \<Rightarrow> keyboard \<Rightarrow> bool" where
  "found cs m s \<longleftrightarrow> KeyCode s = slots cs \<and> keyc s = word_of_nat (min 5 (length cs)) \<and> Modifier s = m"

lemma slots_snoc: "slots (cs @ [c]) = (slots cs)[min 5 (length cs) := c]"
proof (cases "length cs < 5")
  case True
  then obtain n where n: "5 - length cs = Suc n" by (metis Suc_diff_Suc)
  have "take 5 (cs @ replicate 5 0) = cs @ replicate (Suc n) 0" using n by simp
  moreover have "take 5 (cs @ [c] @ replicate 5 0) = cs @ c # replicate n 0" using n True by (simp add: take_Cons')
  ultimately show ?thesis using True by (simp add: slots_def list_update_append)
next
  case False
  then show ?thesis by (cases "length cs = 5") (simp_all add: slots_def list_update_append)
qed

lemma length_slots [simp]: "length (slots cs) = 6"
  by (simp add: slots_def)

lemma found_store: "found cs m s \<Longrightarrow> press c s = Inr (store_key c s) \<and> found (cs @ [c]) m (store_key c s)"
proof -
  assume f: "found cs m s"
  have "unat (word_of_nat (min 5 (length cs)) :: u8) = min 5 (length cs)"
    by (simp add: unat_of_nat min_def)
  moreover have "(word_of_nat (min 5 (length cs)) :: u8) < 5 \<longleftrightarrow> length cs < 5"
    by (simp add: word_less_nat_alt unat_of_nat min_def)
  moreover have "min 5 (Suc (length cs)) = (if length cs < 5 then Suc (min 5 (length cs)) else min 5 (length cs))"
    by simp
  ultimately have "found (cs @ [c]) m (store_key c s)"
    using f by (simp add: found_def store_key_def slots_snoc del: min.absorb1 min.absorb2)
  moreover have "unat (keyc s) < length (KeyCode s)" using f by (simp add: found_def unat_of_nat min_def)
  ultimately show ?thesis by (simp add: press_def)
qed

lemma found_modify: "found cs m s \<Longrightarrow> found cs (m OR k) (modify k s)"
  by (simp add: found_def modify_def)

text \<open>What operations leave alone.\<close>

lemma store_frame [simp]:
  "brd (store_key c s) = brd s" "fn (store_key c s) = fn s" "TouchPadLocked (store_key c s) = TouchPadLocked s"
  "brd (modify k s) = brd s" "fn (modify k s) = fn s" "TouchPadLocked (modify k s) = TouchPadLocked s"
  by (simp_all add: store_key_def modify_def)

definition counted :: "board \<Rightarrow> board" where
  "counted b = b\<lparr>reads := Suc (reads b)\<rparr>"

lemma counted_regs [simp]:
  "DDRB (counted b) = DDRB b" "PORTB (counted b) = PORTB b" "DDRD (counted b) = DDRD b" "PORTD (counted b) = PORTD b"
  "DDRC (counted b) = DDRC b" "PORTC (counted b) = PORTC b" "DDRE (counted b) = DDRE b" "PORTE (counted b) = PORTE b"
  "DDRF (counted b) = DDRF b" "PORTF (counted b) = PORTF b"
  by (simp_all add: counted_def)

lemma read_pin_eq: "read_pin pins p s = (pins (brd s) p, s\<lparr>brd := counted (brd s)\<rparr>)"
  by (simp add: read_pin_def counted_def)

lemma found_brd [simp]: "found cs m (s\<lparr>brd := b\<rparr>) = found cs m s" "found cs m (s\<lparr>fn := f\<rparr>) = found cs m s"
  by (simp_all add: found_def)


section \<open>A steady matrix\<close>

text \<open>
  The wiring: with a column driven low through port B, the pin of a row is low exactly if the key
  there is pressed; with row 13 or row 0 driven high, the column pins of port B are high exactly at
  the pressed keys.
\<close>

definition row_pins :: "(nat \<times> port \<times> nat) list" where
  "row_pins = [(1, PINC, 7), (2, PINC, 6), (3, PIND, 7), (4, PIND, 3), (5, PINF, 1), (6, PINF, 6),
     (7, PINE, 6), (8, PINF, 4), (9, PIND, 5), (10, PINF, 5), (11, PINF, 7), (12, PINE, 2)]"

text \<open>
  The row pins are inputs with their pull-ups on. (Of a port of which the code uses some pins as rows, only
  these are looked at; port D also drives the two rows that are read backwards.)
\<close>

definition rows_in :: "board \<Rightarrow> bool" where
  "rows_in b \<longleftrightarrow> DDRC b = 0 \<and> DDRE b = 0 \<and> DDRF b = 0 \<and>
     PORTC b AND 0xc0 = 0xc0 \<and> PORTE b AND 0x44 = 0x44 \<and> PORTF b AND 0xf2 = 0xf2"

definition pulled_up :: "board \<Rightarrow> bool" where
  "pulled_up b \<longleftrightarrow> rows_in b \<and> DDRD b = 0 \<and> PORTD b = 0xfc"

definition column_ready :: "nat \<Rightarrow> board \<Rightarrow> bool" where
  "column_ready c b \<longleftrightarrow> DDRB b = 0xff \<and> PORTB b = rowY ! c \<and> pulled_up b"

definition wired :: "pins \<Rightarrow> (nat \<times> nat \<Rightarrow> bool) \<Rightarrow> bool" where
  "wired pins pressed \<longleftrightarrow>
     (\<forall>b c. c < 8 \<and> column_ready c b \<longrightarrow>
        pins b PINB = rowY ! c \<and>
        (\<forall>(x, p, k) \<in> set row_pins. pins b p AND push_bit k 1 = 0 \<longleftrightarrow> pressed (c, x))) \<and>
     (\<forall>b c. c < 8 \<and> DDRB b = 0 \<and> PORTB b = 0 \<and> DDRD b = 0x10 \<and> PORTD b = 0x10 \<longrightarrow>
        (pins b PINB AND rowYN ! c \<noteq> 0 \<longleftrightarrow> pressed (c, 13))) \<and>
     (\<forall>b c. c < 8 \<and> DDRB b = 0 \<and> PORTB b = 0 \<and> DDRD b = 0x40 \<and> PORTD b = 0x40 \<longrightarrow>
        (pins b PINB AND rowYN ! c \<noteq> 0 \<longleftrightarrow> pressed (c, 0)))"

lemma ports_counted [simp]:
  "rows_in (counted b) = rows_in b" "pulled_up (counted b) = pulled_up b" "column_ready c (counted b) = column_ready c b"
  by (simp_all add: rows_in_def pulled_up_def column_ready_def)

lemma ports_simps [simp]:
  "rows_in (b\<lparr>DDRB := v\<rparr>) = rows_in b" "rows_in (b\<lparr>PORTB := v\<rparr>) = rows_in b"
  "rows_in (b\<lparr>DDRD := v\<rparr>) = rows_in b" "rows_in (b\<lparr>PORTD := v\<rparr>) = rows_in b" "rows_in (b\<lparr>reads := n\<rparr>) = rows_in b"
  "pulled_up (b\<lparr>DDRB := v\<rparr>) = pulled_up b" "pulled_up (b\<lparr>PORTB := v\<rparr>) = pulled_up b"
  "pulled_up (b\<lparr>reads := n\<rparr>) = pulled_up b" "column_ready c (b\<lparr>reads := n\<rparr>) = column_ready c b"
  "pulled_up (b\<lparr>DDRD := 0, PORTD := 0xfc\<rparr>) = rows_in b"
  by (simp_all add: rows_in_def pulled_up_def column_ready_def)

definition fn_of :: "(nat \<times> nat \<Rightarrow> bool) \<Rightarrow> nat" where
  "fn_of pressed = (if pressed (0, 13) then 112 else 0)"

text \<open>The keys \<open>ks\<close> have been scanned.\<close>

definition scanned ::
  "(string \<Rightarrow> u8) \<Rightarrow> (string \<Rightarrow> u8) \<Rightarrow> (nat \<times> nat \<Rightarrow> bool) \<Rightarrow> (nat \<times> nat) list \<Rightarrow> keyboard \<Rightarrow> bool" where
  "scanned lufa lmod pressed ks s \<longleftrightarrow>
     found (codes_of lufa (fn_of pressed) (filter pressed ks)) (mods_of lmod (filter pressed ks)) s \<and>
     fn s = fn_of pressed"

lemma codes_of_snoc: "codes_of lufa f (ks @ [k]) =
    (let c = key_code lufa (sym_of f k) in if c \<noteq> 0 then codes_of lufa f ks @ [c] else codes_of lufa f ks)"
  by (simp add: codes_of_def Let_def)

lemma mods_of_snoc: "mods_of lmod (ks @ [k]) = mods_of lmod ks OR key_code lmod (mod_of k)"
  by (simp add: mods_of_def)

lemma scanned_released:
  "scanned lufa lmod pressed ks s \<Longrightarrow> \<not> pressed k \<Longrightarrow> scanned lufa lmod pressed (ks @ [k]) s"
  by (simp add: scanned_def)

lemma scanned_store:
  assumes "scanned lufa lmod pressed ks s" "pressed k"
    and "key_code lufa (sym_of (fn_of pressed) k) = c" "key_code lmod (mod_of k) = m"
  shows "\<exists>s'. (if c \<noteq> 0 then press c (modify m s) else Inr (modify m s)) = Inr s' \<and>
    scanned lufa lmod pressed (ks @ [k]) s' \<and> brd s' = brd s \<and> TouchPadLocked s' = TouchPadLocked s"
proof -
  have f: "found (codes_of lufa (fn_of pressed) (filter pressed ks)) (mods_of lmod (filter pressed ks) OR m) (modify m s)"
    and fn: "fn s = fn_of pressed"
    using assms(1) found_modify by (simp_all add: scanned_def)
  show ?thesis
    using found_store [OF f, of c] f fn assms(2-4)
    by (cases "c = 0") (simp_all add: scanned_def codes_of_snoc mods_of_snoc Let_def)
qed

lemma scanned_brd [simp]: "scanned lufa lmod pressed ks (s\<lparr>brd := b\<rparr>) = scanned lufa lmod pressed ks s"
  by (simp add: scanned_def)

lemma direct_key_scanned:
  assumes "scanned lufa lmod pressed ks s" "pins (brd s) PINB AND bits \<noteq> 0 \<longleftrightarrow> pressed k"
    and "key_code lufa (sym_of (fn_of pressed) k) = c (fn_of pressed)" "key_code lmod (mod_of k) = m"
    and "c (fn_of pressed) \<noteq> 0"
  shows "\<exists>s'. direct_key pins bits m c s = Inr s' \<and> scanned lufa lmod pressed (ks @ [k]) s' \<and>
    brd s' = counted (brd s) \<and> TouchPadLocked s' = TouchPadLocked s"
proof (cases "pressed k")
  case True
  have f: "fn s = fn_of pressed" using assms(1) by (simp add: scanned_def)
  let ?s = "s\<lparr>brd := counted (brd s)\<rparr>"
  have "\<exists>s'. press (c (fn_of pressed)) (modify m ?s) = Inr s' \<and> scanned lufa lmod pressed (ks @ [k]) s' \<and>
      brd s' = brd ?s \<and> TouchPadLocked s' = TouchPadLocked ?s"
    using scanned_store [of lufa lmod pressed ks ?s k, OF _ True assms(3,4)] assms(1,5) by simp
  then show ?thesis using True assms(2) f by (simp add: direct_key_def read_pin_eq)
next
  case False
  then show ?thesis
    using assms(1,2) scanned_released [OF assms(1) False] by (simp add: direct_key_def read_pin_eq)
qed

text \<open>The tests \<open>ts\<close> are those of the keys \<open>us\<close>, while the ports are as \<open>R\<close> says.\<close>

definition tests_keys ::
  "(string \<Rightarrow> u8) \<Rightarrow> (string \<Rightarrow> u8) \<Rightarrow> pins \<Rightarrow> (nat \<times> nat \<Rightarrow> bool) \<Rightarrow> (board \<Rightarrow> bool) \<Rightarrow>
   (u8 \<times> u8 \<times> (nat \<Rightarrow> u8)) list \<Rightarrow> (nat \<times> nat) list \<Rightarrow> bool" where
  "tests_keys lufa lmod pins pressed R =
     list_all2 (\<lambda>(bits, m, c) k. (\<forall>b. R b \<longrightarrow> (pins b PINB AND bits \<noteq> 0 \<longleftrightarrow> pressed k)) \<and>
       key_code lufa (sym_of (fn_of pressed) k) = c (fn_of pressed) \<and> key_code lmod (mod_of k) = m \<and>
       c (fn_of pressed) \<noteq> 0)"

lemma direct_keys_scanned:
  assumes "tests_keys lufa lmod pins pressed R ts us" "scanned lufa lmod pressed ks s" "R (brd s)"
    and "\<And>b. R b \<Longrightarrow> R (counted b)"
  shows "\<exists>s'. direct_keys pins ts s = Inr s' \<and> scanned lufa lmod pressed (ks @ us) s' \<and> R (brd s') \<and>
    TouchPadLocked s' = TouchPadLocked s"
  using assms(1-3) unfolding tests_keys_def
proof (induction ts us arbitrary: s ks rule: list_all2_induct)
  case (Cons t ts k us)
  obtain bits m c where t: "t = (bits, m, c)" by (cases t)
  obtain s1 where s1: "direct_key pins bits m c s = Inr s1" "scanned lufa lmod pressed (ks @ [k]) s1"
      "brd s1 = counted (brd s)" "TouchPadLocked s1 = TouchPadLocked s"
    using direct_key_scanned [where bits = bits and m = m and c = c, OF Cons.prems(1), of pins k] Cons.hyps(1) Cons.prems(2) unfolding t by auto
  then show ?case using Cons.IH [OF s1(2)] assms(4) [OF Cons.prems(2)] by (auto simp: t)
qed simp

lemma table_13:
  "key_code lufa (sym_of f (3, 13)) = (if f = 112 then lufa ''PAGE_UP'' else lufa ''UP_ARROW'')"
  "key_code lufa (sym_of f (1, 13)) = lufa ''LEFT_SHIFT''"
  "key_code lufa (sym_of f (5, 13)) = (if f = 112 then lufa ''HOME'' else lufa ''LEFT_ARROW'')"
  "key_code lufa (sym_of f (2, 13)) = lufa ''RIGHT_SHIFT''" if "f = 0 \<or> f = 112"
  using that by (auto simp: sym_of_def keys_def)

lemma table_0:
  "key_code lufa (sym_of f (4, 0)) = lufa ''RIGHT_CONTROL''"
  "key_code lufa (sym_of f (0, 0)) = lufa ''LEFT_CONTROL''"
  "key_code lufa (sym_of f (7, 0)) = (if f = 112 then lufa ''VOLUME_UP'' else lufa ''F5'')" if "f = 0 \<or> f = 112"
  using that by (auto simp: sym_of_def keys_def)

lemma table_mods:
  "mod_of (3, 13) = NoKey" "mod_of (1, 13) = Lufa ''LEFTSHIFT''" "mod_of (5, 13) = NoKey"
  "mod_of (2, 13) = Lufa ''RIGHTSHIFT''" "mod_of (4, 0) = Lufa ''RIGHTCTRL''" "mod_of (0, 0) = Lufa ''LEFTCTRL''"
  "mod_of (7, 0) = NoKey"
  by (simp_all add: mod_of_def keym_def)

lemma fn_of_cases: "fn_of pressed = 0 \<or> fn_of pressed = 112"
  by (simp add: fn_of_def)

lemmas table_rows = table_13 [OF fn_of_cases] table_0 [OF fn_of_cases] table_mods
  table_13(2) [OF fn_of_cases, unfolded One_nat_def] table_mods(2) [unfolded One_nat_def]

lemma rowYN_nth: "rowYN ! 0 = 0x40" "rowYN ! Suc 0 = 0x02" "rowYN ! 1 = 0x02" "rowYN ! 2 = 0x80" "rowYN ! 3 = 0x01" "rowYN ! 4 = 0x10"
  "rowYN ! 5 = 0x20" "rowYN ! 7 = 0x08"
  by (simp_all add: rowYN_def)

lemma wired_13:
  assumes "wired pins pressed" "DDRB b = 0" "PORTB b = 0" "DDRD b = 0x10" "PORTD b = 0x10"
  shows "pins b PINB AND 0x40 \<noteq> 0 \<longleftrightarrow> pressed (0, 13)" "pins b PINB AND 0x01 \<noteq> 0 \<longleftrightarrow> pressed (3, 13)"
    "pins b PINB AND 0x02 \<noteq> 0 \<longleftrightarrow> pressed (1, 13)" "pins b PINB AND 0x20 \<noteq> 0 \<longleftrightarrow> pressed (5, 13)"
    "pins b PINB AND 0x80 \<noteq> 0 \<longleftrightarrow> pressed (2, 13)"
proof -
  have "\<forall>c<8. pins b PINB AND rowYN ! c \<noteq> 0 \<longleftrightarrow> pressed (c, 13)"
    using assms unfolding wired_def by blast
  then have c: "c < 8 \<Longrightarrow> pins b PINB AND rowYN ! c \<noteq> 0 \<longleftrightarrow> pressed (c, 13)" for c by blast
  show "pins b PINB AND 0x40 \<noteq> 0 \<longleftrightarrow> pressed (0, 13)" "pins b PINB AND 0x01 \<noteq> 0 \<longleftrightarrow> pressed (3, 13)"
    "pins b PINB AND 0x02 \<noteq> 0 \<longleftrightarrow> pressed (1, 13)" "pins b PINB AND 0x20 \<noteq> 0 \<longleftrightarrow> pressed (5, 13)"
    "pins b PINB AND 0x80 \<noteq> 0 \<longleftrightarrow> pressed (2, 13)"
    using c [of 0] c [of 3] c [of 1] c [of 5] c [of 2] by (simp_all add: rowYN_nth)
qed

lemma wired_0:
  assumes "wired pins pressed" "DDRB b = 0" "PORTB b = 0" "DDRD b = 0x40" "PORTD b = 0x40"
  shows "pins b PINB AND 0x10 \<noteq> 0 \<longleftrightarrow> pressed (4, 0)" "pins b PINB AND 0x40 \<noteq> 0 \<longleftrightarrow> pressed (0, 0)"
    "pins b PINB AND 0x08 \<noteq> 0 \<longleftrightarrow> pressed (7, 0)"
proof -
  have "\<forall>c<8. pins b PINB AND rowYN ! c \<noteq> 0 \<longleftrightarrow> pressed (c, 0)"
    using assms unfolding wired_def by blast
  then have c: "c < 8 \<Longrightarrow> pins b PINB AND rowYN ! c \<noteq> 0 \<longleftrightarrow> pressed (c, 0)" for c by blast
  show "pins b PINB AND 0x10 \<noteq> 0 \<longleftrightarrow> pressed (4, 0)" "pins b PINB AND 0x40 \<noteq> 0 \<longleftrightarrow> pressed (0, 0)"
    "pins b PINB AND 0x08 \<noteq> 0 \<longleftrightarrow> pressed (7, 0)"
    using c [of 4] c [of 0] c [of 7] by (simp_all add: rowYN_nth)
qed

lemma drive_regs [simp]:
  "DDRB (brd (drive a b c d s)) = a" "PORTB (brd (drive a b c d s)) = b" "DDRD (brd (drive a b c d s)) = c"
  "PORTD (brd (drive a b c d s)) = d" "fn (drive a b c d s) = fn s"
  "TouchPadLocked (drive a b c d s) = TouchPadLocked s" "found cs m (drive a b c d s) = found cs m s"
  "scanned lufa lmod pressed ks (drive a b c d s) = scanned lufa lmod pressed ks s"
  "rows_in (brd (drive a b c d s)) = rows_in (brd s)"
  by (simp_all add: drive_def scanned_def found_def)

lemma row_13_scanned:
  assumes "wired pins pressed" "\<forall>n. lufa n \<noteq> 0" "found [] 0 s" "fn s = 0" "rows_in (brd s)"
  shows "\<exists>s'. row_13 lufa lmod pins s = Inr s' \<and>
    scanned lufa lmod pressed [(3, 13), (1, 13), (5, 13), (2, 13)] s' \<and> rows_in (brd s') \<and> TouchPadLocked s' = TouchPadLocked s"
proof -
  define b where "b = counted (brd (drive 0x00 0x00 0x10 0x10 s))"
  define s1 where "s1 = (drive 0x00 0x00 0x10 0x10 s)\<lparr>brd := b\<rparr>"
  define s2 where "s2 = (if pressed (0, 13) then s1\<lparr>fn := 112\<rparr> else s1)"
  define R where "R b \<longleftrightarrow> DDRB b = 0 \<and> PORTB b = 0 \<and> DDRD b = 0x10 \<and> PORTD b = 0x10 \<and> rows_in b" for b
  have fn_read: "pins (brd (drive 0x00 0x00 0x10 0x10 s)) PINB AND 0x40 \<noteq> 0 \<longleftrightarrow> pressed (0, 13)"
    using assms(1) by (intro wired_13) simp_all
  have scan: "scanned lufa lmod pressed [] s2"
    using assms(3,4) by (simp add: s2_def s1_def scanned_def codes_of_def mods_of_def fn_of_def)
  have R: "R (brd s2)" "\<And>b. R b \<Longrightarrow> R (counted b)" using assms(5) by (simp_all add: R_def s2_def s1_def b_def)
  have lock: "TouchPadLocked s2 = TouchPadLocked s" by (simp add: s2_def s1_def)
  have w: "pins b PINB AND 0x01 \<noteq> 0 \<longleftrightarrow> pressed (3, 13)" "pins b PINB AND 0x02 \<noteq> 0 \<longleftrightarrow> pressed (1, 13)"
    "pins b PINB AND 0x20 \<noteq> 0 \<longleftrightarrow> pressed (5, 13)" "pins b PINB AND 0x80 \<noteq> 0 \<longleftrightarrow> pressed (2, 13)" if "R b" for b
    using wired_13 [OF assms(1), of b] that by (simp_all add: R_def)
  have finish: "\<exists>s'. direct_keys pins ts s2 = Inr s' \<and>
      scanned lufa lmod pressed [(3, 13), (1, 13), (5, 13), (2, 13)] s' \<and> rows_in (brd s') \<and> TouchPadLocked s' = TouchPadLocked s"
    if "tests_keys lufa lmod pins pressed R ts [(3, 13), (1, 13), (5, 13), (2, 13)]" for ts
    using direct_keys_scanned [OF that scan R] lock unfolding append_Nil R_def by metis
  show ?thesis
  proof (cases "pressed (0, 13)")
    case True
    then have "row_13 lufa lmod pins s = direct_keys pins
        [(0x01, 0, \<lambda>_. lufa ''PAGE_UP''), (0x02, lmod ''LEFTSHIFT'', \<lambda>_. lufa ''LEFT_SHIFT''),
         (0x20, 0, \<lambda>_. lufa ''HOME''), (0x80, lmod ''RIGHTSHIFT'', \<lambda>_. lufa ''RIGHT_SHIFT'')] s2"
      using fn_read by (simp add: row_13_def read_pin_eq s2_def s1_def b_def del: direct_keys.simps)
    moreover have "tests_keys lufa lmod pins pressed R
        [(0x01, 0, \<lambda>_. lufa ''PAGE_UP''), (0x02, lmod ''LEFTSHIFT'', \<lambda>_. lufa ''LEFT_SHIFT''),
         (0x20, 0, \<lambda>_. lufa ''HOME''), (0x80, lmod ''RIGHTSHIFT'', \<lambda>_. lufa ''RIGHT_SHIFT'')]
        [(3, 13), (1, 13), (5, 13), (2, 13)]"
      using assms(2) w by (simp add: tests_keys_def table_rows) (simp add: fn_of_def True)
    ultimately show ?thesis using finish by (simp only:)
  next
    case False
    then have "row_13 lufa lmod pins s = direct_keys pins
        [(0x01, 0, \<lambda>_. lufa ''UP_ARROW''), (0x02, lmod ''LEFTSHIFT'', \<lambda>_. lufa ''LEFT_SHIFT''),
         (0x20, 0, \<lambda>_. lufa ''LEFT_ARROW''), (0x80, lmod ''RIGHTSHIFT'', \<lambda>_. lufa ''RIGHT_SHIFT'')] s2"
      using fn_read by (simp add: row_13_def read_pin_eq s2_def s1_def b_def del: direct_keys.simps)
    moreover have "tests_keys lufa lmod pins pressed R
        [(0x01, 0, \<lambda>_. lufa ''UP_ARROW''), (0x02, lmod ''LEFTSHIFT'', \<lambda>_. lufa ''LEFT_SHIFT''),
         (0x20, 0, \<lambda>_. lufa ''LEFT_ARROW''), (0x80, lmod ''RIGHTSHIFT'', \<lambda>_. lufa ''RIGHT_SHIFT'')]
        [(3, 13), (1, 13), (5, 13), (2, 13)]"
      using assms(2) w by (simp add: tests_keys_def table_rows) (simp add: fn_of_def False)
    ultimately show ?thesis using finish by (simp only:)
  qed
qed

lemma row_0_scanned:
  assumes "wired pins pressed" "\<forall>n. lufa n \<noteq> 0" "scanned lufa lmod pressed ks s" "rows_in (brd s)"
  shows "\<exists>s'. row_0 lufa lmod pins s = Inr s' \<and> scanned lufa lmod pressed (ks @ [(4, 0), (0, 0), (7, 0)]) s' \<and>
    rows_in (brd s') \<and> TouchPadLocked s' = TouchPadLocked s"
proof -
  define R where "R b \<longleftrightarrow> DDRB b = 0 \<and> PORTB b = 0 \<and> DDRD b = 0x40 \<and> PORTD b = 0x40 \<and> rows_in b" for b
  let ?s = "drive 0x00 0x00 0x40 0x40 s"
  have R: "scanned lufa lmod pressed ks ?s" "R (brd ?s)" "\<And>b. R b \<Longrightarrow> R (counted b)"
    using assms(3,4) by (simp_all add: R_def)
  have w: "pins b PINB AND 0x10 \<noteq> 0 \<longleftrightarrow> pressed (4, 0)" "pins b PINB AND 0x40 \<noteq> 0 \<longleftrightarrow> pressed (0, 0)"
    "pins b PINB AND 0x08 \<noteq> 0 \<longleftrightarrow> pressed (7, 0)" if "R b" for b
    using wired_0 [OF assms(1), of b] that by (simp_all add: R_def)
  have "tests_keys lufa lmod pins pressed R
      [(0x10, lmod ''RIGHTCTRL'', \<lambda>_. lufa ''RIGHT_CONTROL''), (0x40, lmod ''LEFTCTRL'', \<lambda>_. lufa ''LEFT_CONTROL''),
       (0x08, 0, \<lambda>f. if f = 112 then lufa ''VOLUME_UP'' else lufa ''F5'')] [(4, 0), (0, 0), (7, 0)]"
    using assms(2) w by (simp add: tests_keys_def table_rows)
  from direct_keys_scanned [OF this R] show ?thesis
    unfolding row_0_def drive_regs R_def by metis
qed

text \<open>The columns.\<close>

lemma wired_column:
  assumes "wired pins pressed" "c < 8" "column_ready c b"
  shows "pins b PINB = rowY ! c"
    and "(x, p, k) \<in> set row_pins \<Longrightarrow> pins b p AND push_bit k 1 = 0 \<longleftrightarrow> pressed (c, x)"
proof -
  have "pins b PINB = rowY ! c \<and> (\<forall>(x, p, k) \<in> set row_pins. pins b p AND push_bit k 1 = 0 \<longleftrightarrow> pressed (c, x))"
    using assms unfolding wired_def by blast
  then show "pins b PINB = rowY ! c"
    "(x, p, k) \<in> set row_pins \<Longrightarrow> pins b p AND push_bit k 1 = 0 \<longleftrightarrow> pressed (c, x)" by blast+
qed

lemma length_keys: "length keys = 224" "length keym = 112" "length rowY = 8"
  by (simp_all add: keys_def keym_def rowY_def)

lemma table_entries:
  assumes "c < 8" "x < 14" "f \<in> {0, 112}"
  shows "array_at keys (c * 14 + x + f) = Inr (keys ! (c * 14 + x + f))" "array_at keym (c * 14 + x) = Inr (keym ! (c * 14 + x))"
    "array_at rowY c = Inr (rowY ! c)"
  using assms by (auto simp: array_at_def length_keys)

lemma row_pins_below: "(x, p, k) \<in> set row_pins \<Longrightarrow> x < 14"
  by (auto simp: row_pins_def)

text \<open>The touch pad lock key is not pressed together with the function key.\<close>

definition no_lock_in :: "(string \<Rightarrow> u8) \<Rightarrow> (nat \<times> nat \<Rightarrow> bool) \<Rightarrow> nat \<Rightarrow> bool" where
  "no_lock_in lufa pressed c \<longleftrightarrow>
     (pressed (c, 3) \<longrightarrow> key_code lufa (sym_of (fn_of pressed) (c, 3)) \<noteq> HID_KEY_LOCK_TOUCHPAD)"

definition no_lock :: "(string \<Rightarrow> u8) \<Rightarrow> (nat \<times> nat \<Rightarrow> bool) \<Rightarrow> bool" where
  "no_lock lufa pressed \<longleftrightarrow> (\<forall>c < 8. no_lock_in lufa pressed c)"

lemma scan_row_skip:
  assumes "wired pins pressed" "c < 8" "(x, p, k) \<in> set row_pins" "x \<noteq> 3 \<or> no_lock_in lufa pressed c"
    and "column_ready c (brd s)" "scanned lufa lmod pressed ks s"
  shows "\<exists>s'. scan_row lufa lmod pins c x p k s = Some (Inr s') \<and> column_ready c (brd s') \<and>
     scanned lufa lmod pressed (ks @ [(c, x)]) s' \<and> TouchPadLocked s' = TouchPadLocked s"
proof -
  let ?s = "s\<lparr>brd := counted (brd s)\<rparr>"
  have pin: "pins (brd s) p AND push_bit k 1 = 0 \<longleftrightarrow> pressed (c, x)"
    by (rule wired_column(2) [OF assms(1,2,5,3)])
  have f: "fn s = fn_of pressed" using assms(6) by (simp add: scanned_def)
  show ?thesis
  proof (cases "pressed (c, x)")
    case True
    define code where "code = key_code lufa (sym_of (fn_of pressed) (c, x))"
    define m where "m = key_code lmod (mod_of (c, x))"
    have "fn_of pressed \<in> {0, 112}" by (simp add: fn_of_def)
    note entries = table_entries(1,2) [OF assms(2) row_pins_below [OF assms(3)] this]
    have "\<not> (x = 3 \<and> code = HID_KEY_LOCK_TOUCHPAD)"
      using assms(4) True by (auto simp: no_lock_in_def code_def)
    then have "scan_row lufa lmod pins c x p k s
        = Some (if code \<noteq> 0 then press code (modify m ?s) else Inr (modify m ?s))"
      using True pin f entries by (auto simp: scan_row_def read_pin_eq code_def m_def sym_of_def mod_of_def Let_def)
    moreover have "\<exists>s'. (if code \<noteq> 0 then press code (modify m ?s) else Inr (modify m ?s)) = Inr s' \<and>
        scanned lufa lmod pressed (ks @ [(c, x)]) s' \<and> brd s' = brd ?s \<and> TouchPadLocked s' = TouchPadLocked ?s"
      using assms(6) by (intro scanned_store [where k = "(c, x)"]) (simp_all add: code_def m_def True)
    ultimately show ?thesis using assms(5) by auto
  next
    case False
    then have "scan_row lufa lmod pins c x p k s = Some (Inr ?s)"
      using pin by (simp add: scan_row_def read_pin_eq)
    then show ?thesis using scanned_released [OF assms(6) False] assms(5) by simp
  qed
qed

text \<open>The twelve rows one after the other.\<close>

lemma scan_rows_list: "scan_rows lufa lmod pins c s = scan_list lufa lmod pins c row_pins s"
  by (simp only: scan_rows_def row_pins_def)

lemma scan_list_scanned:
  assumes "wired pins pressed" "no_lock_in lufa pressed c" "c < 8" "set rs \<subseteq> set row_pins"
  shows "column_ready c (brd s) \<Longrightarrow> scanned lufa lmod pressed ks s \<Longrightarrow>
    \<exists>s'. scan_list lufa lmod pins c rs s = Some (Inr s') \<and> column_ready c (brd s') \<and>
      scanned lufa lmod pressed (ks @ map (Pair c) (map fst rs)) s' \<and> TouchPadLocked s' = TouchPadLocked s"
  using assms(4)
proof (induction rs arbitrary: s ks)
  case Nil
  then show ?case by simp
next
  case (Cons r rs)
  obtain x p k where r: "r = (x, p, k)" by (cases r)
  then have "(x, p, k) \<in> set row_pins" "set rs \<subseteq> set row_pins" using Cons.prems(3) by simp_all
  from scan_row_skip [OF assms(1,3) this(1) disjI2 [OF assms(2)] Cons.prems(1,2)] obtain s1 where
    s1: "scan_row lufa lmod pins c x p k s = Some (Inr s1)" "column_ready c (brd s1)"
      "scanned lufa lmod pressed (ks @ [(c, x)]) s1" "TouchPadLocked s1 = TouchPadLocked s" by blast
  from Cons.IH [OF s1(2,3) \<open>set rs \<subseteq> set row_pins\<close>] s1 show ?case by (auto simp: r)
qed

lemma wait_pin_there: "P (pins (brd s) p) \<Longrightarrow> wait_pin pins p P s = Some (Inr (s\<lparr>brd := counted (brd s)\<rparr>))"
  by (subst wait_pin.simps) (simp add: read_pin_eq)

lemma column_scanned:
  assumes "wired pins pressed" "no_lock_in lufa pressed c" "c < 8"
    and "(if c = 0 then first_column lufa lmod pins s else Inr s) = Inr s1"
    and "DDRB (brd s1) = 0xff" "pulled_up (brd s1)" "scanned lufa lmod pressed ks s1"
  shows "\<exists>s'. scan_column lufa lmod pins c s = Some (Inr s') \<and> DDRB (brd s') = 0xff \<and> pulled_up (brd s') \<and>
     scanned lufa lmod pressed (ks @ map (Pair c) [1..<13]) s' \<and> TouchPadLocked s' = TouchPadLocked s1"
proof -
  let ?b = "(brd s1)\<lparr>PORTB := rowY ! c\<rparr>"
  have ready: "column_ready c ?b" using assms(5,6) by (simp add: column_ready_def)
  have "map fst row_pins = [1..<13]" by (simp add: row_pins_def upt_rec)
  then obtain s4 where s4: "scan_list lufa lmod pins c row_pins (s1\<lparr>brd := counted ?b\<rparr>) = Some (Inr s4)"
      "column_ready c (brd s4)" "scanned lufa lmod pressed (ks @ map (Pair c) [1..<13]) s4"
      "TouchPadLocked s4 = TouchPadLocked s1"
    using scan_list_scanned [OF assms(1-3) subset_refl, of "s1\<lparr>brd := counted ?b\<rparr>" lmod ks] ready assms(7) by auto
  have w: "wait_pin pins PINB (\<lambda>v. v = rowY ! c) (s1\<lparr>brd := ?b\<rparr>) = Some (Inr (s1\<lparr>brd := counted ?b\<rparr>))"
    using wired_column(1) [OF assms(1,3) ready] wait_pin_there [of "\<lambda>v. v = rowY ! c" pins "s1\<lparr>brd := ?b\<rparr>" PINB] by simp
  have "scan_column lufa lmod pins c s = Some (Inr (s4\<lparr>brd := (brd s4)\<lparr>DDRD := 0, PORTD := 0xfc\<rparr>\<rparr>))"
    unfolding scan_column_def assms(4) table_entries(3) [OF assms(3), of 0 0, simplified] bind_o_simps w
    by (simp add: scan_rows_list s4(1))
  then show ?thesis using s4(2-4) by (auto simp: column_ready_def pulled_up_def)
qed

lemma scan_columns_scanned:
  assumes "wired pins pressed" "no_lock lufa pressed" "\<forall>c \<in> set cs. 0 < c \<and> c < 8"
  shows "DDRB (brd s) = 0xff \<Longrightarrow> pulled_up (brd s) \<Longrightarrow> scanned lufa lmod pressed ks s \<Longrightarrow>
    \<exists>s'. scan_columns lufa lmod pins cs s = Some (Inr s') \<and>
      scanned lufa lmod pressed (ks @ concat (map (\<lambda>c. map (Pair c) [1..<13]) cs)) s' \<and>
      TouchPadLocked s' = TouchPadLocked s"
  using assms(3)
proof (induction cs arbitrary: s ks)
  case Nil
  then show ?case by simp
next
  case (Cons c cs)
  have c: "c < 8" "(if c = 0 then first_column lufa lmod pins s else Inr s) = Inr s" using Cons.prems(4) by auto
  obtain s1 where s1: "scan_column lufa lmod pins c s = Some (Inr s1)" "DDRB (brd s1) = 0xff" "pulled_up (brd s1)"
      "scanned lufa lmod pressed (ks @ map (Pair c) [1..<13]) s1" "TouchPadLocked s1 = TouchPadLocked s"
    using column_scanned [OF assms(1) _ c Cons.prems(1-3)] c(1) assms(2) by (auto simp: no_lock_def)
  from Cons.IH [OF s1(2-4)] Cons.prems(4) s1 show ?case by auto
qed

lemma first_column_scanned:
  assumes "wired pins pressed" "\<forall>n. lufa n \<noteq> 0" "found [] 0 s" "fn s = 0" "rows_in (brd s)"
  shows "\<exists>s'. first_column lufa lmod pins s = Inr s' \<and>
    scanned lufa lmod pressed [(3, 13), (1, 13), (5, 13), (2, 13), (4, 0), (0, 0), (7, 0)] s' \<and>
    DDRB (brd s') = 0xff \<and> pulled_up (brd s') \<and> TouchPadLocked s' = TouchPadLocked s"
proof -
  obtain s1 where s1: "row_13 lufa lmod pins s = Inr s1" "scanned lufa lmod pressed [(3, 13), (1, 13), (5, 13), (2, 13)] s1"
      "rows_in (brd s1)" "TouchPadLocked s1 = TouchPadLocked s"
    using row_13_scanned [OF assms, of lmod] by blast
  obtain s2 where s2: "row_0 lufa lmod pins s1 = Inr s2" "rows_in (brd s2)" "TouchPadLocked s2 = TouchPadLocked s1"
      "scanned lufa lmod pressed [(3, 13), (1, 13), (5, 13), (2, 13), (4, 0), (0, 0), (7, 0)] s2"
    using row_0_scanned [OF assms(1,2) s1(2,3)] by auto
  show ?thesis
    using s1 s2 by (simp add: first_column_def array_at_def length_keys pulled_up_def)
qed

lemma report_start_ready:
  "found [] 0 (report_start s)" "fn (report_start s) = 0" "rows_in (brd (report_start s))"
  by (simp_all add: report_start_def found_def slots_def numeral_eq_Suc rows_in_def)

lemma report_scanned:
  assumes "wired pins pressed" "no_lock lufa pressed" "\<forall>n. lufa n \<noteq> 0"
  shows "\<exists>s'. scan_columns lufa lmod pins [0..<8] (report_start s) = Some (Inr s') \<and>
      scanned lufa lmod pressed scan_order s' \<and> TouchPadLocked s' = TouchPadLocked s"
proof -
  let ?pre = "[(3, 13), (1, 13), (5, 13), (2, 13), (4, 0), (0, 0), (7, 0)] :: (nat \<times> nat) list"
  have "TouchPadLocked (report_start s) = TouchPadLocked s" by (simp add: report_start_def)
  then obtain s0 where s0: "first_column lufa lmod pins (report_start s) = Inr s0" "scanned lufa lmod pressed ?pre s0"
      "DDRB (brd s0) = 0xff" "pulled_up (brd s0)" "TouchPadLocked s0 = TouchPadLocked s"
    using first_column_scanned [OF assms(1,3) report_start_ready, of lmod s] by auto
  then have "(if (0::nat) = 0 then first_column lufa lmod pins (report_start s) else Inr (report_start s)) = Inr s0" by simp
  from column_scanned [OF assms(1) _ _ this s0(3,4,2)] obtain s1 where
    s1: "scan_column lufa lmod pins 0 (report_start s) = Some (Inr s1)" "DDRB (brd s1) = 0xff" "pulled_up (brd s1)"
      "scanned lufa lmod pressed (?pre @ map (Pair 0) [1..<13]) s1" "TouchPadLocked s1 = TouchPadLocked s"
    using s0(5) assms(2) by (auto simp: no_lock_def)
  have split: "[0..<8] = 0 # [1..<8]" by (simp add: upt_rec)
  obtain s2 where s2: "scan_columns lufa lmod pins [1..<8] s1 = Some (Inr s2)"
      "scanned lufa lmod pressed ((?pre @ map (Pair 0) [1..<13]) @ concat (map (\<lambda>c. map (Pair c) [1..<13]) [1..<8])) s2"
      "TouchPadLocked s2 = TouchPadLocked s1"
    using scan_columns_scanned [OF assms(1,2) _ s1(2-4), of "[1..<8]"] by auto
  have "scan_order = (?pre @ map (Pair 0) [1..<13]) @ concat (map (\<lambda>c. map (Pair c) [1..<13]) [1..<8])"
    unfolding scan_order_def split by (simp only: list.map concat.simps append_assoc)
  then show ?thesis using s1 s2 unfolding split by simp
qed

section \<open>Any matrix\<close>

text \<open>Whatever the pins do, the slots and the tables are used within their bounds.\<close>

definition in_bounds :: "keyboard \<Rightarrow> bool" where
  "in_bounds s \<longleftrightarrow> unat (keyc s) \<le> 5 \<and> length (KeyCode s) = 6 \<and> fn s \<in> {0, 112} \<and> rows_in (brd s)"

definition safe_c :: "('a \<Rightarrow> bool) \<Rightarrow> 'a c \<Rightarrow> bool" where
  "safe_c P r \<longleftrightarrow> safe_o P (Some r)"

lemma safe_c_simps [simp]: "safe_c P (Inr x) = P x" "\<not> safe_c P (Inl e)"
  by (simp_all add: safe_c_def)

lemma safe_c_bind: "safe_c P r \<Longrightarrow> (\<And>x. P x \<Longrightarrow> safe_c Q (f x)) \<Longrightarrow> safe_c Q (bind_c r f)"
  by (cases r) simp_all

lemma in_bounds_press [inv_intros]: "in_bounds s \<Longrightarrow> safe_c in_bounds (press c s)"
proof -
  assume b: "in_bounds s"
  have "unat (keyc s + 1) \<le> 5" if "keyc s < 5"
  proof -
    have "unat (keyc s) < 5" using that by (simp add: word_less_nat_alt)
    then show ?thesis by (simp add: unat_word_ariths)
  qed
  then show "safe_c in_bounds (press c s)" using b by (simp add: in_bounds_def press_def store_key_def)
qed

lemma in_bounds_simps [simp]:
  "in_bounds (modify k s) = in_bounds s" "in_bounds (s\<lparr>brd := counted (brd s)\<rparr>) = in_bounds s"
  "in_bounds (s\<lparr>brd := (brd s)\<lparr>reads := n\<rparr>\<rparr>) = in_bounds s" "in_bounds (s\<lparr>brd := (brd s)\<lparr>PORTB := y\<rparr>\<rparr>) = in_bounds s"
  "in_bounds (s\<lparr>TouchPadLocked := l\<rparr>) = in_bounds s" "in_bounds (drive a b' c d s) = in_bounds s"
  "in_bounds s \<Longrightarrow> in_bounds (s\<lparr>fn := 112\<rparr>)"
  by (simp_all add: in_bounds_def modify_def drive_def)

lemma in_bounds_direct_key [inv_intros]: "in_bounds s \<Longrightarrow> safe_c in_bounds (direct_key pins bits m c s)"
  by (simp add: direct_key_def read_pin_eq in_bounds_press)

lemma in_bounds_direct_keys [inv_intros]: "in_bounds s \<Longrightarrow> safe_c in_bounds (direct_keys pins ks s)"
proof (induction ks arbitrary: s)
  case (Cons k ks)
  then show ?case by (cases k) (auto intro: safe_c_bind in_bounds_direct_key)
qed simp

lemma in_bounds_first_column [inv_intros]:
  assumes "in_bounds s"
  shows "safe_c in_bounds (first_column lufa lmod pins s)"
proof -
  have "safe_c in_bounds (row_13 lufa lmod pins s)" if "in_bounds s" for s
    using that by (simp add: row_13_def read_pin_eq Let_def in_bounds_direct_keys del: direct_keys.simps)
  moreover have "safe_c in_bounds (row_0 lufa lmod pins s)" if "in_bounds s" for s
    using that unfolding row_0_def by (intro in_bounds_direct_keys) simp
  moreover have "safe_c in_bounds (bind_c (array_at rowY 0) (\<lambda>y. Inr (drive 0xff y 0 0xfc s)))" if "in_bounds s" for s
    using that by (simp add: array_at_def length_keys)
  ultimately show ?thesis
    using assms unfolding first_column_def by (blast intro: safe_c_bind [where P = in_bounds])
qed

text \<open>A wait changes nothing but the number of reads, and ends with the pin as wanted.\<close>

lemma wait_pin_result:
  "wait_pin pins p P s = Some r \<Longrightarrow>
   \<exists>n. r = Inr (s\<lparr>brd := (brd s)\<lparr>reads := n\<rparr>\<rparr>) \<and> (\<exists>n'. P (pins ((brd s)\<lparr>reads := n'\<rparr>) p))"
proof (erule wait_pin.raw_induct [rotated])
  fix f and pins :: pins and p P s r
  assume IH: "\<And>pins p P s r. f pins p P s = Some r \<Longrightarrow>
      \<exists>n. r = Inr (s\<lparr>brd := (brd s)\<lparr>reads := n\<rparr>\<rparr>) \<and> (\<exists>n'. P (pins ((brd s)\<lparr>reads := n'\<rparr>) p))"
    and body: "(let (v, s') = read_pin pins p s in if P v then Some (Inr s') else f pins p P s') = Some r"
  let ?s = "s\<lparr>brd := counted (brd s)\<rparr>"
  show "\<exists>n. r = Inr (s\<lparr>brd := (brd s)\<lparr>reads := n\<rparr>\<rparr>) \<and> (\<exists>n'. P (pins ((brd s)\<lparr>reads := n'\<rparr>) p))"
  proof (cases "P (pins (brd s) p)")
    case True
    then have "P (pins ((brd s)\<lparr>reads := reads (brd s)\<rparr>) p)" by simp
    moreover have "r = Inr ?s" using body True by (simp add: read_pin_eq)
    ultimately show ?thesis unfolding counted_def by blast
  next
    case False
    then have "f pins p P ?s = Some r" using body by (simp add: read_pin_eq)
    from IH [OF this] show ?thesis by (simp add: counted_def)
  qed
qed

lemma in_bounds_wait [inv_intros]: "in_bounds s \<Longrightarrow> safe_o in_bounds (wait_pin pins p P s)"
  using wait_pin_result [of pins p P s] by (cases "wait_pin pins p P s") auto

lemma in_bounds_scan_row [inv_intros]:
  assumes "in_bounds s" "c < 8" "x < 14"
  shows "safe_o in_bounds (scan_row lufa lmod pins c x p k s)"
proof (cases "pins (brd s) p AND push_bit k 1 = 0")
  case True
  define code where "code = key_code lufa (keys ! (c * 14 + x + fn s))"
  define s2 where "s2 = modify (key_code lmod (keym ! (c * 14 + x))) (s\<lparr>brd := counted (brd s)\<rparr>)"
  have s2: "in_bounds s2" using assms(1) by (simp add: s2_def)
  have "fn s \<in> {0, 112}" using assms(1) by (simp add: in_bounds_def)
  note entries = table_entries(1,2) [OF assms(2,3) this]
  have "safe_o in_bounds (if x = 3 \<and> code = HID_KEY_LOCK_TOUCHPAD
        then wait_pin pins p (\<lambda>v. v AND push_bit k 1 \<noteq> 0) (s2\<lparr>TouchPadLocked := \<not> TouchPadLocked s2\<rparr>)
        else Some (Inr s2))"
    using s2 by (simp add: in_bounds_wait)
  then have "safe_o in_bounds (bind_o (if x = 3 \<and> code = HID_KEY_LOCK_TOUCHPAD
        then wait_pin pins p (\<lambda>v. v AND push_bit k 1 \<noteq> 0) (s2\<lparr>TouchPadLocked := \<not> TouchPadLocked s2\<rparr>)
        else Some (Inr s2)) (\<lambda>s3. Some (if code \<noteq> 0 then press code s3 else Inr s3)))"
    by (rule safe_o_bind) (auto simp: in_bounds_press simp flip: safe_c_def)
  then show ?thesis
    unfolding code_def s2_def using True
    by (simp add: scan_row_def read_pin_eq Let_def entries split del: if_split)
next
  case False
  then show ?thesis using assms by (simp add: scan_row_def read_pin_eq)
qed

lemma in_bounds_scan_list:
  "in_bounds s \<Longrightarrow> c < 8 \<Longrightarrow> \<forall>(x, p, k) \<in> set rs. x < 14 \<Longrightarrow> safe_o in_bounds (scan_list lufa lmod pins c rs s)"
proof (induction rs arbitrary: s)
  case (Cons r rs)
  obtain x p k where r: "r = (x, p, k)" by (cases r)
  have "safe_o in_bounds (bind_o (scan_row lufa lmod pins c x p k s) (scan_list lufa lmod pins c rs))"
    using Cons r by (intro safe_o_bind [OF in_bounds_scan_row]) auto
  then show ?case by (simp add: r)
qed simp

lemma in_bounds_scan_column:
  assumes "in_bounds s" "c < 8"
  shows "safe_o (\<lambda>s'. in_bounds s' \<and> pulled_up (brd s')) (scan_column lufa lmod pins c s)"
proof -
  have "safe_o in_bounds (Some (if c = 0 then first_column lufa lmod pins s else Inr s))"
    using assms(1) in_bounds_first_column unfolding safe_c_def [symmetric] by simp
  moreover have "array_at rowY c = Inr (rowY ! c)" using assms(2) by (simp add: array_at_def length_keys)
  moreover have "safe_o in_bounds (scan_rows lufa lmod pins c s)" if "in_bounds s" for s
    unfolding scan_rows_list using that assms(2) row_pins_below by (intro in_bounds_scan_list) auto
  ultimately show ?thesis
    unfolding scan_column_def
    by (intro safe_o_bind [where P = in_bounds]; (simp only: bind_o_simps)?)
      (auto intro!: safe_o_bind [where P = in_bounds] in_bounds_wait simp: in_bounds_def pulled_up_def)
qed

lemma in_bounds_scan_columns:
  "\<forall>c \<in> set cs. c < 8 \<Longrightarrow> in_bounds s \<and> pulled_up (brd s) \<Longrightarrow>
   safe_o (\<lambda>s'. in_bounds s' \<and> pulled_up (brd s')) (scan_columns lufa lmod pins cs s)"
proof (induction cs arbitrary: s)
  case (Cons c cs)
  show ?case
    unfolding scan_columns.simps
  proof (rule safe_o_bind)
    show "safe_o (\<lambda>s'. in_bounds s' \<and> pulled_up (brd s')) (scan_column lufa lmod pins c s)"
      using Cons.prems by (intro in_bounds_scan_column) simp_all
  qed (use Cons in simp)
qed simp

text \<open>Nothing goes wrong in a report, and it leaves the rows as inputs.\<close>

lemma report_safe: "safe_o (\<lambda>s'. in_bounds s' \<and> pulled_up (brd s')) (CreateKeyboardReport lufa lmod pins s)"
proof -
  have "in_bounds (report_start s) \<and> pulled_up (brd (report_start s))"
    by (simp add: in_bounds_def report_start_def rows_in_def pulled_up_def)
  then have "safe_o (\<lambda>s'. in_bounds s' \<and> pulled_up (brd s')) (scan_columns lufa lmod pins [0..<8] (report_start s))"
    by (intro in_bounds_scan_columns) simp
  then show ?thesis
    unfolding CreateKeyboardReport_def by (rule safe_o_bind) (simp add: in_bounds_def)
qed

text \<open>A key that is held forever makes the wait for its release endless.\<close>

lemma wait_pin_endless:
  assumes "\<And>n. \<not> P (pins ((brd s)\<lparr>reads := n\<rparr>) p)"
  shows "wait_pin pins p P s = None"
  using wait_pin_result [of pins p P s] assms by (cases "wait_pin pins p P s") auto

lemma lock_row_endless:
  assumes "wired pins pressed" "pressed (0, 13)" "pressed (1, 3)"
    and "column_ready 1 (brd s)" "scanned lufa lmod pressed ks s"
  shows "scan_row lufa lmod pins 1 3 PIND 7 s = None"
proof -
  have f: "fn s = 112" using assms(2,5) by (simp add: scanned_def fn_of_def)
  have low: "pins b PIND AND push_bit 7 1 = 0" if "column_ready 1 b" for b
    using wired_column(2) [OF assms(1) _ that, of 3 PIND 7] assms(3) by (simp add: row_pins_def)
  have key: "key_code lufa (keys ! (1 * 14 + 3 + 112)) = HID_KEY_LOCK_TOUCHPAD"
    by (simp add: keys_def)
  have "wait_pin pins PIND (\<lambda>v. v AND push_bit 7 1 \<noteq> 0) t = None" if "column_ready 1 (brd t)" for t
  proof (rule wait_pin_endless)
    fix n
    have "column_ready 1 ((brd t)\<lparr>reads := n\<rparr>)" using that by simp
    then show "\<not> pins ((brd t)\<lparr>reads := n\<rparr>) PIND AND push_bit 7 1 \<noteq> 0" using low by blast
  qed
  then show ?thesis
    using low [OF assms(4)] key assms(4) f table_entries(1,2) [of 1 3 112]
    by (simp add: scan_row_def read_pin_eq Let_def)
qed

lemma lock_column_endless:
  assumes "wired pins pressed" "pressed (0, 13)" "pressed (1, 3)"
    and "DDRB (brd s) = 0xff" "pulled_up (brd s)" "scanned lufa lmod pressed ks s"
  shows "scan_column lufa lmod pins 1 s = None"
proof -
  let ?b = "(brd s)\<lparr>PORTB := rowY ! 1\<rparr>"
  have ready: "column_ready 1 ?b" using assms(4,5) by (simp add: column_ready_def)
  have w: "wait_pin pins PINB (\<lambda>v. v = rowY ! 1) (s\<lparr>brd := ?b\<rparr>) = Some (Inr (s\<lparr>brd := counted ?b\<rparr>))"
    using wired_column(1) [OF assms(1) _ ready] wait_pin_there [of "\<lambda>v. v = rowY ! 1" pins "s\<lparr>brd := ?b\<rparr>" PINB] by simp
  have step: "\<exists>t'. scan_row lufa lmod pins 1 x p k t = Some (Inr t') \<and> column_ready 1 (brd t') \<and>
      (\<exists>ks. scanned lufa lmod pressed ks t')"
    if row: "(x, p, k) \<in> set row_pins" "x \<noteq> 3" "column_ready 1 (brd t)" "\<exists>ks. scanned lufa lmod pressed ks t" for x p k t
  proof -
    obtain ks' where ks': "scanned lufa lmod pressed ks' t" using row(4) by blast
    show ?thesis
      using scan_row_skip [OF assms(1) _ row(1) disjI1 [OF row(2)] row(3) ks'] by auto
  qed
  obtain t1 where t1: "scan_row lufa lmod pins 1 1 PINC 7 (s\<lparr>brd := counted ?b\<rparr>) = Some (Inr t1)" "column_ready 1 (brd t1)"
      "\<exists>ks. scanned lufa lmod pressed ks t1"
    using step [of 1 PINC 7 "s\<lparr>brd := counted ?b\<rparr>"] ready assms(6) by (auto simp: row_pins_def)
  obtain t2 where t2: "scan_row lufa lmod pins 1 2 PINC 6 t1 = Some (Inr t2)" "column_ready 1 (brd t2)"
      "\<exists>ks. scanned lufa lmod pressed ks t2"
    using step [of 2 PINC 6 t1] t1 by (auto simp: row_pins_def)
  then have t3: "scan_row lufa lmod pins 1 3 PIND 7 t2 = None"
    using lock_row_endless [OF assms(1-3) t2(2)] by blast
  have rows: "scan_rows lufa lmod pins 1 (s\<lparr>brd := counted ?b\<rparr>) = None"
    unfolding scan_rows_def by (simp only: scan_list.simps prod.case t1(1) t2(1) t3 bind_o_simps)
  have "array_at rowY 1 = Inr (rowY ! 1)" by (simp add: array_at_def length_keys)
  then show ?thesis
    unfolding scan_column_def by (simp only: if_False one_neq_zero bind_o_simps w rows)
qed

section \<open>Properties\<close>

lemma report_keys:
  assumes "wired pins pressed" "no_lock lufa pressed" "\<forall>n. lufa n \<noteq> 0"
  shows "\<exists>s'. CreateKeyboardReport lufa lmod pins s = Some (Inr s') \<and>
    KeyCode s' = slots (codes_of lufa (fn_of pressed) (filter pressed scan_order)) \<and>
    Modifier s' = mods_of lmod (filter pressed scan_order) \<and>
    (guarded s' \<longleftrightarrow> mods_of lmod (filter pressed scan_order) = 0 \<and>
        codes_of lufa (fn_of pressed) (filter pressed scan_order) \<noteq> []) \<and>
    TouchPadLocked s' = TouchPadLocked s"
proof -
  define cs where "cs = codes_of lufa (fn_of pressed) (filter pressed scan_order)"
  obtain s1 where s1: "scan_columns lufa lmod pins [0..<8] (report_start s) = Some (Inr s1)"
      "scanned lufa lmod pressed scan_order s1" "TouchPadLocked s1 = TouchPadLocked s"
    using report_scanned [OF assms(1,2), of lmod s] assms(3) by blast
  have "(word_of_nat (min 5 (length cs)) :: u8) \<noteq> 0 \<longleftrightarrow> cs \<noteq> []"
    by (auto simp: word_unat_eq_iff unat_of_nat min_def)
  then show ?thesis
    using s1 by (auto simp: CreateKeyboardReport_def scanned_def found_def cs_def)
qed

text \<open>
  C10. On a steady matrix the report is made, and holds exactly the pressed keys: the codes of the
  keys as the table gives them, shifted by 112 entries while the function key is held, in the order
  of the scan, the first five in their slots and the last of the others in the sixth; the modifier
  byte is the union of the modifiers of the pressed keys, whether they come from the preamble's
  literal codes or from the table. The touch pad is guarded exactly if a key without a modifier
  was found.
\<close>

theorem report_holds_pressed_keys:
  assumes "wired pins pressed" "no_lock lufa pressed" "\<forall>n. lufa n \<noteq> 0"
  shows "\<exists>s'. CreateKeyboardReport lufa lmod pins s = Some (Inr s') \<and>
    KeyCode s' = slots (codes_of lufa (fn_of pressed) (filter pressed scan_order)) \<and>
    Modifier s' = mods_of lmod (filter pressed scan_order) \<and>
    (guarded s' \<longleftrightarrow> mods_of lmod (filter pressed scan_order) = 0 \<and>
        codes_of lufa (fn_of pressed) (filter pressed scan_order) \<noteq> []) \<and>
    TouchPadLocked s' = TouchPadLocked s"
  using assms by (rule report_keys)

text \<open>An idle keyboard, and a matrix on which only the key A is held.\<close>

definition idle_board :: board where
  "idle_board = \<lparr>DDRB = 0, PORTB = 0, DDRC = 0, PORTC = 0, DDRD = 0, PORTD = 0, DDRE = 0, PORTE = 0,
     DDRF = 0, PORTF = 0, reads = 0\<rparr>"

definition idle_keyboard :: keyboard where
  "idle_keyboard = \<lparr>brd = idle_board, Modifier = 0, KeyCode = [], keyc = 0, fn = 0, TouchPadLocked = False,
     guarded = False\<rparr>"

definition pins_A :: pins where
  "pins_A b p = (case p of
       PINB \<Rightarrow> if DDRB b = 0xff then PORTB b else 0
     | PINC \<Rightarrow> if DDRB b = 0xff \<and> PORTB b = 0x7f then 0x7f else 0xff
     | _ \<Rightarrow> 0xff)"

lemma less_8: "c < 8 \<longleftrightarrow> c = 0 \<or> c = 1 \<or> c = 2 \<or> c = 3 \<or> c = 4 \<or> c = 5 \<or> c = 6 \<or> c = (7::nat)"
  by auto

lemma wired_A: "wired pins_A (\<lambda>k. k = (2, 1))"
  unfolding wired_def less_8
  by (auto simp: pins_A_def row_pins_def rowY_def column_ready_def)

theorem report_holds_pressed_keys_witness:
  "\<exists>s'. CreateKeyboardReport (\<lambda>n. if n = ''A'' then 4 else 1) (\<lambda>_. 2) pins_A idle_keyboard = Some (Inr s') \<and>
     KeyCode s' = [4, 0, 0, 0, 0, 0] \<and> Modifier s' = 0 \<and> guarded s'"
proof -
  let ?lufa = "\<lambda>n. if n = ''A'' then 4 else 1 :: u8" and ?p = "\<lambda>k. k = (2 :: nat, 1 :: nat)"
  have keys: "filter ?p scan_order = [(2, 1)]"
    by (simp add: scan_order_def upt_rec)
  have codes: "codes_of ?lufa (fn_of ?p) [(2, 1)] = [4]" and mods: "mods_of (\<lambda>_. 2) [(2, 1)] = 0"
    by (simp_all add: codes_of_def sym_of_def fn_of_def keys_def mods_of_def mod_of_def keym_def)
  have "no_lock ?lufa ?p" "\<forall>n. ?lufa n \<noteq> 0" by (simp_all add: no_lock_def no_lock_in_def)
  from report_holds_pressed_keys [OF wired_A this, of "\<lambda>_. 2" idle_keyboard] show ?thesis
    unfolding keys codes mods by (auto simp: slots_def numeral_eq_Suc)
qed

text \<open>The report of a matrix on which A is held.\<close>

lemma report_A:
  "\<exists>s'. CreateKeyboardReport (\<lambda>n. if n = ''A'' then 4 else 1) (\<lambda>_. 2) pins_A idle_keyboard = Some (Inr s') \<and>
     KeyCode s' = [4, 0, 0, 0, 0, 0] \<and> Modifier s' = 0 \<and> guarded s'"
proof -
  let ?lufa = "\<lambda>n. if n = ''A'' then 4 else 1 :: u8" and ?p = "\<lambda>k. k = (2 :: nat, 1 :: nat)"
  have keys: "filter ?p scan_order = [(2, 1)]"
    by (simp add: scan_order_def upt_rec)
  have codes: "codes_of ?lufa (fn_of ?p) [(2, 1)] = [4]" and mods: "mods_of (\<lambda>_. 2) [(2, 1)] = 0"
    by (simp_all add: codes_of_def sym_of_def fn_of_def keys_def mods_of_def mod_of_def keym_def)
  have "no_lock ?lufa ?p" "\<forall>n. ?lufa n \<noteq> 0" by (simp_all add: no_lock_def no_lock_in_def)
  from report_keys [OF wired_A this, of "\<lambda>_. 2" idle_keyboard] show ?thesis
    unfolding keys codes mods by (auto simp: slots_def numeral_eq_Suc)
qed

text \<open>
  C34. Whatever the pins read, and in whatever state the scan starts, no access of the scan leaves an
  array: not to the two key tables, the table of columns or the slots of the report. If the report is
  made, the slot index is at most 5 and the report has its six slots.
\<close>

theorem scan_stays_in_bounds:
  "case CreateKeyboardReport lufa lmod pins s of
     None \<Rightarrow> True
   | Some (Inl e) \<Rightarrow> False
   | Some (Inr s') \<Rightarrow> unat (keyc s') \<le> 5 \<and> length (KeyCode s') = 6"
  using safe_o_mono [OF report_safe, of "\<lambda>s'. unat (keyc s') \<le> 5 \<and> length (KeyCode s') = 6"]
  by (simp add: in_bounds_def safe_o_def)

text \<open>
  While the touch pad lock key is held down together with the function key, the report is never
  finished: the scan waits for the release of the key inside the report callback.
\<close>

theorem lock_key_blocks_report:
  assumes "wired pins pressed" "\<forall>n. lufa n \<noteq> 0" "pressed (0, 13)" "pressed (1, 3)"
  shows "CreateKeyboardReport lufa lmod pins s = None"
proof -
  obtain s0 where s0: "first_column lufa lmod pins (report_start s) = Inr s0" "DDRB (brd s0) = 0xff" "pulled_up (brd s0)"
      "scanned lufa lmod pressed [(3, 13), (1, 13), (5, 13), (2, 13), (4, 0), (0, 0), (7, 0)] s0"
    using first_column_scanned [OF assms(1,2) report_start_ready, of lmod s] by auto
  then have "(if (0::nat) = 0 then first_column lufa lmod pins (report_start s) else Inr (report_start s)) = Inr s0" by simp
  note column = column_scanned [OF assms(1) _ _ this s0(2-4)]
  have "key_code lufa (sym_of 112 (0, 3)) \<noteq> HID_KEY_LOCK_TOUCHPAD"
    by (simp add: sym_of_def keys_def HID_KEY_WLAN_def HID_KEY_LOCK_TOUCHPAD_def)
  then have "no_lock_in lufa pressed 0" using assms(3) by (simp add: no_lock_in_def fn_of_def)
  then obtain s1 where s1: "scan_column lufa lmod pins 0 (report_start s) = Some (Inr s1)" "DDRB (brd s1) = 0xff"
      "pulled_up (brd s1)" "\<exists>ks. scanned lufa lmod pressed ks s1"
    using column by auto
  then have "scan_column lufa lmod pins 1 s1 = None"
    using lock_column_endless [OF assms(1,3,4) s1(2,3)] by blast
  moreover have "[0..<8] = 0 # 1 # [2..<8]" by (simp add: upt_rec)
  ultimately show ?thesis using s1(1) by (simp only: CreateKeyboardReport_def scan_columns.simps bind_o_simps)
qed

text \<open>A matrix on which the function key and the lock key are held.\<close>

definition pins_lock :: pins where
  "pins_lock b p = (case p of
       PINB \<Rightarrow> if DDRB b = 0xff then PORTB b else if DDRD b = 0x10 then 0x40 else 0
     | PIND \<Rightarrow> if DDRB b = 0xff \<and> PORTB b = 0xfd then 0x7f else 0xff
     | _ \<Rightarrow> 0xff)"

lemma wired_lock: "wired pins_lock (\<lambda>k. k = (0, 13) \<or> k = (1, 3))"
  unfolding wired_def less_8
  by (auto simp: pins_lock_def row_pins_def rowY_def rowYN_def column_ready_def pulled_up_def)

theorem lock_key_blocks_report_witness: "CreateKeyboardReport (\<lambda>_. 4) (\<lambda>_. 2) pins_lock idle_keyboard = None"
  by (rule lock_key_blocks_report [OF wired_lock]) simp_all

text \<open>
  The chord of the main loop starts the bootloader exactly when the function key, the Tux key
  and ESC are held, as the loader's hint says, if the second column is driven when it comes: the pins it
  tests are those of the keys that the table knows as the left GUI modifier and as ESCAPE, and row 13 of
  the first column.
\<close>

lemma chord_tests_keys:
  assumes "wired pins pressed" "column_ready 1 (brd s)"
    and "\<forall>b. column_ready 0 b \<longrightarrow> (pins b PIND AND push_bit 4 1 = 0 \<longleftrightarrow> pressed (0, 13))"
  shows "fst (chord pins s) = (pressed (1, 12) \<and> pressed (3, 1) \<and> pressed (0, 13))"
proof -
  have rows: "rowY ! 0 = 0xbf" "rowY ! Suc 0 = 0xfd" "rowY ! 3 = 0xfe" by (simp_all add: rowY_def)
  define b3 where "b3 = (counted (brd s))\<lparr>DDRB := 0xff, PORTB := 0xfe\<rparr>"
  define b5 where "b5 = (counted b3)\<lparr>PORTB := 0xbf\<rparr>"
  have ready: "column_ready 3 b3" "column_ready 0 b5"
    using assms(2) by (simp_all add: b3_def b5_def column_ready_def rows)
  have "pins (brd s) PINE AND push_bit 2 1 = 0 \<longleftrightarrow> pressed (1, 12)"
    by (rule wired_column(2) [OF assms(1) _ assms(2)]) (simp_all add: row_pins_def)
  moreover have "pins b3 PINC AND push_bit 7 1 = 0 \<longleftrightarrow> pressed (3, 1)"
    by (rule wired_column(2) [OF assms(1) _ ready(1)]) (simp_all add: row_pins_def)
  moreover have "pins b5 PIND AND push_bit 4 1 = 0 \<longleftrightarrow> pressed (0, 13)"
    using assms(3) ready(2) by blast
  moreover have "fst (chord pins s) = (pins (brd s) PINE AND push_bit 2 1 = 0 \<and> pins b3 PINC AND push_bit 7 1 = 0 \<and>
      pins b5 PIND AND push_bit 4 1 = 0)"
    by (simp add: chord_def read_pin_eq b3_def b5_def Let_def)
  ultimately show ?thesis by blast
qed

theorem chord_is_Fn_Tux_Esc:
  assumes "wired pins pressed" "column_ready 1 (brd s)"
    and "\<forall>b. column_ready 0 b \<longrightarrow> (pins b PIND AND push_bit 4 1 = 0 \<longleftrightarrow> pressed (0, 13))"
  shows "fst (chord pins s) = (pressed (1, 12) \<and> pressed (3, 1) \<and> pressed (0, 13)) \<and>
    mod_of (1, 12) = Lufa ''LEFTGUI'' \<and> sym_of 0 (3, 1) = Lufa ''ESCAPE''"
  using chord_tests_keys [OF assms] by (simp add: mod_of_def keym_def sym_of_def keys_def)

definition second_column :: board where
  "second_column = idle_board\<lparr>DDRB := 0xff, PORTB := 0xfd, PORTC := 0xc0, PORTD := 0xfc, PORTE := 0xff, PORTF := 0xf2\<rparr>"

theorem chord_is_Fn_Tux_Esc_witness: "fst (chord pins_A (idle_keyboard\<lparr>brd := second_column\<rparr>)) = False"
proof -
  have "column_ready 1 (brd (idle_keyboard\<lparr>brd := second_column\<rparr>))"
    by (simp add: column_ready_def second_column_def idle_board_def pulled_up_def rows_in_def rowY_def)
  then show ?thesis
    using chord_is_Fn_Tux_Esc [OF wired_A, of "idle_keyboard\<lparr>brd := second_column\<rparr>"] by (simp add: pins_A_def)
qed

end
