(* ===== verification/Controller.thy ===== *)
theory Controller
  imports KeyMatrix Descriptors Bootloader
begin

text \<open>
  The keyboard firmware as a whole (\<open>TERES-HID/KeyboardMouse.c\<close>): the start of the hardware, the
  events of the USB library, the callback for reports and the main loop, with the interrupts of the
  pointing half between its rounds. Interrupts are taken between the calls of the model, not inside them.
\<close>

section \<open>State\<close>

datatype interface = Keyboard_interface | Mouse_interface

datatype hid_report =
    Keyboard_report u8 "u8 list"
  | Mouse_hid_report mouse_report

datatype hw_call =
    Watchdog_off | Clock_div_1 | Twi_init | Adc_init | Adc_interrupt_on | Mcucr_0 | Int2_on
  | Adc_channel_0 | Adc_start | Timer0_1024 | Timer0_interrupt_on | Usb_on

datatype lufa_call =
    Configure_endpoints interface
  | Enable_SOF_events
  | Process_control_request interface
  | Millisecond_elapsed interface

record controller =
  kb :: keyboard
  tp :: touchpad
  sent :: "hid_report list"
  leaving :: "kbd_call list"

section \<open>The start\<close>

text \<open>The ports, and what is asked of the hardware in order.\<close>

definition SetupHardware :: "controller \<Rightarrow> controller \<times> hw_call list" where
  "SetupHardware c =
     (c\<lparr>kb := (kb c)\<lparr>brd := (brd (kb c))\<lparr>DDRB := 0xff, PORTB := 0xff, DDRD := 0, PORTD := 0xfc, DDRC := 0, PORTC := 0xc0,
          DDRE := 0, PORTE := 0x44, DDRF := 0, PORTF := 0xf2\<rparr>\<rparr>,
        tp := (tp c)\<lparr>button := 0xff\<rparr>\<rparr>,
      [Watchdog_off, Clock_div_1, Twi_init, Adc_init, Adc_interrupt_on, Mcucr_0, Int2_on, Adc_channel_0, Adc_start,
       Timer0_1024, Timer0_interrupt_on, Usb_on])"

section \<open>Events of the library\<close>

definition EVENT_USB_Device_ConfigurationChanged :: "lufa_call list" where
  "EVENT_USB_Device_ConfigurationChanged =
     [Configure_endpoints Keyboard_interface, Configure_endpoints Mouse_interface, Enable_SOF_events]"

definition EVENT_USB_Device_ControlRequest :: "lufa_call list" where
  "EVENT_USB_Device_ControlRequest = [Process_control_request Keyboard_interface, Process_control_request Mouse_interface]"

definition EVENT_USB_Device_StartOfFrame :: "lufa_call list" where
  "EVENT_USB_Device_StartOfFrame = [Millisecond_elapsed Keyboard_interface, Millisecond_elapsed Mouse_interface]"

text \<open>A report from the host (the state of the lights) is ignored.\<close>

definition CALLBACK_HID_Device_ProcessHIDReport :: "interface \<Rightarrow> u8 list \<Rightarrow> controller \<Rightarrow> controller" where
  "CALLBACK_HID_Device_ProcessHIDReport i bytes c = c"

text \<open>
  The callback for a report, which the library sends in any case. The touch pad lock is one variable
  of the code that both halves of the model have.
\<close>

definition CALLBACK_HID_Device_CreateHIDReport ::
  "(string \<Rightarrow> u8) \<Rightarrow> (string \<Rightarrow> u8) \<Rightarrow> pins \<Rightarrow> interface \<Rightarrow> controller \<Rightarrow> controller c option" where
  "CALLBACK_HID_Device_CreateHIDReport lufa lmod pins i c = (case i of
     Keyboard_interface \<Rightarrow>
       bind_o (CreateKeyboardReport lufa lmod pins (kb c)) (\<lambda>k.
         let t = Touchpad.TouchPadLocked_update (\<lambda>_. KeyMatrix.TouchPadLocked k) (tp c) in
         Some (Inr (c\<lparr>kb := k, tp := (if guarded k then tp_guarder t else t),
                   sent := sent c @ [Keyboard_report (Modifier k) (KeyCode k)]\<rparr>)))
   | Mouse_interface \<Rightarrow>
       (let (t, r) = CreateMouseReport (tp c) in Some (Inr (c\<lparr>tp := t, sent := sent c @ [Mouse_hid_report r]\<rparr>))))"

section \<open>The main loop\<close>

text \<open>\<open>HID_Device_USBTask\<close> asks for a report when the endpoint can take one.\<close>

definition usb_task :: "(string \<Rightarrow> u8) \<Rightarrow> (string \<Rightarrow> u8) \<Rightarrow> pins \<Rightarrow> bool \<Rightarrow> interface \<Rightarrow> controller \<Rightarrow> controller c option" where
  "usb_task lufa lmod pins ready i c =
     (if ready then CALLBACK_HID_Device_CreateHIDReport lufa lmod pins i c else Some (Inr c))"

text \<open>\<open>USB_USBTask\<close> serves what the host asks for by control requests: a report of the given interfaces.\<close>

primrec serve_requests ::
  "(string \<Rightarrow> u8) \<Rightarrow> (string \<Rightarrow> u8) \<Rightarrow> pins \<Rightarrow> interface list \<Rightarrow> controller \<Rightarrow> controller c option" where
  "serve_requests lufa lmod pins [] c = Some (Inr c)"
| "serve_requests lufa lmod pins (i # is) c =
     bind_o (CALLBACK_HID_Device_CreateHIDReport lufa lmod pins i c) (serve_requests lufa lmod pins is)"

definition scan_ports :: "controller \<Rightarrow> controller" where
  "scan_ports c = c\<lparr>kb := (kb c)\<lparr>brd := (brd (kb c))\<lparr>DDRE := 0x00, PORTE := 0xff, PORTB := 0xfd, DDRB := 0xff\<rparr>\<rparr>\<rparr>"

definition main_round ::
  "(string \<Rightarrow> u8) \<Rightarrow> (string \<Rightarrow> u8) \<Rightarrow> pins \<Rightarrow> bool \<Rightarrow> bool \<Rightarrow> interface list \<Rightarrow> controller \<Rightarrow> controller c option" where
  "main_round lufa lmod pins key_ready mouse_ready requests c =
     bind_o (usb_task lufa lmod pins key_ready Keyboard_interface c) (\<lambda>c1.
     bind_o (usb_task lufa lmod pins mouse_ready Mouse_interface (scan_ports c1)) (\<lambda>c2.
     bind_o (serve_requests lufa lmod pins requests c2) (\<lambda>c3.
       let (seen, k) = chord pins (kb c3); c4 = c3\<lparr>kb := k\<rparr>
       in Some (Inr (if seen then c4\<lparr>leaving := Jump_To_Bootloader\<rparr> else c4)))))"

text \<open>
  What happens to the running program: rounds of the loop with the requests served in them, and interrupts.
  (A request for a report may also come between two rounds, as when the library is configured to serve
  requests from its interrupt.) Once it is leaving, interrupts are off and it waits for the watchdog.
\<close>

datatype event =
    Round bool bool "interface list"
  | Get_report interface
  | Adc_interrupt u8
  | Touch_pad_interrupt "u8 list option"
  | Timer_interrupt "u8 list option"

primrec handle :: "(string \<Rightarrow> u8) \<Rightarrow> (string \<Rightarrow> u8) \<Rightarrow> pins \<Rightarrow> event \<Rightarrow> controller \<Rightarrow> controller c option" where
  "handle lufa lmod pins (Round k m is) c = main_round lufa lmod pins k m is c"
| "handle lufa lmod pins (Get_report i) c = CALLBACK_HID_Device_CreateHIDReport lufa lmod pins i c"
| "handle lufa lmod pins (Adc_interrupt v) c = Some (Inr (c\<lparr>tp := ADC_vect v (tp c)\<rparr>))"
| "handle lufa lmod pins (Touch_pad_interrupt r) c = Some (Inr (c\<lparr>tp := INT2_vect r (tp c)\<rparr>))"
| "handle lufa lmod pins (Timer_interrupt r) c = Some (Inr (c\<lparr>tp := Touchpad.TIMER0_OVF_vect r (tp c)\<rparr>))"

primrec run :: "(string \<Rightarrow> u8) \<Rightarrow> (string \<Rightarrow> u8) \<Rightarrow> pins \<Rightarrow> event list \<Rightarrow> controller \<Rightarrow> controller c option" where
  "run lufa lmod pins [] c = Some (Inr c)"
| "run lufa lmod pins (e # es) c =
     (if leaving c \<noteq> [] then run lufa lmod pins es c
      else bind_o (handle lufa lmod pins e c) (run lufa lmod pins es))"

text \<open>After a reset the variables have their initial values; the report buffer is the library's.\<close>

definition power_on :: "board \<Rightarrow> controller" where
  "power_on b = fst (SetupHardware
     \<lparr>kb = \<lparr>brd = b, Modifier = 0, KeyCode = replicate 6 0, keyc = 0, fn = 0, TouchPadLocked = False, guarded = False\<rparr>,
      tp = touchpad_init, sent = [], leaving = []\<rparr>)"

section \<open>The invariant of the firmware\<close>

definition sent_ok :: "hid_report \<Rightarrow> bool" where
  "sent_ok r = (case r of Keyboard_report m codes \<Rightarrow> length codes = 6 | Mouse_hid_report r \<Rightarrow> report_ok r)"

definition firm :: "controller \<Rightarrow> bool" where
  "firm c \<longleftrightarrow> tp_inv (tp c) \<and> Touchpad.TouchPadLocked (tp c) = KeyMatrix.TouchPadLocked (kb c) \<and>
     list_all sent_ok (sent c) \<and> leaving c \<in> {[], Jump_To_Bootloader} \<and> pulled_up (brd (kb c))"

lemma lock_simps [simp]:
  "tp_inv (Touchpad.TouchPadLocked_update f s) = tp_inv s" "tp_inv s \<Longrightarrow> tp_inv (tp_guarder s)"
  "Touchpad.TouchPadLocked (tp_guarder s) = Touchpad.TouchPadLocked s"
  by (simp_all add: tp_inv_def tp_core_def tp_guarder_def tp_consts)

lemma lock_kept [simp]:
  "Touchpad.TouchPadLocked (fst (CreateMouseReport s)) = Touchpad.TouchPadLocked s"
  "Touchpad.TouchPadLocked (ADC_vect v s) = Touchpad.TouchPadLocked s"
  "Touchpad.TouchPadLocked (INT2_vect r s) = Touchpad.TouchPadLocked s"
  "Touchpad.TouchPadLocked (Touchpad.TIMER0_OVF_vect r s) = Touchpad.TouchPadLocked s"
proof -
  have "Touchpad.TouchPadLocked (touch_action s) = Touchpad.TouchPadLocked s" for s
    by (simp add: touch_action_def fingers_none_def fingers_one_def fingers_two_def fingers_more_def Let_def)
  then show "Touchpad.TouchPadLocked (fst (CreateMouseReport s)) = Touchpad.TouchPadLocked s"
    by (simp add: CreateMouseReport_def Let_def)
  show "Touchpad.TouchPadLocked (ADC_vect v s) = Touchpad.TouchPadLocked s" by (simp add: ADC_vect_def Let_def)
  have read: "Touchpad.TouchPadLocked (read_touchpad r s) = Touchpad.TouchPadLocked s" for s
    by (simp add: read_touchpad_def split: option.split)
  then show "Touchpad.TouchPadLocked (INT2_vect r s) = Touchpad.TouchPadLocked s" by (simp add: INT2_vect_def Let_def)
  have "Touchpad.TouchPadLocked (touch_timer s) = Touchpad.TouchPadLocked s" "Touchpad.TouchPadLocked (guard_timer s) = Touchpad.TouchPadLocked s"
      "Touchpad.TouchPadLocked (tap_timer s) = Touchpad.TouchPadLocked s" for s
    by (simp_all add: touch_timer_def guard_timer_def tap_timer_def Let_def)
  then show "Touchpad.TouchPadLocked (Touchpad.TIMER0_OVF_vect r s) = Touchpad.TouchPadLocked s"
    using read by (simp add: Touchpad.TIMER0_OVF_vect_def Let_def)
qed

lemma chord_kept [simp]:
  "KeyMatrix.TouchPadLocked (snd (chord pins k)) = KeyMatrix.TouchPadLocked k"
  "pulled_up (brd (snd (chord pins k))) = pulled_up (brd k)"
  by (simp_all add: chord_def read_pin_eq Let_def)

lemma scan_ports_kept [simp]:
  "pulled_up (brd (kb c)) \<Longrightarrow> pulled_up (brd (kb (scan_ports c)))"
  "tp (scan_ports c) = tp c" "sent (scan_ports c) = sent c" "leaving (scan_ports c) = leaving c"
  "KeyMatrix.TouchPadLocked (kb (scan_ports c)) = KeyMatrix.TouchPadLocked (kb c)"
  by (simp_all add: scan_ports_def pulled_up_def rows_in_def)

lemma firm_report: "firm c \<Longrightarrow> safe_o firm (CALLBACK_HID_Device_CreateHIDReport lufa lmod pins i c)"
proof (cases i)
  case Keyboard_interface
  assume c: "firm c"
  have "safe_o firm (let t = Touchpad.TouchPadLocked_update (\<lambda>_. KeyMatrix.TouchPadLocked k) (tp c) in
      Some (Inr (c\<lparr>kb := k, tp := (if guarded k then tp_guarder t else t),
        sent := sent c @ [Keyboard_report (Modifier k) (KeyCode k)]\<rparr>)))"
    if "in_bounds k \<and> pulled_up (brd k)" for k
    using that c by (simp add: Let_def firm_def sent_ok_def in_bounds_def)
  then show ?thesis
    using Keyboard_interface unfolding CALLBACK_HID_Device_CreateHIDReport_def
    by (simp only: interface.case) (rule safe_o_bind [OF report_safe])
next
  case Mouse_interface
  assume "firm c"
  then show ?thesis
    using Mouse_interface inv_CreateMouseReport [of "tp c"]
    by (auto simp: CALLBACK_HID_Device_CreateHIDReport_def firm_def sent_ok_def case_prod_beta Let_def)
qed

lemma firm_simps [simp]: "firm c \<Longrightarrow> firm (scan_ports c)"
  by (simp add: firm_def)

lemma firm_task: "firm c \<Longrightarrow> safe_o firm (usb_task lufa lmod pins ready i c)"
  using firm_report by (simp add: usb_task_def)

lemma firm_requests: "firm c \<Longrightarrow> safe_o firm (serve_requests lufa lmod pins is c)"
  by (induction "is" arbitrary: c) (auto intro: safe_o_bind [where P = firm] firm_report)

lemma firm_round: "firm c \<Longrightarrow> safe_o firm (main_round lufa lmod pins k m is c)"
  unfolding main_round_def
proof (rule safe_o_bind [where P = firm], erule firm_task)
  fix c1 assume "firm c1"
  then show "safe_o firm (bind_o (usb_task lufa lmod pins m Mouse_interface (scan_ports c1)) (\<lambda>c2.
     bind_o (serve_requests lufa lmod pins is c2) (\<lambda>c3. let (seen, k) = chord pins (kb c3); c4 = c3\<lparr>kb := k\<rparr>
       in Some (Inr (if seen then c4\<lparr>leaving := Jump_To_Bootloader\<rparr> else c4)))))"
  proof (intro safe_o_bind [where P = firm])
    show "firm c1 \<Longrightarrow> safe_o firm (usb_task lufa lmod pins m Mouse_interface (scan_ports c1))" by (simp add: firm_task)
  next
    fix c2 assume "firm c2"
    then show "safe_o firm (serve_requests lufa lmod pins is c2)" by (rule firm_requests)
  qed (simp add: case_prod_beta Let_def firm_def)
qed

lemma firm_handle: "firm c \<Longrightarrow> safe_o firm (handle lufa lmod pins e c)"
  by (cases e) (auto simp: firm_round firm_report firm_def tp_inv_ops)

lemma firm_run: "firm c \<Longrightarrow> safe_o firm (run lufa lmod pins es c)"
  by (induction es arbitrary: c) (auto intro: safe_o_bind [where P = firm] firm_handle)

lemma firm_power_on: "firm (power_on b)"
  using tp_inv_init by (simp add: power_on_def SetupHardware_def firm_def touchpad_init_def pulled_up_def rows_in_def)

text \<open>
  C11. In every run of the firmware after power on, whatever the pins, the touch pad and the host do:
  no array is left, every keyboard report has six key codes, every mouse report only the three buttons and
  at most one step of the wheel, and both halves agree whether the touch pad is locked.
\<close>

theorem firmware_invariant:
  assumes "run lufa lmod pins es (power_on b) = Some r"
  shows "\<exists>c. r = Inr c \<and> list_all sent_ok (sent c) \<and> Touchpad.TouchPadLocked (tp c) = KeyMatrix.TouchPadLocked (kb c) \<and>
    tp_inv (tp c)"
  using safe_o_returns [OF firm_run [OF firm_power_on], of lufa lmod pins es b] assms by (auto simp: firm_def)

section \<open>Typing keeps the pointer still\<close>

text \<open>
  The touch pad stays guarded for the next \<open>n\<close> ticks, and a report that is due anyway starts from no
  position.
\<close>

definition still :: "nat \<Rightarrow> touchpad \<Rightarrow> bool" where
  "still n s \<longleftrightarrow> tp_guard s \<and> n + 2 \<le> unat (tpguard s) \<and> (ActionSend s \<longrightarrow> lastposX s = 0)"

definition at_rest :: "hid_report \<Rightarrow> bool" where
  "at_rest r = (case r of Keyboard_report m codes \<Rightarrow> True | Mouse_hid_report r \<Rightarrow> X r = 0 \<and> Y r = 0)"

lemma touch_action_rest:
  assumes "MR_X s = 0" "MR_Y s = 0" "lastposX s = 0"
  shows "MR_X (touch_action s) = 0" "MR_Y (touch_action s) = 0"
proof -
  have "MR_X (fingers_one s) = 0 \<and> MR_Y (fingers_one s) = 0" using assms by (simp add: fingers_one_def Let_def)
  moreover have "MR_X (fingers_none s) = 0 \<and> MR_Y (fingers_none s) = 0" "MR_X (fingers_two s) = 0 \<and> MR_Y (fingers_two s) = 0"
      "MR_X (fingers_more s) = 0 \<and> MR_Y (fingers_more s) = 0"
    using assms by (simp_all add: fingers_none_def fingers_two_def fingers_more_def Let_def)
  ultimately show "MR_X (touch_action s) = 0" "MR_Y (touch_action s) = 0" by (simp_all add: touch_action_def Let_def)
qed

lemma touch_action_guard:
  "tp_guard (touch_action s) = tp_guard s" "tpguard (touch_action s) = tpguard s" "\<not> ActionSend (touch_action s)"
proof -
  have "tp_guard (fingers_one s) = tp_guard s \<and> tpguard (fingers_one s) = tpguard s" by (simp add: fingers_one_def Let_def)
  moreover have "tp_guard (fingers_none s) = tp_guard s \<and> tpguard (fingers_none s) = tpguard s" by (simp add: fingers_none_def Let_def)
  moreover have "tp_guard (fingers_two s) = tp_guard s \<and> tpguard (fingers_two s) = tpguard s" by (simp add: fingers_two_def Let_def)
  ultimately show "tp_guard (touch_action s) = tp_guard s" "tpguard (touch_action s) = tpguard s" "\<not> ActionSend (touch_action s)"
    by (simp_all add: touch_action_def fingers_more_def Let_def)
qed

lemma still_report:
  assumes "still n s"
  shows "still n (fst (CreateMouseReport s)) \<and> at_rest (Mouse_hid_report (snd (CreateMouseReport s)))"
proof -
  define s1 where "s1 = s\<lparr>MR_Y := 0, MR_X := 0, MR_W := 0, MR_B := MR_B s OR mouse s\<rparr>"
  have s1: "MR_X s1 = 0" "MR_Y s1 = 0" "still n s1" using assms by (simp_all add: s1_def still_def)
  have "CreateMouseReport s = (let s2 = (if ActionSend s1 then touch_action s1 else s1) in (s2\<lparr>MR_B := 0\<rparr>,
          \<lparr>Button = MR_B s2, X = ucast (MR_X s2), Y = ucast (MR_Y s2), Wheel = MR_W s2\<rparr>))"
    by (simp add: CreateMouseReport_def s1_def Let_def)
  then show ?thesis
    using s1 touch_action_rest [OF s1(1,2)] by (auto simp: still_def at_rest_def touch_action_guard Let_def)
qed

lemma still_tick:
  assumes "still (Suc n) s"
  shows "still n (Touchpad.TIMER0_OVF_vect r s)"
proof -
  define s1 where "s1 = tap_timer (read_touchpad r s)"
  have s1: "tp_guard s1" "tpguard s1 = tpguard s" "ActionSend s1 = ActionSend s" "lastposX s1 = lastposX s"
    using assms by (simp_all add: s1_def tap_timer_def read_touchpad_def still_def Let_def split: option.split)
  have run: "Touchpad.TIMER0_OVF_vect r s = touch_timer (guard_timer s1)"
    using assms by (simp add: Touchpad.TIMER0_OVF_vect_def s1_def still_def read_touchpad_def Let_def split: option.split)
  have nz: "tpguard s \<noteq> 0" using assms by (auto simp: still_def)
  then have pred: "unat (tpguard s - 1) = unat (tpguard s) - 1" by (rule unat_pred)
  then have "tpguard s - 1 \<noteq> 1" using assms by (auto simp: still_def)
  then have s2: "tp_guard (guard_timer s1)" "tpguard (guard_timer s1) = tpguard s - 1" "ActionSend (guard_timer s1) = ActionSend s"
      "lastposX (guard_timer s1) = lastposX s"
    using s1 nz by (simp_all add: guard_timer_def Let_def)
  have s3: "tp_guard (touch_timer t) = tp_guard t" "tpguard (touch_timer t) = tpguard t"
      "ActionSend (touch_timer t) \<longrightarrow> lastposX (touch_timer t) = 0 \<or> ActionSend t \<and> lastposX (touch_timer t) = lastposX t" for t
    by (simp_all add: touch_timer_def Let_def)
  have "n + 3 \<le> unat (tpguard s)" using assms by (simp add: still_def)
  then have "unat (tpguard s - 1) \<ge> n + 2" using pred by linarith
  then show ?thesis
    unfolding run still_def using s2 s3 [of "guard_timer s1"] assms by (auto simp: still_def)
qed

lemma still_interrupts:
  "still n s \<Longrightarrow> still n (ADC_vect v s)" "still n s \<Longrightarrow> still n (INT2_vect r s)"
  "still n s \<Longrightarrow> still n (Touchpad.TouchPadLocked_update f s)" "still n s \<Longrightarrow> n \<le> 18 \<Longrightarrow> still n (tp_guarder s)"
  by (simp_all add: still_def ADC_vect_def INT2_vect_def read_touchpad_def tp_guarder_def tp_consts Let_def split: option.split)

definition is_tick :: "event \<Rightarrow> bool" where
  "is_tick e = (case e of Timer_interrupt r \<Rightarrow> True | _ \<Rightarrow> False)"

definition ticks_in :: "event list \<Rightarrow> nat" where
  "ticks_in es = length (filter is_tick es)"

definition adds_rest :: "controller \<Rightarrow> controller \<Rightarrow> bool" where
  "adds_rest c c' \<longleftrightarrow> (\<exists>rs. sent c' = sent c @ rs \<and> list_all at_rest rs)"

lemma adds_rest_trans: "adds_rest c c1 \<Longrightarrow> adds_rest c1 c2 \<Longrightarrow> adds_rest c c2"
  unfolding adds_rest_def by (metis append.assoc list_all_append)

lemma adds_rest_same: "sent c' = sent c \<Longrightarrow> adds_rest c c'"
  by (simp add: adds_rest_def)

definition stays :: "nat \<Rightarrow> controller \<Rightarrow> controller \<Rightarrow> bool" where
  "stays n c c' \<longleftrightarrow> still n (tp c') \<and> adds_rest c c'"

lemma stays_refl: "still n (tp c) \<Longrightarrow> stays n c c"
  by (simp add: stays_def adds_rest_same)

lemma stays_trans: "stays n c c1 \<Longrightarrow> stays m c1 c2 \<Longrightarrow> stays m c c2"
  using adds_rest_trans by (auto simp: stays_def)

lemma still_callback:
  assumes "CALLBACK_HID_Device_CreateHIDReport lufa lmod pins i c = Some (Inr c')" "still n (tp c)" "n \<le> 18"
  shows "stays n c c'"
proof (cases i)
  case Keyboard_interface
  then show ?thesis
    using assms by (auto simp: CALLBACK_HID_Device_CreateHIDReport_def Let_def stays_def adds_rest_def at_rest_def
      still_interrupts bind_o_eq_Inr)
next
  case Mouse_interface
  then show ?thesis
    using assms(1) still_report [OF assms(2)]
    by (auto simp: CALLBACK_HID_Device_CreateHIDReport_def stays_def adds_rest_def case_prod_beta Let_def)
qed

lemma still_task:
  "usb_task lufa lmod pins ready i c = Some (Inr c') \<Longrightarrow> still n (tp c) \<Longrightarrow> n \<le> 18 \<Longrightarrow> stays n c c'"
  using still_callback [of lufa lmod pins i c c' n] by (auto simp: usb_task_def stays_refl split: if_splits)

lemma still_requests:
  "serve_requests lufa lmod pins is c = Some (Inr c') \<Longrightarrow> still n (tp c) \<Longrightarrow> n \<le> 18 \<Longrightarrow> stays n c c'"
proof (induction "is" arbitrary: c)
  case (Cons i "is")
  then obtain c1 where c1: "CALLBACK_HID_Device_CreateHIDReport lufa lmod pins i c = Some (Inr c1)"
      "serve_requests lufa lmod pins is c1 = Some (Inr c')"
    by (auto simp: bind_o_eq_Inr)
  have "stays n c c1" using still_callback [OF c1(1) Cons.prems(2,3)] .
  then show ?case using Cons.IH [OF c1(2) _ Cons.prems(3)] stays_trans by (auto simp: stays_def)
qed (simp add: stays_refl)

lemma still_round:
  assumes "main_round lufa lmod pins k m is c = Some (Inr c')" "still n (tp c)" "n \<le> 18"
  shows "stays n c c'"
proof -
  obtain c1 c2 c3 where c1: "usb_task lufa lmod pins k Keyboard_interface c = Some (Inr c1)"
      and c2: "usb_task lufa lmod pins m Mouse_interface (scan_ports c1) = Some (Inr c2)"
      and c3: "serve_requests lufa lmod pins is c2 = Some (Inr c3)"
      and c': "tp c' = tp c3" "sent c' = sent c3"
    using assms(1) by (auto simp: main_round_def bind_o_eq_Inr case_prod_beta Let_def)
  have s1: "stays n c c1" using still_task [OF c1 assms(2,3)] .
  then have "stays n c1 (scan_ports c1)" by (simp add: stays_def adds_rest_same)
  moreover from this have s2: "stays n (scan_ports c1) c2" using still_task [OF c2 _ assms(3)] by (simp add: stays_def)
  moreover have "stays n c2 c3" using still_requests [OF c3 _ assms(3)] s2 by (simp add: stays_def)
  ultimately have "stays n c c3" using s1 stays_trans by blast
  then show ?thesis using c' by (simp add: stays_def adds_rest_def)
qed

lemma still_run:
  "run lufa lmod pins es c = Some (Inr c') \<Longrightarrow> still (ticks_in es) (tp c) \<Longrightarrow> ticks_in es \<le> 18 \<Longrightarrow> adds_rest c c'"
proof (induction es arbitrary: c)
  case (Cons e es)
  show ?case
  proof (cases "leaving c = []")
    case True
    then obtain c1 where c1: "handle lufa lmod pins e c = Some (Inr c1)" "run lufa lmod pins es c1 = Some (Inr c')"
      using Cons.prems(1) by (auto simp: bind_o_eq_Inr)
    have n: "ticks_in (e # es) = (if is_tick e then Suc (ticks_in es) else ticks_in es)" by (simp add: ticks_in_def)
    have "stays (ticks_in es) c c1"
    proof (cases e)
      case (Round k m "is")
      then show ?thesis using still_round [of lufa lmod pins k m "is" c c1] c1(1) Cons.prems(2,3) n by (simp add: is_tick_def)
    next
      case (Get_report i)
      then show ?thesis using still_callback [of lufa lmod pins i c c1] c1(1) Cons.prems(2,3) n by (simp add: is_tick_def)
    next
      case (Adc_interrupt v)
      then show ?thesis using c1(1) Cons.prems(2) n by (auto simp: is_tick_def still_interrupts adds_rest_same stays_def)
    next
      case (Touch_pad_interrupt r)
      then show ?thesis using c1(1) Cons.prems(2) n by (auto simp: is_tick_def still_interrupts adds_rest_same stays_def)
    next
      case (Timer_interrupt r)
      then show ?thesis using c1(1) Cons.prems(2) n by (auto simp: is_tick_def still_tick adds_rest_same stays_def)
    qed
    moreover have "ticks_in es \<le> 18" using Cons.prems(3) n by (auto split: if_splits)
    ultimately show ?thesis using Cons.IH [OF c1(2)] adds_rest_trans by (auto simp: stays_def)
  next
    case False
    have "still (ticks_in es) (tp c)" "ticks_in es \<le> 18"
      using Cons.prems(2,3) by (auto simp: still_def ticks_in_def split: if_splits)
    then show ?thesis using Cons.IH Cons.prems(1) False by simp
  qed
qed (simp add: adds_rest_same)

text \<open>
  C9. After a keyboard report that holds a key and no modifier, no mouse report moves the pointer until
  the nineteenth tick of the timer, whatever the touch pad reads and the host asks for from then on, if no
  touch was already waiting to be reported (\<open>ActionSend\<close>): a touch that waits is still sent.
\<close>

theorem typing_keeps_pointer_still:
  assumes "CALLBACK_HID_Device_CreateHIDReport lufa lmod pins Keyboard_interface c = Some (Inr c1)" "guarded (kb c1)"
    and "\<not> ActionSend (tp c)" "run lufa lmod pins es c1 = Some (Inr c2)" "ticks_in es \<le> 18"
  shows "\<exists>rs. sent c2 = sent c1 @ rs \<and> list_all at_rest rs"
proof -
  have "tp c1 = tp_guarder (Touchpad.TouchPadLocked_update (\<lambda>_. KeyMatrix.TouchPadLocked (kb c1)) (tp c))"
    using assms(1,2) by (auto simp: CALLBACK_HID_Device_CreateHIDReport_def Let_def bind_o_eq_Inr)
  then have "still (ticks_in es) (tp c1)" using assms(3,5) by (simp add: still_def tp_guarder_def tp_consts)
  then show ?thesis using still_run [OF assms(4) _ assms(5)] by (simp add: adds_rest_def)
qed

lemma firmware_invariant_witness:
  "\<exists>c. run (\<lambda>_. 4) (\<lambda>_. 2) pins_A [Touch_pad_interrupt (Some [1, 0, 1, 1, 44, 0, 50]), Get_report Mouse_interface] (power_on idle_board)
       = Some (Inr c) \<and> length (sent c) = 1 \<and> list_all sent_ok (sent c)"
proof -
  let ?es = "[Touch_pad_interrupt (Some [1, 0, 1, 1, 44, 0, 50]), Get_report Mouse_interface]"
  obtain c where c: "run (\<lambda>_. 4) (\<lambda>_. 2) pins_A ?es (power_on idle_board) = Some (Inr c)" "length (sent c) = 1"
    by (simp add: power_on_def SetupHardware_def CALLBACK_HID_Device_CreateHIDReport_def case_prod_beta Let_def)
  then show ?thesis using firmware_invariant [OF c(1)] by auto
qed

lemma typing_keeps_pointer_still_witness:
  "let c = \<lparr>kb = idle_keyboard, tp = touchpad_init, sent = [], leaving = []\<rparr>; lufa = (\<lambda>n. if n = ''A'' then 4 else 1);
       es = [Touch_pad_interrupt (Some [1, 0, 1, 1, 44, 0, 50]), Get_report Mouse_interface] in
   \<exists>c1 c2 rs. CALLBACK_HID_Device_CreateHIDReport lufa (\<lambda>_. 2) pins_A Keyboard_interface c = Some (Inr c1) \<and>
     run lufa (\<lambda>_. 2) pins_A es c1 = Some (Inr c2) \<and> sent c2 = sent c1 @ rs \<and> list_all at_rest rs"
proof -
  let ?c = "\<lparr>kb = idle_keyboard, tp = touchpad_init, sent = [], leaving = []\<rparr>"
  let ?lufa = "\<lambda>n. if n = ''A'' then 4 else 1 :: u8"
  let ?es = "[Touch_pad_interrupt (Some [1, 0, 1, 1, 44, 0, 50]), Get_report Mouse_interface]"
  obtain k where "CreateKeyboardReport ?lufa (\<lambda>_. 2) pins_A idle_keyboard = Some (Inr k)" "guarded k" using report_A by blast
  then obtain c1 where c1: "CALLBACK_HID_Device_CreateHIDReport ?lufa (\<lambda>_. 2) pins_A Keyboard_interface ?c = Some (Inr c1)"
      "guarded (kb c1)" "leaving c1 = []"
    by (simp add: CALLBACK_HID_Device_CreateHIDReport_def Let_def)
  have idle: "\<not> ActionSend (tp ?c)" by (simp add: touchpad_init_def)
  obtain c2 where c2: "run ?lufa (\<lambda>_. 2) pins_A ?es c1 = Some (Inr c2)"
    using c1(3) by (simp add: CALLBACK_HID_Device_CreateHIDReport_def case_prod_beta Let_def)
  have "ticks_in ?es \<le> 18" by (simp add: ticks_in_def is_tick_def)
  from typing_keeps_pointer_still [OF c1(1,2) idle c2 this] show ?thesis
    using c1(1) c2 unfolding Let_def by blast
qed

section \<open>From the keyboard to the bootloader\<close>

lemma mouse_callback:
  "\<exists>c' r. CALLBACK_HID_Device_CreateHIDReport lufa lmod pins Mouse_interface c = Some (Inr c') \<and>
    kb c' = kb c \<and> leaving c' = leaving c \<and> sent c' = sent c @ [r]"
  by (simp add: CALLBACK_HID_Device_CreateHIDReport_def case_prod_beta Let_def)

lemma mouse_task:
  "\<exists>c' rs. usb_task lufa lmod pins ready Mouse_interface c = Some (Inr c') \<and>
    kb c' = kb c \<and> leaving c' = leaving c \<and> sent c' = sent c @ rs \<and> length rs = of_bool ready"
  using mouse_callback [of lufa lmod pins c] by (cases ready) (auto simp: usb_task_def)

lemma mouse_requests:
  "Keyboard_interface \<notin> set is \<Longrightarrow>
   \<exists>c' rs. serve_requests lufa lmod pins is c = Some (Inr c') \<and>
    kb c' = kb c \<and> leaving c' = leaving c \<and> sent c' = sent c @ rs \<and> length rs = length is"
proof (induction "is" arbitrary: c)
  case (Cons i "is")
  then have "i = Mouse_interface" by (cases i) simp_all
  moreover obtain c1 r where c1: "CALLBACK_HID_Device_CreateHIDReport lufa lmod pins Mouse_interface c = Some (Inr c1)"
      "kb c1 = kb c" "leaving c1 = leaving c" "sent c1 = sent c @ [r]"
    using mouse_callback [of lufa lmod pins c] by blast
  ultimately show ?case using Cons.IH [of c1] Cons.prems by auto
qed simp

lemma keyboard_task:
  assumes "firm c" "ready \<longrightarrow> CreateKeyboardReport lufa lmod pins (kb c) \<noteq> None"
  shows "\<exists>c' rs. usb_task lufa lmod pins ready Keyboard_interface c = Some (Inr c') \<and>
    pulled_up (brd (kb c')) \<and> leaving c' = leaving c \<and> sent c' = sent c @ rs \<and> length rs = of_bool ready"
proof (cases ready)
  case True
  then obtain k where "CreateKeyboardReport lufa lmod pins (kb c) = Some (Inr k)" "pulled_up (brd k)"
    using safe_o_returns [OF report_safe] assms(2) by blast
  then show ?thesis using True by (simp add: usb_task_def CALLBACK_HID_Device_CreateHIDReport_def Let_def)
qed (use assms(1) in \<open>simp add: usb_task_def firm_def\<close>)

lemma scan_ports_column: "pulled_up (brd (kb c)) \<Longrightarrow> column_ready 1 (brd (kb (scan_ports c)))"
  by (simp add: scan_ports_def column_ready_def pulled_up_def rows_in_def rowY_def)

text \<open>
  C25. Whatever happened to the running firmware since power on, if the function key, the Tux key and ESC
  are held on a steady matrix in a round of its loop, whichever reports are due in it, it leaves for good: it sends the reports that
  were due, detaches from the bus, starts the watchdog and does nothing more. (The round must get as far as
  the test: a keyboard report that is due has to return. And the host must not ask for a keyboard report by
  a control request in this round, whose scan would leave another column driven.) The reset that follows stays
  in the bootloader, where the key is as its check left it when it started the firmware.
\<close>

theorem chord_enters_bootloader:
  assumes "run lufa lmod earlier_pins es0 (power_on b0) = Some (Inr c)" "leaving c = []"
    and "wired pins pressed" "pressed (1, 12)" "pressed (3, 1)" "pressed (0, 13)"
    and "\<forall>b. column_ready 0 b \<longrightarrow> (pins b PIND AND push_bit 4 1 = 0 \<longleftrightarrow> pressed (0, 13))"
    and "key_ready \<longrightarrow> CreateKeyboardReport lufa lmod pins (kb c) \<noteq> None" "Keyboard_interface \<notin> set requests"
    and "Application_Jump_Check word0 cause WDRF key = (True, key')"
  shows "\<exists>c' rs. (\<forall>es. run lufa lmod pins (Round key_ready mouse_ready requests # es) c = Some (Inr c')) \<and>
    sent c' = sent c @ rs \<and> length rs = of_bool key_ready + of_bool mouse_ready + length requests \<and>
    leaving c' = Jump_To_Bootloader \<and>
    Application_Jump_Check word0' cause' WDRF' key' = (False, key')"
proof -
  have firm: "firm c" using safe_o_result [OF firm_run [OF firm_power_on] assms(1)] .
  obtain c1 rs1 where c1: "usb_task lufa lmod pins key_ready Keyboard_interface c = Some (Inr c1)" "pulled_up (brd (kb c1))"
      "sent c1 = sent c @ rs1" "length rs1 = of_bool key_ready"
    using keyboard_task [OF firm assms(8)] by blast
  obtain c2 rs2 where c2: "usb_task lufa lmod pins mouse_ready Mouse_interface (scan_ports c1) = Some (Inr c2)"
      "kb c2 = kb (scan_ports c1)" "sent c2 = sent c1 @ rs2" "length rs2 = of_bool mouse_ready"
    using mouse_task [of lufa lmod pins mouse_ready "scan_ports c1"] by auto
  obtain c3 rs3 where c3: "serve_requests lufa lmod pins requests c2 = Some (Inr c3)" "kb c3 = kb c2"
      "sent c3 = sent c2 @ rs3" "length rs3 = length requests"
    using mouse_requests [OF assms(9), of lufa lmod pins c2] by blast
  have "column_ready 1 (brd (kb c3))" using scan_ports_column [OF c1(2)] c2(2) c3(2) by simp
  then have "fst (chord pins (kb c3))" using chord_tests_keys [OF assms(3) _ assms(7)] assms(4-6) by simp
  then obtain c' where c': "handle lufa lmod pins (Round key_ready mouse_ready requests) c = Some (Inr c')"
      "leaving c' = Jump_To_Bootloader" "sent c' = sent c3"
    by (simp add: main_round_def c1(1) c2(1) c3(1) case_prod_beta Let_def)
  have left: "run lufa lmod pins es c' = Some (Inr c')" for es
    using c'(2) by (induction es) (simp_all add: Jump_To_Bootloader_def)
  have "key' = 0" using assms(10) by (auto simp: Application_Jump_Check_def Let_def split: if_splits)
  then have "Application_Jump_Check word0' cause' WDRF' key' = (False, key')"
    by (simp add: Application_Jump_Check_def MAGIC_BOOT_KEY_def Let_def)
  then show ?thesis
    using c' left assms(2) c1(3,4) c2(3,4) c3(3,4) by (intro exI [of _ c'] exI [of _ "rs1 @ rs2 @ rs3"]) simp
qed

text \<open>A matrix on which the three keys are held.\<close>

definition pins_chord :: pins where
  "pins_chord b p = (case p of
       PINB \<Rightarrow> if DDRB b = 0xff then PORTB b else if DDRD b = 0x10 then 0x40 else 0
     | PINC \<Rightarrow> if DDRB b = 0xff \<and> PORTB b = 0xfe then 0x7f else 0xff
     | PIND \<Rightarrow> if DDRB b = 0xff \<and> PORTB b = 0xbf then 0xef else 0xff
     | PINE \<Rightarrow> if DDRB b = 0xff \<and> PORTB b = 0xfd then 0xfb else 0xff
     | _ \<Rightarrow> 0xff)"

lemma wired_chord: "wired pins_chord (\<lambda>k. k = (0, 13) \<or> k = (1, 12) \<or> k = (3, 1))"
  unfolding wired_def less_8
  by (auto simp: pins_chord_def row_pins_def rowY_def rowYN_def column_ready_def pulled_up_def)

text \<open>First nothing is held and the touch pad is used, then the three keys, in a round with all reports.\<close>

lemma chord_enters_bootloader_witness:
  "\<exists>c c' rs. run (\<lambda>_. 4) (\<lambda>_. 2) pins_A [Touch_pad_interrupt (Some [1, 0, 1, 1, 44, 0, 50]), Get_report Mouse_interface] (power_on idle_board)
      = Some (Inr c) \<and>
    (\<forall>es. run (\<lambda>_. 4) (\<lambda>_. 2) pins_chord (Round True True [Mouse_interface] # es) c = Some (Inr c')) \<and>
    sent c' = sent c @ rs \<and> length rs = of_bool True + of_bool True + length [Mouse_interface] \<and>
    leaving c' = Jump_To_Bootloader \<and> Application_Jump_Check 0x940c 8 3 0 = (False, 0)"
proof -
  let ?es = "[Touch_pad_interrupt (Some [1, 0, 1, 1, 44, 0, 50]), Get_report Mouse_interface]"
  let ?p = "\<lambda>k. k = (0 :: nat, 13 :: nat) \<or> k = (1, 12) \<or> k = (3, 1)"
  obtain c where c: "run (\<lambda>_. 4) (\<lambda>_. 2) pins_A ?es (power_on idle_board) = Some (Inr c)" "leaving c = []"
    by (simp add: power_on_def SetupHardware_def CALLBACK_HID_Device_CreateHIDReport_def case_prod_beta Let_def)
  have "no_lock (\<lambda>_. 4) ?p" by (simp add: no_lock_def no_lock_in_def)
  then have "True \<longrightarrow> CreateKeyboardReport (\<lambda>_. 4) (\<lambda>_. 2) pins_chord (kb c) \<noteq> None"
    using report_keys [OF wired_chord, of "\<lambda>_. 4" "\<lambda>_. 2" "kb c"] by auto
  moreover have "\<forall>b. column_ready 0 b \<longrightarrow> (pins_chord b PIND AND push_bit 4 1 = 0) = ?p (0, 13)"
    by (simp add: column_ready_def pins_chord_def rowY_def)
  moreover have "Application_Jump_Check 0x940c 8 3 MAGIC_BOOT_KEY = (True, 0)" by (simp add: Application_Jump_Check_def Let_def)
  ultimately show ?thesis
    using chord_enters_bootloader [OF c wired_chord, of True "[Mouse_interface]" "0x940c" 8 3 MAGIC_BOOT_KEY 0 True "0x940c" 8 3] c(1)
    by auto
qed

end
