(* ===== verification/Json.thy ===== *)
theory Json
  imports CLib
begin

text \<open>
  The JSON reader of the project builder (\<open>tools/build.c\<close>): a text that is parsed again and again, level
  by level, with a stack of the objects that enclose the current position. Pointers to objects are
  indexes of that stack, the pointer \<open>p\<close> into the text is the index \<open>i\<close> it moves with, and an access
  outside the text or the stack is the outcome \<open>OutOfBounds\<close>.
\<close>

section \<open>Data\<close>

definition json__MAX_DEPTH :: nat where
  "json__MAX_DEPTH = 20"

datatype jtype =
    json__undefined | json__object_null | json__boolean | json__boolean_true | json__boolean_false
  | json__number | json__bigint | json__string | json__symbol | json__function
  | json__object | json__object_array

datatype jstate =
    json__state_init | json__state_object_body | json__state_object_name | json__state_object_after_name
  | json__state_object_after_colon | json__state_object_after_comma | json__state_object_after_member
  | json__state_array_body | json__state_array_after_comma | json__state_array_after_member
  | json__state_end

record jobj =
  depth :: nat
  jstate :: jstate
  child_name_s :: nat
  child_name_e :: nat
  child_type :: jtype
  jtype :: jtype
  name_start :: nat
  name_end :: nat
  value_start :: nat
  value_end :: nat
  jcount :: nat

text \<open>
  The tree. \<open>buf\<close> is the allocated text with the zero character after it, so it has \<open>len + 1\<close>
  characters; \<open>errors\<close> are the messages printed, with their offsets.
\<close>

record tree =
  buf :: string
  len :: nat
  stack :: "jobj list"
  errors :: "(nat \<times> string) list"

text \<open>An object whose fields are all zero, as after \<open>memset\<close>.\<close>

definition zero_obj :: jobj where
  "zero_obj = \<lparr>depth = 0, jstate = json__state_init, child_name_s = 0, child_name_e = 0,
     child_type = json__undefined, jtype = json__undefined, name_start = 0, name_end = 0,
     value_start = 0, value_end = 0, jcount = 0\<rparr>"

abbreviation obj :: "tree \<Rightarrow> nat \<Rightarrow> jobj" where
  "obj t k \<equiv> stack t ! k"

definition upd :: "tree \<Rightarrow> nat \<Rightarrow> (jobj \<Rightarrow> jobj) \<Rightarrow> tree" where
  "upd t k f = t\<lparr>stack := (stack t)[k := f (stack t ! k)]\<rparr>"

definition byte :: "tree \<Rightarrow> nat \<Rightarrow> char c" where
  "byte t i = (if i < length (buf t) then Inr (buf t ! i) else Inl OutOfBounds)"

section \<open>Operations\<close>

text \<open>The line and column of an error message.\<close>

fun json__error_position :: "string \<Rightarrow> nat \<Rightarrow> nat \<Rightarrow> nat \<times> nat" where
  "json__error_position [] line col = (line, col)"
| "json__error_position (c # cs) line col =
     (if c = CHR 0x0A then json__error_position cs (line + 1) (0 + 1)
      else json__error_position cs line (col + 1))"

definition json__error :: "tree \<Rightarrow> nat \<Rightarrow> string \<Rightarrow> tree" where
  "json__error t offset message = t\<lparr>errors := errors t @ [(offset, message)]\<rparr>"

text \<open>
  \<open>json__copy_string\<close>: the bytes copied, without the zero that ends them; \<open>None\<close> where the program
  exits. \<open>name_end - name_start\<close> wraps when the end is before the start, and then is too large.
\<close>

definition json__copy_string :: "tree \<Rightarrow> nat \<Rightarrow> nat \<Rightarrow> nat \<Rightarrow> string option c" where
  "json__copy_string t s e n =
     (if e < s \<or> e - s \<ge> n - 1 then Inr None
      else if e \<le> length (buf t) then Inr (Some (take (e - s) (drop s (buf t)))) else Inl OutOfBounds)"

text \<open>The result of push and pop: the tree, the new current object, and whether it succeeded.\<close>

definition json__push :: "tree \<Rightarrow> nat \<Rightarrow> nat \<Rightarrow> (tree \<times> nat \<times> bool) c" where
  "json__push t k offset =
     (let ob = obj t k; d = Suc (depth ob) in
      if depth ob \<ge> json__MAX_DEPTH
      then Inr (json__error t offset ''too many nested level of objects'', 0, False)
      else if d \<ge> length (stack t) then Inl OutOfBounds
      else let t1 = upd t k (\<lambda>ob. ob\<lparr>jcount := jcount ob + 1\<rparr>);
               t2 = upd t1 d (\<lambda>r. r\<lparr>depth := d, value_start := offset + 1, value_end := 0, jcount := 0,
                      child_name_s := 0, child_name_e := 0, child_type := json__undefined\<rparr>)
           in Inr (if child_type ob \<noteq> json__undefined
                then (upd (upd t2 d (\<lambda>r. r\<lparr>name_start := child_name_s ob, name_end := child_name_e ob,
                                           jtype := child_type ob\<rparr>))
                        k (\<lambda>ob. ob\<lparr>child_type := json__undefined\<rparr>), d, True)
                else (upd t2 d (\<lambda>r. r\<lparr>jtype := json__undefined, name_start := 0, name_end := 0\<rparr>), d, True)))"

definition json__pop :: "tree \<Rightarrow> nat \<Rightarrow> nat \<Rightarrow> tree \<times> nat \<times> bool" where
  "json__pop t k offset =
     (if depth (obj t k) < 1 then (json__error t offset ''unmatched }'', 0, False)
      else (upd t k (\<lambda>ob. ob\<lparr>value_end := offset - 1\<rparr>), depth (obj t k) - 1, True))"

definition json__prepare_member :: "tree \<Rightarrow> nat \<Rightarrow> jtype \<Rightarrow> nat \<Rightarrow> nat \<Rightarrow> tree" where
  "json__prepare_member t k ty s e =
     upd t k (\<lambda>r. r\<lparr>child_name_s := s, child_name_e := e, child_type := ty\<rparr>)"

text \<open>The result of \<open>json__add_member\<close> is never looked at, so only the tree is returned.\<close>

definition json__add_member :: "tree \<Rightarrow> nat \<Rightarrow> jtype \<Rightarrow> nat \<Rightarrow> nat \<Rightarrow> tree c" where
  "json__add_member t k ty s e =
     (let r = obj t k; d = Suc (depth r) in
      if child_type r \<noteq> json__undefined \<and> (child_type r \<noteq> ty \<or> jtype r \<noteq> json__object)
      then Inr (json__error t s ''data mismatch'')
      else if d \<ge> length (stack t) then Inl OutOfBounds
      else let t1 = upd t d (\<lambda>c. c\<lparr>depth := d, name_start := child_name_s r, name_end := child_name_e r,
                      jtype := ty, value_start := s, value_end := e\<rparr>)
           in Inr (upd t1 k (\<lambda>r. r\<lparr>child_type := json__undefined, jcount := jcount r + 1,
                jstate := (if jstate r = json__state_array_body \<or> jstate r = json__state_array_after_comma
                           then json__state_array_after_member else json__state_object_after_member)\<rparr>)))"

text \<open>
  \<open>json__match\<close>: the loop over the name of the object, with the rest of the other string and the
  zero after it; a zero in the text that meets that zero makes the loop read on after it.
\<close>

fun match_loop :: "tree \<Rightarrow> nat \<Rightarrow> nat \<Rightarrow> string \<Rightarrow> bool c" where
  "match_loop t i e [] = Inl OutOfBounds"
| "match_loop t i e (p # ps) =
     (if i < e then bind_c (byte t i) (\<lambda>r. if p \<noteq> r then Inr False else match_loop t (Suc i) e ps)
      else Inr (p = CHR 0x00))"

definition json__match :: "tree \<Rightarrow> nat \<Rightarrow> string \<Rightarrow> bool c" where
  "json__match t k name = match_loop t (name_start (obj t k)) (name_end (obj t k)) (name @ [CHR 0x00])"

section \<open>One character of \<open>json__get\<close>\<close>

text \<open>
  A case of the switch either returns from the function, or leaves it with the tree, the current
  object, the position and the last name.
\<close>

datatype step =
    Leave tree "nat option"
  | Go tree nat nat nat nat

definition fail :: "tree \<Rightarrow> nat \<Rightarrow> string \<Rightarrow> step c" where
  "fail t offset message = Inr (Leave (json__error t offset message) (Some 0))"

definition set_state :: "jstate \<Rightarrow> jobj \<Rightarrow> jobj" where
  "set_state s r = r\<lparr>jstate := s\<rparr>"

text \<open>An opening brace (\<open>True\<close>) or bracket.\<close>

definition get_open :: "bool \<Rightarrow> tree \<Rightarrow> nat \<Rightarrow> nat \<Rightarrow> nat \<Rightarrow> nat \<Rightarrow> step c" where
  "get_open brace t ret i ns ne =
     (let s = jstate (obj t ret);
          push = (\<lambda>t1. bind_c (json__push t1 ret i) (\<lambda>(t2, ret', ok).
             if \<not> ok then Inr (Leave t2 (Some ret'))
             else Inr (Go (upd t2 ret' (\<lambda>r. r\<lparr>jtype := (if brace then json__object else json__object_array),
                     jstate := (if brace then json__state_object_body else json__state_array_body)\<rparr>)) ret' i ns ne)))
      in if s = json__state_init \<and> \<not> brace then fail t i ''{ expected at root''
         else if s = json__state_init then push (upd t ret (set_state json__state_object_after_member))
         else if s = json__state_object_after_colon
           then push (upd (json__prepare_member t ret (if brace then json__object else json__object_array) ns ne)
                        ret (set_state json__state_object_after_member))
         else if s = json__state_array_after_comma \<or> s = json__state_array_body
           then push (upd t ret (set_state json__state_array_after_member))
         else fail t i (if brace then ''unexpected {'' else ''unexpected [''))"

definition get_close :: "bool \<Rightarrow> tree \<Rightarrow> nat \<Rightarrow> nat \<Rightarrow> nat \<Rightarrow> nat \<Rightarrow> nat \<Rightarrow> step c" where
  "get_close brace t od ret i ns ne =
     (let s = jstate (obj t ret);
          ok = (if brace then s \<in> {json__state_object_body, json__state_object_after_member, json__state_object_after_comma}
                else s \<in> {json__state_array_body, json__state_array_after_member, json__state_array_after_comma})
      in if \<not> ok then fail t i (if brace then ''unexpeced }'' else ''unexpeced ]'')
         else let (t1, ret', popped) = json__pop t ret i
              in if \<not> popped then Inr (Leave t1 (Some ret'))
                 else Inr (Go (if depth (obj t1 ret') < od then upd t1 ret' (set_state json__state_end) else t1)
                             ret' i ns ne))"

definition get_comma :: "tree \<Rightarrow> nat \<Rightarrow> nat \<Rightarrow> nat \<Rightarrow> nat \<Rightarrow> step c" where
  "get_comma t ret i ns ne =
     (let s = jstate (obj t ret) in
      if s = json__state_array_after_member then Inr (Go (upd t ret (set_state json__state_array_after_comma)) ret i ns ne)
      else if s = json__state_object_after_member then Inr (Go (upd t ret (set_state json__state_object_after_comma)) ret i ns ne)
      else fail t i '' unexpected , '')"

definition get_colon :: "tree \<Rightarrow> nat \<Rightarrow> nat \<Rightarrow> nat \<Rightarrow> nat \<Rightarrow> step c" where
  "get_colon t ret i ns ne =
     (if jstate (obj t ret) \<noteq> json__state_object_after_name then fail t i '' unexpected : ''
      else Inr (Go (upd t ret (set_state json__state_object_after_colon)) ret i ns ne))"

text \<open>The loop over the characters of a string; it returns the position where it stops.\<close>

function string_end :: "tree \<Rightarrow> nat \<Rightarrow> nat \<Rightarrow> nat c" where
  "string_end t stop i =
     bind_c (byte t i) (\<lambda>c.
       if c \<noteq> CHR 0x22 \<and> i < stop
       then if c = CHR 0x5C
            then bind_c (byte t (Suc i)) (\<lambda>d.
                   if d = CHR 0x22 \<or> d = CHR 0x5C then string_end t stop (i + 2) else string_end t stop (i + 1))
            else string_end t stop (i + 1)
       else Inr i)"
  by pat_completeness auto
termination
  by (relation "measure (\<lambda>(t, e, i). e - i)") auto

declare string_end.simps [simp del]

definition get_quote :: "tree \<Rightarrow> nat \<Rightarrow> nat \<Rightarrow> nat \<Rightarrow> nat \<Rightarrow> nat \<Rightarrow> nat \<Rightarrow> step c" where
  "get_quote t k stop ret i0 ns ne =
     (let start = i0 + 1;
          t1 = (if jstate (obj t ret) = json__state_object_after_colon
                then json__prepare_member t ret json__string ns ne else t)
      in bind_c (string_end t1 stop start) (\<lambda>i.
           if i > value_end (obj t1 k) then fail t1 start ''unterminated quote''
           else let s = jstate (obj t1 ret) in
             if s = json__state_object_after_colon
             then bind_c (json__add_member t1 ret json__string start i) (\<lambda>t2.
                    Inr (Go (upd t2 ret (set_state json__state_object_after_member)) ret i start i))
             else if s = json__state_object_after_comma
             then Inr (Go (upd t1 ret (set_state json__state_object_after_name)) ret i start i)
             else if s = json__state_array_body \<or> s = json__state_array_after_comma
             then bind_c (json__add_member t1 ret json__string start i) (\<lambda>t2.
                    Inr (Go (upd t2 ret (set_state json__state_array_after_member)) ret i start i))
             else if s = json__state_object_body
             then Inr (Go (upd t1 ret (set_state json__state_object_after_name)) ret i start i)
             else fail t1 i '' unexpected string ''))"

text \<open>The comparison of the letters after the first; it reads no further than it must.\<close>

primrec match_rest :: "tree \<Rightarrow> nat \<Rightarrow> string \<Rightarrow> bool c" where
  "match_rest t i [] = Inr True"
| "match_rest t i (c # cs) = bind_c (byte t i) (\<lambda>d. if d = c then match_rest t (Suc i) cs else Inr False)"

definition get_keyword :: "jtype \<Rightarrow> string \<Rightarrow> tree \<Rightarrow> nat \<Rightarrow> nat \<Rightarrow> nat \<Rightarrow> nat \<Rightarrow> step c" where
  "get_keyword ty rest t ret i ns ne =
     (let t1 = (if jstate (obj t ret) = json__state_object_after_colon
                then json__prepare_member t ret ty ns ne else t)
      in bind_c (match_rest t1 (Suc i) rest) (\<lambda>ok.
           if \<not> ok then fail t1 i '' unexpected keyword ''
           else bind_c (json__add_member t1 ret ty i (Suc i + length rest)) (\<lambda>t2.
             Inr (Go (upd t2 ret (set_state json__state_object_after_member)) ret (i + length rest) ns ne))))"

section \<open>Numbers\<close>

function digits_end :: "tree \<Rightarrow> nat \<Rightarrow> nat c" where
  "digits_end t i =
     bind_c (byte t i) (\<lambda>c. if isdigit c then digits_end t (Suc i) else Inr i)"
  by pat_completeness auto
termination
  by (relation "measure (\<lambda>(t, i). length (buf t) - i)") (auto simp: byte_def split: if_splits)

declare digits_end.simps [simp del]

definition skip_char :: "tree \<Rightarrow> char set \<Rightarrow> nat \<Rightarrow> nat c" where
  "skip_char t cs i = bind_c (byte t i) (\<lambda>c. Inr (if c \<in> cs then Suc i else i))"

definition number_end :: "tree \<Rightarrow> nat \<Rightarrow> nat c" where
  "number_end t i =
     bind_c (skip_char t {CHR ''-''} i) (\<lambda>i.
     bind_c (digits_end t i) (\<lambda>i.
     bind_c (skip_char t {CHR ''.''} i) (\<lambda>i.
     bind_c (digits_end t i) (\<lambda>i.
     bind_c (skip_char t {CHR ''e'', CHR ''E''} i) (\<lambda>i.
     bind_c (skip_char t {CHR ''-'', CHR ''+''} i) (\<lambda>i.
     digits_end t i))))))"

text \<open>The case of a number steps back one character at its end; it has read at least one.\<close>

definition get_number :: "tree \<Rightarrow> nat \<Rightarrow> nat \<Rightarrow> nat \<Rightarrow> nat \<Rightarrow> step c" where
  "get_number t ret i0 ns ne =
     (let t1 = (if jstate (obj t ret) = json__state_object_after_colon
                then json__prepare_member t ret json__number ns ne else t)
      in bind_c (number_end t1 i0) (\<lambda>i.
           bind_c (byte t1 (i - 1)) (\<lambda>c.
           if i = Suc i0 \<and> c = CHR ''-'' then fail t1 i '' unexpected - ''
           else bind_c (json__add_member t1 ret json__number i0 i) (\<lambda>t2.
             Inr (Go (upd t2 ret (set_state json__state_object_after_member)) ret (i - 1) i0 ne)))))"

definition get_char :: "tree \<Rightarrow> nat \<Rightarrow> nat \<Rightarrow> nat \<Rightarrow> nat \<Rightarrow> nat \<Rightarrow> nat \<Rightarrow> nat \<Rightarrow> step c" where
  "get_char t k od stop ret i ns ne =
     bind_c (byte t i) (\<lambda>c.
       if c = CHR ''{'' then get_open True t ret i ns ne
       else if c = CHR ''['' then get_open False t ret i ns ne
       else if c = CHR ''}'' then get_close True t od ret i ns ne
       else if c = CHR '']'' then get_close False t od ret i ns ne
       else if c = CHR '','' then get_comma t ret i ns ne
       else if c = CHR '':'' then get_colon t ret i ns ne
       else if c = CHR 0x22 then get_quote t k stop ret i ns ne
       else if c \<in> {CHR 0x0A, CHR '' '', CHR 0x09, CHR 0x0D} then Inr (Go t ret i ns ne)
       else if c = CHR ''n'' then get_keyword json__object_null ''ull'' t ret i ns ne
       else if c = CHR ''t'' then get_keyword json__boolean_true ''rue'' t ret i ns ne
       else if c = CHR ''f'' then get_keyword json__boolean_false ''alse'' t ret i ns ne
       else if c = CHR ''-'' \<or> isdigit c then get_number t ret i ns ne
       else fail t i '' unexpected character '')"

section \<open>The loop of \<open>json__get\<close>\<close>

text \<open>A case never moves the position backwards, so the loop ends.\<close>

named_theorems moves \<open>where a case leaves the position\<close>

lemma open_moves [moves]: "get_open brace t ret i ns ne = Inr (Go t' ret' i' ns' ne') \<Longrightarrow> i \<le> i'"
  and close_moves [moves]: "get_close brace t od ret i ns ne = Inr (Go t' ret' i' ns' ne') \<Longrightarrow> i \<le> i'"
  and comma_moves [moves]: "get_comma t ret i ns ne = Inr (Go t' ret' i' ns' ne') \<Longrightarrow> i \<le> i'"
  and colon_moves [moves]: "get_colon t ret i ns ne = Inr (Go t' ret' i' ns' ne') \<Longrightarrow> i \<le> i'"
  and keyword_moves [moves]: "get_keyword ty rest t ret i ns ne = Inr (Go t' ret' i' ns' ne') \<Longrightarrow> i \<le> i'"
  by (auto simp: get_open_def get_close_def get_comma_def get_colon_def get_keyword_def fail_def Let_def
      bind_c_eq_Inr split: if_splits prod.splits)

lemma string_end_moves: "string_end t stop i = Inr j \<Longrightarrow> i \<le> j"
proof (induction "stop - i" arbitrary: i rule: less_induct)
  case less
  from less.prems show ?case
    by (subst (asm) string_end.simps)
      (auto simp: bind_c_eq_Inr split: if_splits dest!: less.hyps [rotated])
qed

lemma digits_end_moves: "digits_end t i = Inr j \<Longrightarrow> i \<le> j"
proof (induction "length (buf t) - i" arbitrary: i rule: less_induct)
  case less
  from less.prems show ?case
    by (subst (asm) digits_end.simps)
      (auto simp: bind_c_eq_Inr byte_def split: if_splits dest!: less.hyps [rotated])
qed

lemma skip_char_moves: "skip_char t cs i = Inr j \<Longrightarrow> i \<le> j \<and> j \<le> Suc i"
  by (auto simp: skip_char_def bind_c_eq_Inr split: if_splits)

lemma quote_moves [moves]: "get_quote t k stop ret i ns ne = Inr (Go t' ret' i' ns' ne') \<Longrightarrow> i \<le> i'"
  by (auto simp: get_quote_def fail_def Let_def bind_c_eq_Inr split: if_splits dest!: string_end_moves)

lemma upd_simps [simp]:
  "buf (upd t k f) = buf t" "len (upd t k f) = len t" "errors (upd t k f) = errors t"
  "length (stack (upd t k f)) = length (stack t)" "byte (upd t k f) i = byte t i"
  by (simp_all add: upd_def byte_def)

lemma prepare_simps [simp]:
  "buf (json__prepare_member t k ty a b) = buf t" "byte (json__prepare_member t k ty a b) i = byte t i"
  "length (stack (json__prepare_member t k ty a b)) = length (stack t)"
  by (simp_all add: json__prepare_member_def)

lemma number_end_steps:
  assumes "number_end t i = Inr j"
  obtains a b where "skip_char t {CHR ''-''} i = Inr a" "digits_end t a = Inr b" "b \<le> j"
proof -
  obtain a b c d e f where steps: "skip_char t {CHR ''-''} i = Inr a" "digits_end t a = Inr b"
      "skip_char t {CHR ''.''} b = Inr c" "digits_end t c = Inr d" "skip_char t {CHR ''e'', CHR ''E''} d = Inr e"
      "skip_char t {CHR ''-'', CHR ''+''} e = Inr f" "digits_end t f = Inr j"
    using assms by (auto simp: number_end_def bind_c_eq_Inr)
  then have "b \<le> c" "c \<le> d" "d \<le> e" "e \<le> f" "f \<le> j"
    by (auto dest: skip_char_moves digits_end_moves)
  then show ?thesis
    using steps by (intro that [of a b]) auto
qed

lemma number_end_moves_on:
  assumes c: "byte t i = Inr c" "c = CHR ''-'' \<or> isdigit c" and number: "number_end t i = Inr j"
  shows "i < j"
proof -
  obtain a b where ab: "skip_char t {CHR ''-''} i = Inr a" "digits_end t a = Inr b" "b \<le> j"
    using number by (rule number_end_steps)
  have "Suc i \<le> b"
  proof (cases "c = CHR ''-''")
    case True
    then have "a = Suc i" using ab(1) c(1) by (simp add: skip_char_def)
    then show ?thesis using digits_end_moves [OF ab(2)] by simp
  next
    case False
    then have "a = i" "isdigit c" using ab(1) c by (simp_all add: skip_char_def)
    then have "digits_end t (Suc i) = Inr b" using ab(2) c(1) by (subst (asm) digits_end.simps) simp
    then show ?thesis by (rule digits_end_moves)
  qed
  then show ?thesis using ab(3) by simp
qed

lemma number_moves:
  "byte t i = Inr c \<Longrightarrow> c = CHR ''-'' \<or> isdigit c \<Longrightarrow>
   get_number t ret i ns ne = Inr (Go t' ret' i' ns' ne') \<Longrightarrow> i \<le> i'"
  by (force simp: get_number_def fail_def Let_def bind_c_eq_Inr split: if_splits
      dest: number_end_moves_on [rotated 2])

lemma get_char_moves:
  assumes "get_char t k od stop ret i ns ne = Inr (Go t' ret' i' ns' ne')"
  shows "i \<le> i'"
proof -
  obtain c where c: "byte t i = Inr c"
    using assms by (auto simp: get_char_def bind_c_eq_Inr)
  show ?thesis
    using assms number_moves [OF c] by (auto simp: get_char_def c fail_def split: if_splits dest: moves)
qed

function json__scan :: "tree \<Rightarrow> nat \<Rightarrow> nat \<Rightarrow> nat \<Rightarrow> nat \<Rightarrow> nat \<Rightarrow> nat \<Rightarrow> nat \<Rightarrow> (tree \<times> nat option) c" where
  "json__scan t k od stop ret i ns ne =
     (if i < stop
      then bind_c (get_char t k od stop ret i ns ne) (\<lambda>r. case r of
             Leave t' found \<Rightarrow> Inr (t', found)
           | Go t' ret' i' ns' ne' \<Rightarrow>
               if depth (obj t' ret') = od \<and> jcount (obj t' ret') = 1 then Inr (t', Some (Suc (depth (obj t' ret'))))
               else if depth (obj t' ret') < od then Inr (t', None)
               else if jstate (obj t' ret') = json__state_end then Inr (t', None)
               else json__scan t' k od stop ret' (Suc i') ns' ne')
      else Inr (t, if depth (obj t ret) = od \<and> jcount (obj t ret) = 1 then Some (Suc (depth (obj t ret))) else None))"
  by pat_completeness auto
termination
  by (relation "measure (\<lambda>(t, k, od, stop, ret, i, ns, ne). stop - i)") (auto dest!: get_char_moves)

declare json__scan.simps [simp del]

section \<open>The functions of the reader\<close>

definition get_start :: "tree \<Rightarrow> nat \<Rightarrow> nat option \<Rightarrow> nat" where
  "get_start t k child = (case child of
       None \<Rightarrow> value_start (obj t k)
     | Some c \<Rightarrow>
         if jtype (obj t c) \<in> {json__object, json__object_array} then value_end (obj t c) + 2
         else if jtype (obj t c) \<in> {json__boolean_true, json__boolean_false, json__object_null, json__number}
         then value_end (obj t c)
         else value_end (obj t c) + 1)"

text \<open>The result is the index of the member found, or none for the null pointer.\<close>

definition json__get :: "tree \<Rightarrow> nat \<Rightarrow> nat option \<Rightarrow> (tree \<times> nat option) c" where
  "json__get t k child =
     (if depth (obj t k) \<ge> json__MAX_DEPTH
      then Inr (json__error t (get_start t k child) ''too many nested elements'', Some 0)
      else json__scan (upd t k (\<lambda>r. r\<lparr>jcount := 0\<rparr>)) k (depth (obj t k)) (value_end (obj t k)) k
             (get_start t k child) 0 0)"

definition json__get_next :: "tree \<Rightarrow> nat \<Rightarrow> nat option \<Rightarrow> (tree \<times> nat option) c" where
  "json__get_next t k child =
     (let t1 = (if child \<noteq> None then t
                else if jtype (obj t k) = json__object_array then upd t k (set_state json__state_array_body)
                else if jtype (obj t k) = json__object then upd t k (set_state json__state_object_body)
                else upd t k (set_state json__state_init))
      in json__get (upd t1 k (\<lambda>r. r\<lparr>jcount := 0\<rparr>)) k child)"

text \<open>
  The text of a document with the zero that \<open>json__load_file\<close> puts after it. A file that cannot be
  opened or read to its end is none, as is the null pointer that is returned.
\<close>

definition json__load_file :: "string option \<Rightarrow> string option" where
  "json__load_file file = (case file of
       None \<Rightarrow> None
     | Some content \<Rightarrow> if length content < 1 then None else Some (content @ [CHR 0x00]))"

text \<open>
  \<open>json__save_file\<close>, which the program does not call: the result and the contents of the file afterwards.
  The first argument is the number of bytes \<open>fwrite\<close> could write, none where the file cannot be opened.
\<close>

definition json__save_file :: "nat option \<Rightarrow> nat \<Rightarrow> string \<Rightarrow> (int \<times> string option) c" where
  "json__save_file written sz b = (case written of
       None \<Rightarrow> Inr (-1, None)
     | Some n \<Rightarrow> if length b < sz then Inl OutOfBounds
         else Inr (if min n sz \<noteq> sz then -1 else 0, Some (take (min n sz) b)))"

text \<open>A document that was loaded and saved with its size is loaded again as it was.\<close>

lemma load_save:
  assumes "json__load_file file = Some txt" "json__save_file written (length txt - 1) txt = Inr (0, saved)"
  shows "json__load_file saved = Some txt"
  using assms by (auto simp: json__load_file_def json__save_file_def split: option.splits if_splits)

text \<open>\<open>garbage\<close> is the stack of 22 objects in the frame of \<open>main\<close>, which nothing initialises.\<close>

definition json__parse :: "string \<Rightarrow> nat \<Rightarrow> jobj list \<Rightarrow> (tree \<times> nat option) c" where
  "json__parse txt sz garbage =
     (let t = \<lparr>buf = txt, len = sz, stack = garbage, errors = []\<rparr> in
      json__get (upd t 0 (\<lambda>r. r\<lparr>value_end := sz, value_start := 0, depth := 0, jtype := json__undefined,
          jstate := json__state_init, name_start := 0, name_end := 0, child_type := json__undefined,
          jcount := 0\<rparr>)) 0 None)"

section \<open>Walking through a document\<close>

text \<open>
  A walk returns, ends the program with \<open>exit\<close>, or is still running when its fuel is spent. The
  callback reads the tree and the index of the object it is called for, and changes its own context.
\<close>

datatype 'a run = Returns 'a | Exits | Runs_on

definition bind_r :: "'a run c \<Rightarrow> ('a \<Rightarrow> 'b run c) \<Rightarrow> 'b run c" where
  "bind_r r f = bind_c r (\<lambda>x. case x of Returns y \<Rightarrow> f y | Exits \<Rightarrow> Inr Exits | Runs_on \<Rightarrow> Inr Runs_on)"

definition returns :: "'a c \<Rightarrow> 'a run c" where
  "returns r = bind_c r (\<lambda>x. Inr (Returns x))"

definition or_exit :: "'a option c \<Rightarrow> 'a run c" where
  "or_exit r = bind_c r (\<lambda>x. Inr (case x of None \<Rightarrow> Exits | Some y \<Rightarrow> Returns y))"

lemma run_simps [simp, c_simps]:
  "bind_r (Inl e) f = Inl e" "bind_r (Inr (Returns x)) f = f x"
  "bind_r (Inr Exits) f = Inr Exits" "bind_r (Inr Runs_on) f = Inr Runs_on"
  "returns (Inr x) = Inr (Returns x)" "returns (Inl e) = Inl e"
  "or_exit (Inr (Some x)) = Inr (Returns x)" "or_exit (Inr None) = Inr Exits" "or_exit (Inl e) = Inl e"
  by (simp_all add: bind_r_def returns_def or_exit_def)

type_synonym 'x callback = "tree \<Rightarrow> nat \<Rightarrow> 'x \<Rightarrow> ('x \<times> int) run c"

fun json__visitor :: "nat \<Rightarrow> 'x callback \<Rightarrow> tree \<Rightarrow> nat \<Rightarrow> 'x \<Rightarrow> (tree \<times> 'x \<times> int) run c"
  and visit_members :: "nat \<Rightarrow> 'x callback \<Rightarrow> tree \<Rightarrow> nat \<Rightarrow> nat option \<Rightarrow> 'x \<Rightarrow> (tree \<times> 'x \<times> int) run c" where
  "json__visitor 0 cb t k x = Inr Runs_on"
| "json__visitor (Suc n) cb t k x =
     (if jtype (obj t k) \<noteq> json__object \<and> jtype (obj t k) \<noteq> json__object_array
      then bind_r (cb t k x) (\<lambda>(x', r). Inr (Returns (t, x', r)))
      else bind_r (returns (json__get_next t k None)) (\<lambda>(t1, child). visit_members n cb t1 k child x))"
| "visit_members 0 cb t k child x = Inr Runs_on"
| "visit_members (Suc n) cb t k child x = (case child of
       None \<Rightarrow> bind_r (cb t k x) (\<lambda>(x', r). Inr (Returns (t, x', r)))
     | Some c \<Rightarrow> bind_r (json__visitor n cb t c x) (\<lambda>(t1, x1, r).
         if r \<noteq> 0 then Inr (Returns (t1, x1, r))
         else bind_r (returns (json__get_next t1 k (Some c))) (\<lambda>(t2, child'). visit_members n cb t2 k child' x1)))"

text \<open>\<open>json__dump\<close>, with the text it writes as a result.\<close>

definition indent :: "jobj \<Rightarrow> string" where
  "indent r = replicate (depth r) (CHR '' '')"

definition quoted :: "string \<Rightarrow> string" where
  "quoted s = CHR 0x22 # c_string s @ [CHR 0x22]"

fun json__dump :: "nat \<Rightarrow> tree \<Rightarrow> nat \<Rightarrow> nat \<Rightarrow> (tree \<times> string) run c"
  and dump_members :: "nat \<Rightarrow> tree \<Rightarrow> nat \<Rightarrow> nat option \<Rightarrow> nat \<Rightarrow> (tree \<times> string) run c" where
  "json__dump 0 t k sz = Inr Runs_on"
| "json__dump (Suc n) t k sz =
     (let r = obj t k; named = (name_end r > 0) in
      bind_r (if named then or_exit (json__copy_string t (name_start r) (name_end r) sz) else Inr (Returns [])) (\<lambda>name.
      let label = (if named then indent r @ quoted name @ '':'' else []) in
      if jtype r \<in> {json__string, json__object_null, json__boolean_true, json__boolean_false, json__number}
      then bind_r (or_exit (json__copy_string t (value_start r) (value_end r) sz)) (\<lambda>value.
             Inr (Returns (t, label @ (if named then [] else indent r) @
                            (if jtype r = json__string then quoted value else c_string value))))
      else if jtype r \<noteq> json__object \<and> jtype r \<noteq> json__object_array then Inr Exits
      else bind_r (returns (json__get_next t k None)) (\<lambda>(t1, child).
           bind_r (dump_members n t1 k child sz) (\<lambda>(t2, members).
           let r2 = obj t2 k in
           Inr (Returns (t2, label @ (if named then [CHR 0x0A] else []) @ indent r @
               (if jtype r = json__object then ''{'' else ''['') @ [CHR 0x0A] @ members @ [CHR 0x0A] @
               indent r2 @ (if jtype r2 = json__object then ''}'' else if jtype r2 = json__object_array then '']'' else [])))))))"
| "dump_members 0 t k child sz = Inr Runs_on"
| "dump_members (Suc n) t k child sz = (case child of
       None \<Rightarrow> Inr (Returns (t, []))
     | Some c \<Rightarrow> bind_r (json__dump n t c sz) (\<lambda>(t1, member).
         bind_r (returns (json__get_next t1 k (Some c))) (\<lambda>(t2, child').
         bind_r (dump_members n t2 k child' sz) (\<lambda>(t3, rest).
         Inr (Returns (t3, member @ (if child' \<noteq> None then CHR '','' # [CHR 0x0A] else []) @ rest))))))"

end
