(* ===== verification/JsonSafety.thy ===== *)
theory JsonSafety
  imports Json
begin

text \<open>
  The reader of \<open>tools/build.c\<close> stays inside its text and its stack for every text it is given, and
  what its state machine refuses or runs on for ever.
\<close>

section \<open>Safety\<close>

text \<open>
  An object of the stack is linked when its depth is its index and its value ends in the text. While
  a member is scanned, every object up to the current one is linked, and the object above the current
  one is as soon as the current one has counted a member.
\<close>

definition linked :: "tree \<Rightarrow> nat \<Rightarrow> bool" where
  "linked t k \<longleftrightarrow> depth (obj t k) = k \<and> value_end (obj t k) \<le> len t"

definition wf_tree :: "tree \<Rightarrow> bool" where
  "wf_tree t \<longleftrightarrow> length (buf t) = Suc (len t) \<and> buf t ! len t = CHR 0x00 \<and> length (stack t) = 22 \<and>
     jtype (obj t 0) = json__undefined"

definition core :: "tree \<Rightarrow> nat \<Rightarrow> bool" where
  "core t n \<longleftrightarrow> wf_tree t \<and> n \<le> Suc json__MAX_DEPTH \<and> (\<forall>k \<le> n. linked t k)"

definition safe :: "tree \<Rightarrow> nat \<Rightarrow> nat \<Rightarrow> bool" where
  "safe t od ret \<longleftrightarrow> ret \<le> json__MAX_DEPTH \<and> od < json__MAX_DEPTH \<and> core t (max od ret) \<and>
     (jcount (obj t ret) \<ge> 1 \<longrightarrow> core t (Suc ret))"

lemma obj_upd:
  "k < length (stack t) \<Longrightarrow> obj (upd t k f) j = (if j = k then f (obj t k) else obj t j)"
  by (simp add: upd_def)

definition keeps :: "(jobj \<Rightarrow> jobj) \<Rightarrow> bool" where
  "keeps f \<longleftrightarrow> (\<forall>r. depth (f r) = depth r \<and> value_end (f r) = value_end r)"

lemma core_mono: "core t n \<Longrightarrow> m \<le> n \<Longrightarrow> core t m"
  by (auto simp: core_def)

lemma core_stack: "core t n \<Longrightarrow> length (stack t) = 22"
  by (simp add: core_def wf_tree_def)

lemma core_linked: "core t n \<Longrightarrow> k \<le> n \<Longrightarrow> depth (obj t k) = k \<and> value_end (obj t k) \<le> len t"
  by (simp add: core_def linked_def)

lemma core_upd:
  assumes "core t n" "j < 22" "keeps f" "j = 0 \<longrightarrow> (\<forall>r. jtype (f r) = jtype r)"
  shows "core (upd t j f) n"
  using assms by (auto simp: core_def wf_tree_def linked_def obj_upd keeps_def)

lemma core_Suc:
  assumes "core t n" "n \<le> json__MAX_DEPTH" "\<forall>r. depth (f r) = Suc n \<and> value_end (f r) \<le> len t"
  shows "core (upd t (Suc n) f) (Suc n)"
  using assms by (auto simp: core_def wf_tree_def linked_def obj_upd json__MAX_DEPTH_def le_Suc_eq)

lemma safe_core: "safe t od ret \<Longrightarrow> core t ret" "safe t od ret \<Longrightarrow> core t od"
  by (auto simp: safe_def intro: core_mono)

lemma safe_indexes:
  assumes "safe t od ret"
  shows "length (stack t) = 22" "ret \<le> 20" "od < 20" "depth (obj t ret) = ret"
  using assms core_stack [OF safe_core(1)] core_linked [OF safe_core(1)]
  by (auto simp: safe_def json__MAX_DEPTH_def)

lemma safe_upd:
  assumes "safe t od ret" "j \<le> max od ret" "keeps f" "\<forall>r. jcount (f r) = jcount r \<and> jtype (f r) = jtype r"
  shows "safe (upd t j f) od ret"
proof -
  have "j < 22" using assms(2) safe_indexes(2,3) [OF assms(1)] by (simp split: if_splits add: max_def)
  then show ?thesis
    using assms by (auto simp: safe_def obj_upd core_stack intro: core_upd split: if_splits)
qed

lemma safe_set_state: "safe t od ret \<Longrightarrow> safe (upd t ret (set_state s)) od ret"
  by (rule safe_upd) (auto simp: set_state_def keeps_def)

lemma safe_prepare: "safe t od ret \<Longrightarrow> safe (json__prepare_member t ret ty a b) od ret"
  unfolding json__prepare_member_def by (rule safe_upd) (auto simp: keeps_def)

lemma core_error: "core (json__error t a m) n \<longleftrightarrow> core t n"
  by (simp add: json__error_def core_def wf_tree_def linked_def)

lemma safe_error: "safe (json__error t a m) od ret \<longleftrightarrow> safe t od ret"
  by (simp add: safe_def core_error) (simp add: json__error_def)

definition same_text :: "tree \<Rightarrow> tree \<Rightarrow> bool" where
  "same_text t t' \<longleftrightarrow> buf t' = buf t \<and> len t' = len t"

lemma same_text_intros [simp]:
  "same_text t t" "same_text t (upd t' k f) \<longleftrightarrow> same_text t t'" "same_text t (json__error t' a m) \<longleftrightarrow> same_text t t'"
  "same_text t (json__prepare_member t' k ty a b) \<longleftrightarrow> same_text t t'"
  by (simp_all add: same_text_def json__error_def json__prepare_member_def)

lemma push_full:
  "depth (obj t ret) \<ge> json__MAX_DEPTH \<Longrightarrow>
   json__push t ret i = Inr (json__error t i ''too many nested level of objects'', 0, False)"
  by (simp add: json__push_def)

lemma push_safe:
  assumes "safe t od ret" "od \<le> ret" "depth (obj t ret) < json__MAX_DEPTH"
  shows "\<exists>t'. json__push t ret i = Inr (t', Suc ret, True) \<and> same_text t t' \<and> safe t' od (Suc ret)"
proof -
  note ix = safe_indexes [OF assms(1)]
  have ret: "ret < json__MAX_DEPTH" using assms(3) ix by simp
  define t1 where "t1 = upd t ret (\<lambda>ob. ob\<lparr>jcount := Suc (jcount ob)\<rparr>)"
  define t2 where "t2 = upd t1 (Suc ret) (\<lambda>r. r\<lparr>depth := Suc ret, value_start := Suc i, value_end := 0, jcount := 0,
                      child_name_s := 0, child_name_e := 0, child_type := json__undefined\<rparr>)"
  have "core t1 ret"
    unfolding t1_def using safe_core(1) [OF assms(1)] ix by (intro core_upd) (auto simp: keeps_def)
  then have t2: "core t2 (Suc ret)" "jcount (obj t2 (Suc ret)) = 0"
    unfolding t2_def using ret ix by (auto simp: obj_upd t1_def intro!: core_Suc)
  have same: "same_text t t2" by (simp add: t1_def t2_def)
  have fin: "same_text t t3 \<and> safe t3 od (Suc ret)"
    if "core t3 (Suc ret)" "same_text t t3" "jcount (obj t3 (Suc ret)) = 0" for t3
    using that ret assms(2) ix by (simp add: safe_def max_def)
  have core3: "core (upd t2 (Suc ret) f) (Suc ret)" if "keeps f" for f
    using t2(1) that ret by (intro core_upd) (simp_all add: json__MAX_DEPTH_def)
  have core4: "core (upd (upd t2 (Suc ret) f) ret (child_type_update g)) (Suc ret)" if "keeps f" for f g
  proof (rule core_upd)
    show "core (upd t2 (Suc ret) f) (Suc ret)" using that by (rule core3)
  qed (use ret in \<open>simp_all add: json__MAX_DEPTH_def keeps_def\<close>)
  have "length (stack t2) = 22" using core_stack [OF t2(1)] .
  then show ?thesis
    using assms(3) ix t2(2) same ret
    by (auto simp: json__push_def Let_def t1_def [symmetric] t2_def [symmetric] json__MAX_DEPTH_def obj_upd keeps_def
        intro!: fin [THEN conjunct2] core3 core4)
qed

lemma pop_safe:
  assumes "safe t od ret" "i < len t" "ret \<noteq> 0" "od \<le> ret"
  shows "\<exists>t'. json__pop t ret i = (t', ret - 1, True) \<and> same_text t t' \<and> safe t' od (ret - 1)"
proof -
  note ix = safe_indexes [OF assms(1)]
  obtain r where r: "ret = Suc r" using assms(3) by (cases ret) auto
  define t' where "t' = upd t ret (\<lambda>ob. ob\<lparr>value_end := i - 1\<rparr>)"
  have "core t' ret"
    using safe_core(1) [OF assms(1)] ix assms(2) r
    by (auto simp: t'_def core_def wf_tree_def linked_def obj_upd)
  then have "safe t' od r"
    using ix assms(4) r by (auto simp: safe_def json__MAX_DEPTH_def intro: core_mono)
  then show ?thesis using ix r by (simp add: json__pop_def t'_def)
qed

lemma pop_root: "depth (obj t ret) < 1 \<Longrightarrow> json__pop t ret i = (json__error t i ''unmatched }'', 0, False)"
  by (simp add: json__pop_def)

lemma add_member_safe:
  assumes "safe t od ret" "od \<le> ret" "e \<le> len t"
  shows "\<exists>t'. json__add_member t ret ty s e = Inr t' \<and> same_text t t' \<and> safe t' od ret"
proof -
  note ix = safe_indexes [OF assms(1)]
  define t1 where "t1 = upd t (Suc ret) (\<lambda>c. c\<lparr>depth := Suc ret, name_start := child_name_s (obj t ret),
    name_end := child_name_e (obj t ret), jtype := ty, value_start := s, value_end := e\<rparr>)"
  have t1: "core t1 (Suc ret)"
    unfolding t1_def using safe_core(1) [OF assms(1)] ix assms(3)
    by (intro core_Suc) (auto simp: json__MAX_DEPTH_def)
  have "safe (upd t1 ret f) od ret" if "keeps f" "\<forall>r. jtype (f r) = jtype r" for f
  proof -
    have "core (upd t1 ret f) (Suc ret)"
      using t1 that ix by (intro core_upd) auto
    then show ?thesis
      using ix assms(2) by (auto simp: safe_def json__MAX_DEPTH_def intro: core_mono)
  qed
  then show ?thesis
    using assms(1) ix by (auto simp: json__add_member_def Let_def t1_def [symmetric] safe_error keeps_def)
      (simp_all add: t1_def)
qed

text \<open>What a case of the switch may do.\<close>

definition good_step :: "tree \<Rightarrow> nat \<Rightarrow> step \<Rightarrow> bool" where
  "good_step t od r = (case r of
       Leave t' found \<Rightarrow> same_text t t' \<and> core t' od \<and> found = Some 0
     | Go t' ret' i' ns' ne' \<Rightarrow> same_text t t' \<and> safe t' od ret' \<and> od \<le> Suc ret')"

lemma good_Go [simp]: "good_step t od (Go t' ret' i' ns' ne') \<longleftrightarrow> same_text t t' \<and> safe t' od ret' \<and> od \<le> Suc ret'"
  by (simp add: good_step_def)

lemma good_error: "safe t' od ret \<Longrightarrow> same_text t t' \<Longrightarrow> good_step t od (Leave (json__error t' a m) (Some 0))"
  by (simp add: good_step_def core_error safe_core)

lemma open_safe:
  assumes "safe t od ret" "od \<le> ret"
  shows "\<exists>r. get_open brace t ret i ns ne = Inr r \<and> good_step t od r"
proof -
  have push: "\<exists>r. bind_c (json__push t1 ret i) (\<lambda>(t2, ret', ok).
             if \<not> ok then Inr (Leave t2 (Some ret'))
             else Inr (Go (upd t2 ret' (\<lambda>r. r\<lparr>jtype := ty, jstate := s\<rparr>)) ret' i ns ne)) = Inr r
         \<and> good_step t od r"
    if sf: "safe t1 od ret" and same: "same_text t t1" for t1 ty s
  proof (cases "depth (obj t1 ret) \<ge> json__MAX_DEPTH")
    case True
    then show ?thesis using sf same by (simp add: push_full good_error)
  next
    case False
    then obtain t2 where t2: "json__push t1 ret i = Inr (t2, Suc ret, True)" "same_text t1 t2" "safe t2 od (Suc ret)"
      using push_safe [OF sf assms(2)] by force
    have "safe (upd t2 (Suc ret) (\<lambda>r. r\<lparr>jtype := ty, jstate := s\<rparr>)) od (Suc ret)"
      using t2(3) safe_indexes [OF t2(3)] core_stack
      by (auto simp: safe_def obj_upd keeps_def intro!: core_upd)
    then show ?thesis using t2 same assms(2) by (auto simp: same_text_def)
  qed
  show ?thesis
    using push assms
    by (auto simp: get_open_def Let_def fail_def good_error safe_set_state safe_prepare)
qed

lemma close_safe:
  assumes "safe t od ret" "od \<le> ret" "i < len t"
  shows "\<exists>r. get_close brace t od ret i ns ne = Inr r \<and> good_step t od r"
proof -
  have leave: ?thesis
    if "get_close brace t od ret i ns ne = Inr (Leave (json__error t i m) (Some 0))" for m
    using that assms by (auto intro: good_error)
  consider (bad) "jstate (obj t ret) \<notin> (if brace then {json__state_object_body, json__state_object_after_member, json__state_object_after_comma}
                else {json__state_array_body, json__state_array_after_member, json__state_array_after_comma})"
    | (root) "ret = 0" | (pop) "ret \<noteq> 0"
      "jstate (obj t ret) \<in> (if brace then {json__state_object_body, json__state_object_after_member, json__state_object_after_comma}
                else {json__state_array_body, json__state_array_after_member, json__state_array_after_comma})"
    by blast
  then show ?thesis
  proof cases
    case bad
    then show ?thesis using assms by (cases brace) (auto simp: get_close_def fail_def intro!: good_error)
  next
    case root
    then have "json__pop t ret i = (json__error t i ''unmatched }'', 0, False)"
      using safe_indexes [OF assms(1)] by (intro pop_root) simp
    then show ?thesis
      using assms by (auto simp: get_close_def fail_def Let_def intro!: good_error)
  next
    case pop
    then obtain t' where t': "json__pop t ret i = (t', ret - 1, True)" "same_text t t'" "safe t' od (ret - 1)"
      using pop_safe [OF assms(1,3)] assms(2) by blast
    moreover have "od \<le> Suc (ret - 1)" using assms(2) by simp
    ultimately show ?thesis
      using pop(2) by (auto simp: get_close_def Let_def safe_set_state)
  qed
qed

lemma comma_safe:
  "safe t od ret \<Longrightarrow> od \<le> ret \<Longrightarrow> \<exists>r. get_comma t ret i ns ne = Inr r \<and> good_step t od r"
  by (auto simp: get_comma_def Let_def fail_def safe_set_state good_error)

lemma colon_safe:
  "safe t od ret \<Longrightarrow> od \<le> ret \<Longrightarrow> \<exists>r. get_colon t ret i ns ne = Inr r \<and> good_step t od r"
  by (auto simp: get_colon_def Let_def fail_def safe_set_state good_error)

lemma byte_in: "core t n \<Longrightarrow> i \<le> len t \<Longrightarrow> byte t i = Inr (buf t ! i)"
  by (simp add: core_def wf_tree_def byte_def)

lemma byte_end: "core t n \<Longrightarrow> i \<le> len t \<Longrightarrow> buf t ! i \<noteq> CHR 0x00 \<Longrightarrow> Suc i \<le> len t"
  by (cases "i = len t") (auto simp: core_def wf_tree_def)

lemma string_end_safe:
  "core t n \<Longrightarrow> stop \<le> len t \<Longrightarrow> i \<le> len t \<Longrightarrow> \<exists>j \<le> len t. string_end t stop i = Inr j"
proof (induction "stop - i" arbitrary: i rule: less_induct)
  case less
  have again: "\<exists>j \<le> len t. string_end t stop i' = Inr j" if "i < stop" "i < i'" "i' \<le> len t" for i'
    using less.hyps [of i'] less.prems that by (simp add: diff_less_mono2)
  show ?case
  proof (cases "buf t ! i \<noteq> CHR 0x22 \<and> i < stop")
    case True
    have s: "Suc i \<le> len t" using True less.prems by simp
    show ?thesis
      using True s less.prems again [of "Suc i"] again [of "Suc (Suc i)"] byte_end [OF less.prems(1) s]
      by (subst string_end.simps) (auto simp: byte_in)
  next
    case False
    then show ?thesis using less.prems by (subst string_end.simps) (auto simp: byte_in)
  qed
qed

lemma quote_safe:
  assumes "safe t od ret" "od \<le> ret" "i < stop" "stop \<le> len t"
  shows "\<exists>r. get_quote t k stop ret i ns ne = Inr r \<and> good_step t od r"
proof -
  define t1 where "t1 = (if jstate (obj t ret) = json__state_object_after_colon
                then json__prepare_member t ret json__string ns ne else t)"
  have t1: "safe t1 od ret" "same_text t t1" using assms(1) by (simp_all add: t1_def safe_prepare)
  then have len: "len t1 = len t" by (simp add: same_text_def)
  obtain j where j: "j \<le> len t" "string_end t1 stop (i + 1) = Inr j"
    using string_end_safe [OF safe_core(1) [OF t1(1)], of stop "i + 1"] assms(3,4) len by auto
  obtain t2 where t2: "json__add_member t1 ret json__string (Suc i) j = Inr t2" "same_text t1 t2" "safe t2 od ret"
    using add_member_safe [OF t1(1) assms(2)] j(1) len by metis
  have "same_text t t2" using t2(2) t1(2) by (simp add: same_text_def)
  then show ?thesis
    using j t1 t2 assms(2)
    by (auto simp: get_quote_def Let_def t1_def [symmetric] fail_def safe_set_state good_error)
qed

lemma match_rest_safe:
  "core t n \<Longrightarrow> i \<le> len t \<Longrightarrow> \<forall>c \<in> set cs. c \<noteq> CHR 0x00 \<Longrightarrow>
   \<exists>ok. match_rest t i cs = Inr ok \<and> (ok \<longrightarrow> i + length cs \<le> len t)"
proof (induction cs arbitrary: i)
  case (Cons c cs)
  then show ?case
    using Cons.IH [of "Suc i"] byte_end [OF Cons.prems(1,2)] by (auto simp: byte_in)
qed auto

lemma keyword_safe:
  assumes "safe t od ret" "od \<le> ret" "i < len t" "\<forall>c \<in> set rest. c \<noteq> CHR 0x00"
  shows "\<exists>r. get_keyword ty rest t ret i ns ne = Inr r \<and> good_step t od r"
proof -
  define t1 where "t1 = (if jstate (obj t ret) = json__state_object_after_colon
                then json__prepare_member t ret ty ns ne else t)"
  have t1: "safe t1 od ret" "same_text t t1" using assms(1) by (simp_all add: t1_def safe_prepare)
  then have len: "len t1 = len t" by (simp add: same_text_def)
  obtain ok where ok: "match_rest t1 (Suc i) rest = Inr ok" "ok \<longrightarrow> Suc i + length rest \<le> len t"
    using match_rest_safe [OF safe_core(1) [OF t1(1)], of "Suc i" rest] assms(3,4) len by auto
  have add: "\<exists>t2. json__add_member t1 ret ty i (Suc i + length rest) = Inr t2 \<and> same_text t1 t2 \<and> safe t2 od ret" if ok
    using add_member_safe [OF t1(1) assms(2)] ok(2) that len by simp
  have tx: "same_text t t2" if "same_text t1 t2" for t2 using t1(2) that by (simp add: same_text_def)
  show ?thesis
    using ok(1) t1 add assms(2) tx
    by (auto simp: get_keyword_def Let_def t1_def [symmetric] fail_def safe_set_state good_error)
qed

lemma digits_end_safe:
  "core t n \<Longrightarrow> i \<le> len t \<Longrightarrow> \<exists>j \<le> len t. digits_end t i = Inr j"
proof (induction "len t - i" arbitrary: i rule: less_induct)
  case less
  show ?case
  proof (cases "isdigit (buf t ! i)")
    case True
    then have "buf t ! i \<noteq> CHR 0x00" by (auto simp: isdigit_def)
    then have "Suc i \<le> len t" using byte_end [OF less.prems] by simp
    then show ?thesis
      using True less.hyps [of "Suc i"] less.prems by (subst digits_end.simps) (auto simp: byte_in)
  next
    case False
    then show ?thesis using less.prems by (subst digits_end.simps) (auto simp: byte_in)
  qed
qed

lemma skip_char_safe:
  "core t n \<Longrightarrow> i \<le> len t \<Longrightarrow> CHR 0x00 \<notin> cs \<Longrightarrow> \<exists>j \<le> len t. skip_char t cs i = Inr j"
  using byte_end [of t n i] by (cases "buf t ! i = CHR 0x00") (auto simp: skip_char_def byte_in)

lemma bind_within:
  "\<exists>j \<le> n. r = Inr j \<Longrightarrow> (\<And>j. j \<le> n \<Longrightarrow> \<exists>k \<le> n. f j = Inr k) \<Longrightarrow> \<exists>k \<le> (n::nat). bind_c r f = Inr k"
  by auto

lemma number_end_safe:
  assumes "core t n" "i \<le> len t"
  shows "\<exists>j \<le> len t. number_end t i = Inr j"
  unfolding number_end_def
  by (intro bind_within skip_char_safe [OF assms(1)] digits_end_safe [OF assms(1)] assms(2)) auto

lemma number_safe:
  assumes "safe t od ret" "od \<le> ret" "i < len t"
  shows "\<exists>r. get_number t ret i ns ne = Inr r \<and> good_step t od r"
proof -
  define t1 where "t1 = (if jstate (obj t ret) = json__state_object_after_colon
                then json__prepare_member t ret json__number ns ne else t)"
  have t1: "safe t1 od ret" "same_text t t1" using assms(1) by (simp_all add: t1_def safe_prepare)
  then have len: "len t1 = len t" by (simp add: same_text_def)
  obtain j where j: "j \<le> len t1" "number_end t1 i = Inr j"
    using number_end_safe [OF safe_core(1) [OF t1(1)], of i] assms(3) len by auto
  obtain t2 where t2: "json__add_member t1 ret json__number i j = Inr t2" "same_text t1 t2" "safe t2 od ret"
    using add_member_safe [OF t1(1) assms(2) j(1)] by blast
  have "same_text t t2" using t2(2) t1(2) by (simp add: same_text_def)
  moreover have "byte t1 (j - 1) = Inr (buf t1 ! (j - 1))"
    using byte_in [OF safe_core(1) [OF t1(1)], of "j - 1"] j(1) by simp
  ultimately show ?thesis
    using j t1 t2 assms(2)
    by (auto simp: get_number_def Let_def t1_def [symmetric] fail_def safe_set_state good_error)
qed

lemma get_char_safe:
  assumes "safe t od ret" "od \<le> ret" "i < stop" "stop \<le> len t"
  shows "\<exists>r. get_char t k od stop ret i ns ne = Inr r \<and> good_step t od r"
proof -
  have i: "i < len t" using assms(3,4) by simp
  have byte: "byte t i = Inr (buf t ! i)" using byte_in [OF safe_core(1) [OF assms(1)]] i by simp
  show ?thesis
    unfolding get_char_def byte bind_c_Inr
    using open_safe [OF assms(1,2)] close_safe [OF assms(1,2) i] comma_safe [OF assms(1,2)]
      colon_safe [OF assms(1,2)] quote_safe [OF assms] keyword_safe [OF assms(1,2) i]
      number_safe [OF assms(1,2) i] assms
    by (simp add: fail_def good_error)
qed

definition good_found :: "tree \<Rightarrow> nat \<Rightarrow> tree \<Rightarrow> nat option \<Rightarrow> bool" where
  "good_found t od t' found \<longleftrightarrow> same_text t t' \<and> core t' od \<and>
     (case found of None \<Rightarrow> True | Some m \<Rightarrow> m = 0 \<or> m = Suc od \<and> core t' (Suc od))"

lemma scan_safe:
  "safe t od ret \<Longrightarrow> od \<le> ret \<Longrightarrow> stop \<le> len t \<Longrightarrow>
   \<exists>t' found. json__scan t k od stop ret i ns ne = Inr (t', found) \<and> good_found t od t' found"
proof (induction "stop - i" arbitrary: t ret i ns ne rule: less_induct)
  case less
  note ix = safe_indexes [OF less.prems(1)]
  show ?case
  proof (cases "i < stop")
    case True
    obtain r where r: "get_char t k od stop ret i ns ne = Inr r" "good_step t od r"
      using get_char_safe [OF less.prems(1,2) True less.prems(3)] by blast
    show ?thesis
    proof (cases r)
      case (Leave t' found)
      then show ?thesis
        using r True by (subst json__scan.simps) (auto simp: good_step_def good_found_def)
    next
      case (Go t' ret' i' ns' ne')
      have sf: "same_text t t'" "safe t' od ret'" "od \<le> Suc ret'" using r(2) Go by simp_all
      have "i \<le> i'" using get_char_moves r(1) Go by simp
      then have again: "\<exists>t'' found. json__scan t' k od stop ret' (Suc i') ns' ne' = Inr (t'', found) \<and> good_found t' od t'' found"
        if "od \<le> ret'"
        using less.hyps [of "Suc i'" t' ret' ns' ne'] that sf less.prems(3) True
        by (simp add: same_text_def diff_less_mono2)
      have trans: "good_found t' od t'' found \<Longrightarrow> good_found t od t'' found" for t'' found
        using sf(1) by (simp add: good_found_def same_text_def)
      have one: "core t' (Suc ret')" if "jcount (obj t' ret') = 1" using sf(2) that by (simp add: safe_def)
      show ?thesis
        using r(1) Go True sf again trans one safe_indexes [OF sf(2)] safe_core [OF sf(2)]
        by (subst json__scan.simps) (auto simp: good_found_def not_less)
    qed
  next
    case False
    then show ?thesis
      using less.prems ix safe_core [OF less.prems(1)]
      by (subst json__scan.simps) (auto simp: good_found_def safe_def)
  qed
qed

lemma get_safe:
  assumes "core t k"
  shows "\<exists>t' found. json__get t k child = Inr (t', found) \<and> good_found t k t' found"
proof (cases "depth (obj t k) \<ge> json__MAX_DEPTH")
  case True
  then show ?thesis
    using assms by (auto simp: json__get_def good_found_def core_error)
next
  case False
  have k: "depth (obj t k) = k" "value_end (obj t k) \<le> len t" "k < json__MAX_DEPTH"
    using core_linked [OF assms, of k] False by auto
  let ?t = "upd t k (\<lambda>r. r\<lparr>jcount := 0\<rparr>)"
  have "k < 22" using k(3) by (simp add: json__MAX_DEPTH_def)
  then have "core ?t k" "jcount (obj ?t k) = 0"
    using assms core_stack [OF assms] by (auto simp: keeps_def obj_upd intro!: core_upd)
  then have "safe ?t k k" using k(3) by (simp add: safe_def)
  then have "\<exists>t' found. json__scan ?t k k (value_end (obj t k)) k (get_start t k child) 0 0 = Inr (t', found)
      \<and> good_found ?t k t' found"
    using k by (intro scan_safe) auto
  then show ?thesis using False k by (auto simp: json__get_def good_found_def same_text_def)
qed

lemma core_upd_top: "core u k \<Longrightarrow> keeps f \<Longrightarrow> \<forall>r. jtype (f r) = jtype r \<Longrightarrow> core (upd u k f) k"
  if "k < 22"
  using that by (intro core_upd) auto

lemma get_next_safe:
  assumes "core t k"
  shows "\<exists>t' found. json__get_next t k child = Inr (t', found) \<and> good_found t k t' found"
proof -
  have k: "k < 22" using assms by (simp add: core_def json__MAX_DEPTH_def)
  define t1 where "t1 = (if child \<noteq> None then t
                else if jtype (obj t k) = json__object_array then upd t k (set_state json__state_array_body)
                else if jtype (obj t k) = json__object then upd t k (set_state json__state_object_body)
                else upd t k (set_state json__state_init))"
  let ?t = "upd t1 k (\<lambda>r. r\<lparr>jcount := 0\<rparr>)"
  have "core t1 k" "same_text t t1"
    using assms by (auto simp: t1_def keeps_def set_state_def intro!: core_upd_top [OF k])
  then have t2: "core ?t k" "same_text t ?t" by (auto simp: keeps_def intro!: core_upd_top [OF k])
  have "json__get_next t k child = json__get ?t k child"
    by (simp only: json__get_next_def t1_def Let_def)
  then show ?thesis
    using get_safe [OF t2(1), of child] t2(2) by (simp only:) (auto simp: good_found_def same_text_def)
qed

lemma good_found_child: "good_found t k t' (Some c) \<Longrightarrow> core t' c \<and> (c = 0 \<or> c = Suc k)"
  by (auto simp: good_found_def intro: core_mono)

lemma parse_safe:
  assumes "length garbage = 22"
  shows "\<exists>t found. json__parse (content @ [CHR 0x00]) (length content) garbage = Inr (t, found)
    \<and> core t 0 \<and> (\<forall>c. found = Some c \<longrightarrow> core t c)"
proof -
  define t where "t = upd \<lparr>buf = content @ [CHR 0x00], len = length content, stack = garbage, errors = []\<rparr> 0
     (\<lambda>r. r\<lparr>value_end := length content, value_start := 0, depth := 0, jtype := json__undefined,
          jstate := json__state_init, name_start := 0, name_end := 0, child_type := json__undefined, jcount := 0\<rparr>)"
  have "core t 0"
    using assms by (auto simp: t_def core_def wf_tree_def linked_def obj_upd)
  then obtain t' found where t': "json__get t 0 None = Inr (t', found)" "good_found t 0 t' found"
    using get_safe by blast
  moreover have "core t' 0" using t'(2) by (simp add: good_found_def)
  moreover have "json__parse (content @ [CHR 0x00]) (length content) garbage = json__get t 0 None"
    by (simp only: json__parse_def Let_def t_def)
  ultimately show ?thesis using good_found_child [of t 0 t'] by auto
qed

text \<open>A callback is safe when it runs into no undefined behaviour on a tree whose objects are linked.\<close>

definition safe_callback :: "'x callback \<Rightarrow> bool" where
  "safe_callback cb \<longleftrightarrow> (\<forall>t k x e. core t k \<longrightarrow> cb t k x \<noteq> Inl e)"

definition good_visit :: "nat \<Rightarrow> (tree \<times> 'x \<times> int) run c \<Rightarrow> bool" where
  "good_visit k r \<longleftrightarrow> (case r of Inl e \<Rightarrow> False | Inr (Returns (t', x', n)) \<Rightarrow> core t' k | Inr _ \<Rightarrow> True)"

lemma good_visit_simps [simp]:
  "good_visit k (Inr (Returns (t', x', n))) \<longleftrightarrow> core t' k" "good_visit k (Inr Exits)" "good_visit k (Inr Runs_on)"
  by (simp_all add: good_visit_def)

lemma good_visit_cases:
  assumes "good_visit k r"
  obtains "r = Inr Exits" | "r = Inr Runs_on" | t' x' n where "r = Inr (Returns (t', x', n))" "core t' k"
  using assms by (auto simp: good_visit_def split: sum.splits run.splits)

lemma callback_safe:
  assumes "safe_callback cb" "core t k"
  shows "good_visit k (bind_r (cb t k x) (\<lambda>(x', r). Inr (Returns (t, x', r))))"
proof (cases "cb t k x")
  case (Inr r)
  then show ?thesis using assms by (cases r) auto
qed (use assms in \<open>auto simp: safe_callback_def\<close>)

lemma good_visit_bind:
  assumes "good_visit c r" "\<And>t' x' n. r = Inr (Returns (t', x', n)) \<Longrightarrow> core t' c \<Longrightarrow> good_visit k (f (t', x', n))"
  shows "good_visit k (bind_r r f)"
  using assms(1) by (rule good_visit_cases) (auto intro: assms(2))

lemma visitor_root:
  "jtype (obj t 0) = json__undefined \<Longrightarrow> json__visitor n cb t 0 x = Inr (Returns (t1, x1, r)) \<Longrightarrow> t1 = t"
  by (cases n; cases "cb t 0 x" rule: sum.exhaust)
    (auto simp: bind_r_def split: run.splits)

lemma visitor_safe:
  assumes "safe_callback cb"
  shows "(\<forall>t k x. core t k \<longrightarrow> good_visit k (json__visitor n cb t k x)) \<and>
    (\<forall>t k x child. core t k \<longrightarrow> (\<forall>c. child = Some c \<longrightarrow> core t c \<and> (c = 0 \<or> c = Suc k)) \<longrightarrow>
       good_visit k (visit_members n cb t k child x))"
proof (induction n)
  case (Suc n)
  note visit = Suc.IH [THEN conjunct1, rule_format] and members = Suc.IH [THEN conjunct2, rule_format]
  have more: "good_visit k (bind_r (returns (json__get_next t k child)) (\<lambda>(t1, found). visit_members n cb t1 k found x))"
    if tk: "core t k" for t k child x
  proof -
    obtain t' found where t': "json__get_next t k child = Inr (t', found)" "good_found t k t' found"
      using get_next_safe [OF tk] by blast
    have "core t' k" using t'(2) by (simp add: good_found_def)
    moreover have "\<forall>c. found = Some c \<longrightarrow> core t' c \<and> (c = 0 \<or> c = Suc k)"
      using t'(2) good_found_child by blast
    ultimately show ?thesis using t'(1) members by simp
  qed
  have "good_visit k (json__visitor (Suc n) cb t k x)" if "core t k" for t k x
    using callback_safe [OF assms that] more [OF that] by simp
  moreover have "good_visit k (visit_members (Suc n) cb t k child x)"
    if t: "core t k" and child: "\<forall>c. child = Some c \<longrightarrow> core t c \<and> (c = 0 \<or> c = Suc k)" for t k child x
  proof (cases child)
    case None
    then show ?thesis using callback_safe [OF assms t] by simp
  next
    case (Some c)
    then have c: "core t c" "c = 0 \<or> c = Suc k" using child by auto
    have kept: "core t1 k" if "json__visitor n cb t c x = Inr (Returns (t1, x1, r))" "core t1 c" for t1 x1 r
      using c(2)
    proof
      assume "c = 0"
      moreover have "jtype (obj t 0) = json__undefined" using t by (simp add: core_def wf_tree_def)
      ultimately have "t1 = t" using that(1) visitor_root [of t n cb x t1 x1 r] by simp
      then show ?thesis using t by simp
    next
      assume "c = Suc k"
      then show ?thesis using that(2) core_mono [of t1 c k] by simp
    qed
    show ?thesis
      unfolding visit_members.simps Some option.case
    proof (rule good_visit_bind [OF visit [OF c(1)]], clarify)
      fix t1 x1 r
      assume "json__visitor n cb t c x = Inr (Returns (t1, x1, r))" "core t1 c"
      then have "core t1 k" by (rule kept)
      then show "good_visit k (if r \<noteq> 0 then Inr (Returns (t1, x1, r))
          else bind_r (returns (json__get_next t1 k (Some c))) (\<lambda>(t2, child'). visit_members n cb t2 k child' x1))"
        using more by simp
    qed
  qed
  ultimately show ?case by blast
qed simp

section \<open>The deepest level\<close>

definition stuck :: "tree \<Rightarrow> nat \<Rightarrow> bool" where
  "stuck t k \<longleftrightarrow> depth (obj t k) \<ge> json__MAX_DEPTH \<and> jtype (obj t k) \<in> {json__object, json__object_array} \<and>
     k < length (stack t) \<and> jtype (obj t 0) = json__undefined"

lemma stuck_upd:
  "stuck t k \<Longrightarrow> \<forall>r. depth (f r) = depth r \<and> jtype (f r) = jtype r \<Longrightarrow> stuck (upd t k f) k"
  by (auto simp: stuck_def obj_upd)

lemma stuck_get_next:
  assumes "stuck t k"
  shows "\<exists>t'. json__get_next t k child = Inr (t', Some 0) \<and> stuck t' k"
proof -
  have get: "\<exists>t'. json__get u k child = Inr (t', Some 0) \<and> stuck t' k" if "stuck u k" for u
    using that by (simp add: json__get_def stuck_def) (simp add: json__error_def)
  show ?thesis
    unfolding json__get_next_def Let_def
    using assms by (intro get stuck_upd) (auto simp: set_state_def intro!: stuck_upd)
qed

lemma stuck_visitor:
  assumes "\<forall>t x. \<exists>x'. cb t 0 x = Inr (Returns (x', 0))"
  shows "(\<forall>t x. stuck t k \<longrightarrow> json__visitor n cb t k x = Inr Runs_on) \<and>
    (\<forall>t x. stuck t k \<longrightarrow> visit_members n cb t k (Some 0) x = Inr Runs_on)"
proof (induction n)
  case (Suc n)
  have more: "bind_r (returns (json__get_next t k child)) (\<lambda>(t1, found). visit_members n cb t1 k found x) = Inr Runs_on"
    if "stuck t k" for t child x
    using stuck_get_next [OF that, of child] Suc.IH by auto
  have "json__visitor (Suc n) cb t k x = Inr Runs_on" if "stuck t k" for t x
    using more [OF that] that by (auto simp: stuck_def)
  moreover have "visit_members (Suc n) cb t k (Some 0) x = Inr Runs_on" if "stuck t k" for t x
  proof (cases n)
    case (Suc m)
    obtain x' where "cb t 0 x = Inr (Returns (x', 0))" using assms by blast
    moreover have "jtype (obj t 0) = json__undefined" using that by (simp add: stuck_def)
    ultimately have "json__visitor n cb t 0 x = Inr (Returns (t, x', 0))" using Suc by simp
    then show ?thesis using more [OF that] by simp
  qed simp
  ultimately show ?case by blast
qed simp

lemma add_member_length: "json__add_member t k ty s e = Inr t' \<Longrightarrow> length (stack t') = length (stack t)"
  by (auto simp: json__add_member_def Let_def json__error_def split: if_splits)

lemma number_state:
  assumes "get_number t ret i ns ne = Inr (Go t' ret' i' ns' ne')" "ret < length (stack t)"
  shows "ret' = ret \<and> jstate (obj t' ret) = json__state_object_after_member"
  using assms
  by (auto simp: get_number_def fail_def Let_def bind_c_eq_Inr obj_upd set_state_def dest!: add_member_length split: if_splits)

section \<open>Properties\<close>

text \<open>
  C7. Whatever the text of the file is and whatever the stack of the reader held before, parsing it
  and walking through it never accesses anything outside the text and the zero after it or outside
  the stack of 22 objects, as long as the callback does not.
\<close>

theorem json_reader_stays_in_bounds:
  assumes "length garbage = 22" "safe_callback cb"
  shows "\<exists>t found. json__parse (content @ [CHR 0x00]) (length content) garbage = Inr (t, found) \<and>
    (case found of None \<Rightarrow> True | Some k \<Rightarrow> \<exists>r. json__visitor n cb t k x = Inr r)"
proof -
  obtain t found where t: "json__parse (content @ [CHR 0x00]) (length content) garbage = Inr (t, found)"
      "\<forall>c. found = Some c \<longrightarrow> core t c"
    using parse_safe [OF assms(1)] by blast
  have "\<exists>r. json__visitor n cb t k x = Inr r" if "core t k" for k
    using visitor_safe [OF assms(2), THEN conjunct1, rule_format, OF that, of n x] by (auto elim: good_visit_cases)
  then show ?thesis using t by (auto split: option.splits)
qed

lemma json_reader_stays_in_bounds_witness:
  "\<exists>t found. json__parse (''{'' @ [CHR 0x00]) (length ''{'') (replicate 22 (zero_obj\<lparr>depth := 77\<rparr>)) = Inr (t, found) \<and>
     (case found of None \<Rightarrow> True
      | Some k \<Rightarrow> \<exists>r. json__visitor 9 (\<lambda>t k (x::nat). Inr (Returns (Suc x, 0))) t k 0 = Inr r)"
  by (rule json_reader_stays_in_bounds) (simp_all add: safe_callback_def)



text \<open>
  A number in an array leaves the reader in the state that follows a member of an object, so the
  bracket that ends the array is refused and the whole document with it.
\<close>

theorem number_in_array_refused:
  assumes "get_number t ret i ns ne = Inr (Go t' ret' i' ns' ne')" "ret < length (stack t)"
  shows "get_close False t' od ret' j ns' ne' = fail t' j ''unexpeced ]''"
  using number_state [OF assms] by (simp add: get_close_def)

lemma number_in_array_refused_witness:
  "let root = zero_obj\<lparr>jstate := json__state_array_body, jtype := json__object_array\<rparr>;
       t = \<lparr>buf = ''17]'' @ [CHR 0x00], len = 3, stack = [root, root], errors = []\<rparr>;
       t' = t\<lparr>stack := [root\<lparr>jstate := json__state_object_after_member, jcount := 1\<rparr>,
                        root\<lparr>depth := 1, jtype := json__number, value_end := 2\<rparr>]\<rparr>
   in get_number t 0 0 0 0 = Inr (Go t' 0 1 0 0) \<and>
      get_close False t' 0 0 2 0 0 = fail t' 2 ''unexpeced ]''"
proof -
  let ?root = "zero_obj\<lparr>jstate := json__state_array_body, jtype := json__object_array\<rparr>"
  let ?t = "\<lparr>buf = ''17]'' @ [CHR 0x00], len = 3, stack = [?root, ?root], errors = []\<rparr>"
  let ?t' = "?t\<lparr>stack := [?root\<lparr>jstate := json__state_object_after_member, jcount := 1\<rparr>,
                        ?root\<lparr>depth := 1, jtype := json__number, value_end := 2\<rparr>]\<rparr>"
  have run: "get_number ?t 0 0 0 0 = Inr (Go ?t' 0 1 0 0)"
    by (simp add: get_number_def number_end_def skip_char_def byte_def isdigit_def digits_end.simps
        json__add_member_def upd_def set_state_def Let_def nth_Cons' zero_obj_def)
  show ?thesis
    unfolding Let_def using run number_in_array_refused [OF run, of 0 2] by simp
qed

end
