(* ===== verification/TaskOrder.thy ===== *)
theory TaskOrder
  imports Prelude
begin

text \<open>
  The interface between the recursion over dependencies and the execution of one task: a run appends
  the task to a log unless the log has it, and the recursion runs a task after the loop over its
  successors. Everything that follows from these laws alone is proved here.
\<close>

section \<open>The interface\<close>

definition in_order :: "(nat \<Rightarrow> nat list) \<Rightarrow> nat list \<Rightarrow> bool" where
  "in_order succs ks \<longleftrightarrow> distinct ks \<and> (\<forall>i < length ks. set (succs (ks ! i)) \<subseteq> set (take i ks))"

lemma in_order_Nil [simp]: "in_order succs []"
  by (simp add: in_order_def)

lemma in_order_snoc:
  "in_order succs ks \<Longrightarrow> k \<notin> set ks \<Longrightarrow> set (succs k) \<subseteq> set ks \<Longrightarrow> in_order succs (ks @ [k])"
  by (auto simp: in_order_def nth_append less_Suc_eq)

locale task_order =
  fixes size :: nat
    and succs :: "nat \<Rightarrow> nat list"
    and ok :: "'s \<Rightarrow> bool"
    and log :: "'s \<Rightarrow> 'e list"
    and who :: "'e \<Rightarrow> nat"
    and bad :: "'e \<Rightarrow> bool"
    and run :: "nat \<Rightarrow> 's \<Rightarrow> int \<times> 's"
    and recur :: "nat \<Rightarrow> nat \<Rightarrow> nat list \<Rightarrow> 's \<Rightarrow> (int \<times> 's) option"
    and loop :: "nat \<Rightarrow> nat list \<Rightarrow> nat list \<Rightarrow> 's \<Rightarrow> (int \<times> 's) option"
  assumes succs_size: "k < size \<Longrightarrow> set (succs k) \<subseteq> {..<size}"
    and run_logged: "ok s \<Longrightarrow> k < size \<Longrightarrow> k \<in> who ` set (log s) \<Longrightarrow> run k s = (0, s)"
    and run_new: "ok s \<Longrightarrow> k < size \<Longrightarrow> k \<notin> who ` set (log s) \<Longrightarrow>
      ok (snd (run k s)) \<and> (\<exists>e. log (snd (run k s)) = log s @ [e] \<and> who e = k \<and> (fst (run k s) = 0 \<longleftrightarrow> \<not> bad e))"
    and recur_0: "recur 0 k p s = None"
    and recur_Suc: "ok s \<Longrightarrow> k < size \<Longrightarrow> recur (Suc n) k p s =
      (if p \<noteq> [] \<and> hd p = k then Some (1, s)
       else case loop n (succs k) (k # p) s of None \<Rightarrow> None
         | Some (r, s1) \<Rightarrow> if r \<noteq> 0 then Some (r, s1) else Some (run k s1))"
    and loop_Nil: "loop n [] p s = Some (0, s)"
    and loop_Cons: "loop n (c # cs) p s = (case recur n c p s of None \<Rightarrow> None
         | Some (r, s1) \<Rightarrow> if r \<noteq> 0 then Some (r, s1) else loop n cs p s1)"
begin

abbreviation started :: "'s \<Rightarrow> nat list" where
  "started s \<equiv> map who (log s)"

text \<open>What holds of the log after a call that began with the log of \<open>s\<close>.\<close>

definition closed :: "nat set \<Rightarrow> bool" where
  "closed K \<longleftrightarrow> K \<subseteq> {..<size} \<and> (\<forall>k \<in> K. set (succs k) \<subseteq> K)"

definition good :: "nat set \<Rightarrow> 's \<Rightarrow> int \<times> 's \<Rightarrow> bool" where
  "good K s res \<longleftrightarrow> (case res of (r, s') \<Rightarrow>
     ok s' \<and> set (started s') \<subseteq> set (started s) \<union> K \<and> (\<exists>es. log s' = log s @ es) \<and> (in_order succs (started s) \<longrightarrow> in_order succs (started s')) \<and>
     (filter bad (log s) = [] \<longrightarrow> filter bad (butlast (log s')) = [] \<and> (r = 0 \<longrightarrow> filter bad (log s') = [])))"

lemma good_trans:
  assumes "good K s (0, s1)" "good K s1 res"
  shows "good K s res"
proof -
  obtain r s2 where res: "res = (r, s2)" by (cases res)
  have "set (started s2) \<subseteq> set (started s) \<union> K"
    using assms unfolding res good_def prod.case by (meson Un_least Un_upper2 subset_trans)
  moreover have "\<exists>es. log s2 = log s @ es"
    using assms unfolding res good_def prod.case by (metis append.assoc)
  ultimately show ?thesis
    using assms unfolding res good_def prod.case by simp
qed

lemma good_refl: "ok s \<Longrightarrow> good K s (r, s)"
  by (auto simp: good_def) (metis append_butlast_last_id butlast.simps(1) filter_append append_is_Nil_conv)

lemma run_good:
  assumes "ok s" "k < size" "k \<in> K" "set (succs k) \<subseteq> set (started s)"
  shows "good K s (run k s) \<and> k \<in> set (started (snd (run k s)))"
proof (cases "k \<in> set (started s)")
  case True
  then show ?thesis using run_logged [OF assms(1,2)] good_refl [OF assms(1)] by simp
next
  case False
  then obtain e where "ok (snd (run k s))" "log (snd (run k s)) = log s @ [e]" "who e = k"
      "fst (run k s) = 0 \<longleftrightarrow> \<not> bad e"
    using run_new [OF assms(1,2)] by auto
  then show ?thesis
    using in_order_snoc [of succs "started s" k] False assms(3,4) by (auto simp: good_def split: prod.splits)
qed

theorem recur_good:
  assumes K: "closed K"
  shows "(\<forall>k p s res. recur n k p s = Some res \<longrightarrow> ok s \<longrightarrow> k \<in> K \<longrightarrow>
      good K s res \<and> (fst res = 0 \<longrightarrow> k \<in> set (started (snd res)))) \<and>
   (\<forall>cs p s res. loop n cs p s = Some res \<longrightarrow> ok s \<longrightarrow> set cs \<subseteq> K \<longrightarrow>
      good K s res \<and> (fst res = 0 \<longrightarrow> set cs \<subseteq> set (started (snd res))))"
  (is "?R n \<and> ?L n")
proof -
  have L: "?L n" if R: "?R n" for n
  proof (intro allI)
    fix cs p s res
    show "loop n cs p s = Some res \<longrightarrow> ok s \<longrightarrow> set cs \<subseteq> K \<longrightarrow>
      good K s res \<and> (fst res = 0 \<longrightarrow> set cs \<subseteq> set (started (snd res)))"
    proof (induction cs arbitrary: s)
      case Nil
      then show ?case using good_refl by (auto simp: loop_Nil)
    next
      case (Cons c cs)
      show ?case
      proof (intro impI)
        assume run: "loop n (c # cs) p s = Some res" and s: "ok s" and cs: "set (c # cs) \<subseteq> K"
        then obtain r s1 where first: "recur n c p s = Some (r, s1)"
          by (auto simp: loop_Cons split: option.splits)
        then have g1: "good K s (r, s1)" "r = 0 \<longrightarrow> c \<in> set (started s1)" using R s cs by force+
        show "good K s res \<and> (fst res = 0 \<longrightarrow> set (c # cs) \<subseteq> set (started (snd res)))"
        proof (cases "r = 0")
          case True
          then have rest: "loop n cs p s1 = Some res" using run first by (simp add: loop_Cons)
          have "ok s1" using g1(1) by (simp add: good_def)
          then have g2: "good K s1 res" "fst res = 0 \<longrightarrow> set cs \<subseteq> set (started (snd res))"
            using Cons.IH rest cs by auto
          have "set (started s1) \<subseteq> set (started (snd res))"
            using g2(1) by (auto simp: good_def split: prod.splits)
          then show ?thesis using g1 g2 True good_trans by auto
        next
          case False
          then have "res = (r, s1)" using run first by (simp add: loop_Cons)
          then show ?thesis using g1 False by simp
        qed
      qed
    qed
  qed
  have "?R n"
  proof (induction n)
    case (Suc n)
    show ?case
    proof (intro allI impI)
      fix k p s res
      assume run: "recur (Suc n) k p s = Some res" and s: "ok s" and k: "k \<in> K"
      have size: "k < size" "set (succs k) \<subseteq> K" using k K by (auto simp: closed_def)
      show "good K s res \<and> (fst res = 0 \<longrightarrow> k \<in> set (started (snd res)))"
      proof (cases "p \<noteq> [] \<and> hd p = k")
        case True
        then show ?thesis using run s good_refl by (auto simp: recur_Suc [OF s size(1)])
      next
        case False
        then obtain r s1 where loop: "loop n (succs k) (k # p) s = Some (r, s1)"
            "res = (if r \<noteq> 0 then (r, s1) else run k s1)"
          using run recur_Suc [OF s size(1), of n p] by (auto split: option.splits if_splits)
        then have g1: "good K s (r, s1)" "r = 0 \<longrightarrow> set (succs k) \<subseteq> set (started s1)"
          using L [OF Suc.IH] s size by force+
        have "ok s1" using g1(1) by (simp add: good_def)
        then have "good K s (run k s1) \<and> k \<in> set (started (snd (run k s1)))" if "r = 0"
          using g1 that run_good [OF _ size(1) k, of s1] good_trans by blast
        then show ?thesis using g1(1) loop(2) by auto
      qed
    qed
  qed (simp add: recur_0)
  then show ?thesis using L by blast
qed

section \<open>Reachable tasks\<close>

definition depends_rel :: "(nat \<times> nat) set" where
  "depends_rel = {(k, c). k < size \<and> c \<in> set (succs k)}"

lemma closed_reachable: "k < size \<Longrightarrow> closed (depends_rel\<^sup>* `` {k})"
proof -
  assume k: "k < size"
  have "c < size" if "(k, c) \<in> depends_rel\<^sup>*" for c
    using that
  proof (induction rule: rtrancl_induct)
    case (step b c)
    then show ?case using succs_size [of b] by (auto simp: depends_rel_def)
  qed (rule k)
  moreover have "(k, d) \<in> depends_rel\<^sup>*" if "(k, c) \<in> depends_rel\<^sup>*" "d \<in> set (succs c)" "c < size" for c d
    using that(1) by (rule rtrancl_into_rtrancl) (use that in \<open>simp add: depends_rel_def\<close>)
  ultimately show ?thesis by (auto simp: closed_def)
qed

lemma in_order_closed:
  assumes "in_order succs ks" "(k, c) \<in> depends_rel\<^sup>*" "k \<in> set ks"
  shows "c \<in> set ks"
  using assms(2,3,1)
proof (induction rule: rtrancl_induct)
  case (step b c)
  then have "b \<in> set ks" "c \<in> set (succs b)" by (auto simp: depends_rel_def)
  then obtain i where "i < length ks" "ks ! i = b" by (auto simp: in_set_conv_nth)
  then show ?case
    using \<open>c \<in> set (succs b)\<close> assms(1) set_take_subset [of i ks] by (auto simp: in_order_def)
qed

theorem recur_starts_reachable:
  assumes "recur n k p s = Some (0, s')" "ok s" "k < size" "log s = []"
  shows "set (started s') = depends_rel\<^sup>* `` {k}" "in_order succs (started s')" "filter bad (log s') = []"
proof -
  have res: "good (depends_rel\<^sup>* `` {k}) s (0, s') \<and> k \<in> set (started s')"
    using recur_good [OF closed_reachable [OF assms(3)], THEN conjunct1, rule_format, OF assms(1,2)] by simp
  then show order: "in_order succs (started s')" "filter bad (log s') = []"
    using assms(4) by (auto simp: good_def)
  then show "set (started s') = depends_rel\<^sup>* `` {k}"
    using res assms(4) in_order_closed [OF order(1)] by (auto simp: good_def)
qed

section \<open>Without a cycle the recursion ends\<close>

definition clean :: "int \<times> 's \<Rightarrow> bool" where
  "clean res \<longleftrightarrow> fst res = 0 \<or> filter bad (log (snd res)) \<noteq> []"

lemma run_clean: "ok s \<Longrightarrow> k < size \<Longrightarrow> clean (run k s)"
  using run_logged [of s k] run_new [of s k] by (cases "k \<in> who ` set (log s)") (auto simp: clean_def)

theorem recur_terminates:
  assumes h: "\<forall>k < size. \<forall>c \<in> set (succs k). h c < (h k :: nat)"
  shows "(\<forall>k p s. ok s \<longrightarrow> k < size \<longrightarrow> h k < n \<longrightarrow> (p = [] \<or> h k < h (hd p)) \<longrightarrow>
      (\<exists>res. recur n k p s = Some res \<and> clean res)) \<and>
   (\<forall>cs p s. ok s \<longrightarrow> p \<noteq> [] \<longrightarrow> (\<forall>c \<in> set cs. c < size \<and> h c < n \<and> h c < h (hd p)) \<longrightarrow>
      (\<exists>res. loop n cs p s = Some res \<and> clean res))"
  (is "?R n \<and> ?L n")
proof -
  have all: "closed {..<size}" using succs_size by (auto simp: closed_def)
  have ok_after: "ok s'" if "recur n c p s = Some (r, s')" "ok s" "c < size" for n c p s r s'
    using recur_good [OF all, THEN conjunct1, rule_format, OF that(1,2)] that(3) by (simp add: good_def)
  have ok_after_loop: "ok s'" if "loop n cs p s = Some (r, s')" "ok s" "set cs \<subseteq> {..<size}" for n cs p s r s'
    using recur_good [OF all, THEN conjunct2, rule_format, OF that(1,2)] that(3) by (simp add: good_def)
  have L: "?L n" if R: "?R n" for n
  proof (intro allI)
    fix cs p s
    show "ok s \<longrightarrow> p \<noteq> [] \<longrightarrow> (\<forall>c \<in> set cs. c < size \<and> h c < n \<and> h c < h (hd p)) \<longrightarrow>
      (\<exists>res. loop n cs p s = Some res \<and> clean res)"
    proof (induction cs arbitrary: s)
      case (Cons c cs)
      show ?case
      proof (intro impI)
        assume s: "ok s" and p: "p \<noteq> []" and cs: "\<forall>c \<in> set (c # cs). c < size \<and> h c < n \<and> h c < h (hd p)"
        have "\<exists>res. recur n c p s = Some res \<and> clean res"
          using R s p cs by (intro R [rule_format]) auto
        then obtain r s1 where first: "recur n c p s = Some (r, s1)" "clean (r, s1)"
          by (metis surj_pair)
        have "ok s1" using ok_after [OF first(1) s] cs by simp
        then have rest: "\<exists>res. loop n cs p s1 = Some res \<and> clean res"
          using Cons.IH p cs by simp
        show "\<exists>res. loop n (c # cs) p s = Some res \<and> clean res"
          using rest first by (cases "r = 0") (simp_all add: loop_Cons)
      qed
    qed (auto simp: loop_Nil clean_def)
  qed
  have "?R n"
  proof (induction n)
    case (Suc n)
    show ?case
    proof (intro allI impI)
      fix k p s
      assume s: "ok s" and k: "k < size" and n: "h k < Suc n" and p: "p = [] \<or> h k < h (hd p)"
      have cs: "\<forall>c \<in> set (succs k). c < size \<and> h c < n \<and> h c < h k"
        using h k n succs_size [OF k] by force
      then have "\<exists>res. loop n (succs k) (k # p) s = Some res \<and> clean res"
        by (intro L [OF Suc.IH, rule_format]) (auto simp: s)
      then obtain r s1 where loop: "loop n (succs k) (k # p) s = Some (r, s1)" "clean (r, s1)"
        by (metis surj_pair)
      then have "ok s1" using ok_after_loop [OF loop(1) s] cs by auto
      then show "\<exists>res. recur (Suc n) k p s = Some res \<and> clean res"
        using loop p run_clean [OF _ k, of s1] by (cases "run k s1") (auto simp: recur_Suc [OF s k])
    qed
  qed simp
  then show ?thesis using L by blast
qed

theorem recur_acyclic:
  assumes "acyclic depends_rel" "ok s" "k < size" "size < n"
  shows "\<exists>r s'. recur n k [] s = Some (r, s') \<and> (r = 0 \<or> filter bad (log s') \<noteq> [])"
proof -
  define h where "h k = card {c. (k, c) \<in> depends_rel\<^sup>+}" for k
  have sub: "{c. (k, c) \<in> depends_rel\<^sup>+} \<subseteq> {..<size}" for k
  proof
    fix c assume "c \<in> {c. (k, c) \<in> depends_rel\<^sup>+}"
    then obtain b where "(b, c) \<in> depends_rel" by (auto elim: tranclE)
    then show "c \<in> {..<size}" using succs_size by (auto simp: depends_rel_def)
  qed
  have "h c < h k" if "(k, c) \<in> depends_rel" for k c
  proof -
    have "{d. (c, d) \<in> depends_rel\<^sup>+} \<subset> {d. (k, d) \<in> depends_rel\<^sup>+}"
      using that assms(1) by (auto simp: acyclic_def intro: trancl_into_trancl2)
    then show ?thesis
      unfolding h_def using finite_subset [OF sub] by (intro psubset_card_mono) auto
  qed
  then have rank: "\<forall>k < size. \<forall>c \<in> set (succs k). h c < h k" by (auto simp: depends_rel_def)
  have "h k < n" using card_mono [OF _ sub [of k]] assms(4) by (simp add: h_def)
  then show ?thesis
    using recur_terminates [OF rank, of n] assms(2,3) by (fastforce simp: clean_def)
qed

section \<open>With a cycle it may not end\<close>

theorem recur_endless:
  assumes K: "K \<subseteq> {..<size}" "\<forall>k \<in> K. succs k \<noteq> [] \<and> hd (succs k) \<in> K \<and> hd (succs k) \<noteq> k"
  shows "ok s \<Longrightarrow> k \<in> K \<Longrightarrow> p = [] \<or> hd p \<noteq> k \<Longrightarrow> recur n k p s = None"
proof (induction n arbitrary: k p)
  case (Suc n)
  obtain c cs where c: "succs k = c # cs" "c \<in> K" "c \<noteq> k"
    using K Suc.prems(2) by (cases "succs k") fastforce+
  have "recur n c (k # p) s = None"
    using Suc.IH [of c "k # p"] Suc.prems(1) c by auto
  then show ?case
    using Suc.prems c K by (subst recur_Suc) (auto simp: loop_Cons)
qed (simp add: recur_0)

theorem recur_self:
  assumes "ok s" "k < size" "succs k = k # cs" "p = [] \<or> hd p \<noteq> k"
  shows "recur (Suc (Suc n)) k p s = Some (1, s)"
  using assms by (auto simp: recur_Suc loop_Cons)

end

end
