(* ===== verification/BuildTasks.thy ===== *)
theory BuildTasks
  imports JsonSafety TaskOrder
begin

text \<open>
  The tasks of the project builder (\<open>tools/build.c\<close>): the callback that collects them from the
  document, the execution of one task, the recursion over the tasks it depends on, and \<open>main\<close>. A
  string is stored up to its first zero; a string that does not fit the array it is copied to is the
  outcome \<open>OutOfBounds\<close>, whatever size was passed for it. The list of tasks is a list, a pointer
  to a task an index of it.
\<close>

section \<open>Data\<close>

definition bld__MAX_PATH :: nat where "bld__MAX_PATH = 250"
definition bld__MAX_CHILDREN :: nat where "bld__MAX_CHILDREN = 60"
definition bld__MAX_LABEL :: nat where "bld__MAX_LABEL = 60"

record task =
  task_id :: nat
  label :: string
  command :: string
  cwd :: string
  depends_on :: "string list"
  args :: "string list"
  platform_args :: bool
  finished :: bool

definition bld__task_new :: "nat \<Rightarrow> task" where
  "bld__task_new n = \<lparr>task_id = n, label = [], command = [], cwd = [],
     depends_on = replicate (bld__MAX_CHILDREN + 1) [], args = replicate (bld__MAX_CHILDREN + 1) [],
     platform_args = False, finished = False\<rparr>"

text \<open>The systems the program is compiled for, and the section of a task each of them reads.\<close>

datatype platform = Windows | MacOS | Linux | Other

definition platform_section :: "platform \<Rightarrow> string option" where
  "platform_section p = (case p of Windows \<Rightarrow> Some ''windows'' | MacOS \<Rightarrow> Some ''osx''
     | Linux \<Rightarrow> Some ''linux'' | Other \<Rightarrow> None)"

section \<open>Collecting the tasks\<close>

text \<open>\<open>json__copy_string\<close> with the size \<open>n\<close> into an array of \<open>room\<close> bytes.\<close>

definition copy_value :: "tree \<Rightarrow> nat \<Rightarrow> nat \<Rightarrow> nat \<Rightarrow> string run c" where
  "copy_value t k n room = bind_r (or_exit (json__copy_string t (value_start (obj t k)) (value_end (obj t k)) n))
     (\<lambda>s. if length s < room then Inr (Returns (c_string s)) else Inl OutOfBounds)"

text \<open>The first free entry of an array of strings; none is an error that ends the program.\<close>

definition free_entry :: "string list \<Rightarrow> nat option" where
  "free_entry ss = (let i = length (takeWhile (\<lambda>s. s \<noteq> []) (take bld__MAX_CHILDREN ss)) in
     if i \<ge> bld__MAX_CHILDREN then None else Some i)"

definition bld__args :: "tree \<Rightarrow> nat \<Rightarrow> task \<Rightarrow> bool \<Rightarrow> (task \<times> int) run c" where
  "bld__args tr k t platform =
     (if platform_args t \<and> \<not> platform then Inr (Returns (t, 1))
      else let cleared = (if \<not> platform_args t \<and> platform
             then map (\<lambda>s. []) (take bld__MAX_CHILDREN (args t)) @ drop bld__MAX_CHILDREN (args t) else args t);
           t1 = t\<lparr>args := cleared, platform_args := platform\<rparr>
      in case free_entry (args t1) of
           None \<Rightarrow> Inr Exits
         | Some i \<Rightarrow> bind_r (copy_value tr k bld__MAX_PATH bld__MAX_PATH) (\<lambda>s.
             Inr (Returns (t1\<lparr>args := (args t1)[i := s]\<rparr>, 0))))"

text \<open>
  The task with the given identity, which the root takes over while it has none and a new task at
  the end of the list when no task has it.
\<close>

fun find_task :: "task list \<Rightarrow> nat \<Rightarrow> task list \<times> nat" where
  "find_task [] n = ([bld__task_new n], 0)"
| "find_task (t # ts) n =
     (if task_id t = n then (t # ts, 0)
      else let (ts', i) = find_task ts n in (t # ts', Suc i))"

definition select_task :: "task list \<Rightarrow> nat \<Rightarrow> task list \<times> nat" where
  "select_task ts n = (if task_id (hd ts) = 0 then ((hd ts)\<lparr>task_id := n\<rparr> # tl ts, 0) else find_task ts n)"

text \<open>What a value inside a task changes in it.\<close>

definition set_field :: "platform \<Rightarrow> tree \<Rightarrow> nat \<Rightarrow> task \<Rightarrow> task run c" where
  "set_field pf tr k t =
     bind_r (returns (json__match tr 4 ''command'')) (\<lambda>is_command.
     if is_command \<and> command t = []
     then bind_r (copy_value tr k bld__MAX_PATH bld__MAX_PATH) (\<lambda>s. Inr (Returns (t\<lparr>command := s\<rparr>)))
     else
     bind_r (case platform_section pf of None \<Rightarrow> Inr (Returns False)
             | Some sec \<Rightarrow> if depth (obj tr k) > 4 then returns (json__match tr 4 sec) else Inr (Returns False)) (\<lambda>is_section.
     if is_section
     then bind_r (returns (json__match tr 5 ''command'')) (\<lambda>c.
            if c then bind_r (copy_value tr k bld__MAX_PATH bld__MAX_PATH) (\<lambda>s. Inr (Returns (t\<lparr>command := s\<rparr>)))
            else bind_r (if depth (obj tr k) > 5 then returns (json__match tr 5 ''args'') else Inr (Returns False)) (\<lambda>a.
            if a then bind_r (bld__args tr k t True) (\<lambda>(t', r). Inr (Returns t')) else Inr (Returns t)))
     else
     bind_r (returns (json__match tr 4 ''label'')) (\<lambda>is_label.
     if is_label
     then bind_r (copy_value tr k 1024 bld__MAX_LABEL) (\<lambda>s. Inr (Returns (t\<lparr>label := s\<rparr>)))
     else if \<not> depth (obj tr k) > 4 then Inr (Returns t)
     else
     bind_r (returns (json__match tr 4 ''args'')) (\<lambda>is_args.
     if is_args
     then bind_r (bld__args tr k t False) (\<lambda>(t', r). Inr (Returns t'))
     else
     bind_r (returns (json__match tr 4 ''dependsOn'')) (\<lambda>is_depends.
     if is_depends
     then (case free_entry (depends_on t) of
             None \<Rightarrow> Inr Exits
           | Some i \<Rightarrow> bind_r (copy_value tr k bld__MAX_PATH bld__MAX_LABEL) (\<lambda>s.
               Inr (Returns (t\<lparr>depends_on := (depends_on t)[i := s]\<rparr>))))
     else
     bind_r (returns (json__match tr 4 ''options'')) (\<lambda>is_options.
     bind_r (if is_options then returns (json__match tr 5 ''cwd'') else Inr (Returns False)) (\<lambda>is_cwd.
     if is_cwd
     then bind_r (copy_value tr k bld__MAX_PATH bld__MAX_PATH) (\<lambda>s. Inr (Returns (t\<lparr>cwd := s\<rparr>)))
     else Inr (Returns t))))))))"

definition bld__gather_tasks :: "platform \<Rightarrow> task list callback" where
  "bld__gather_tasks pf tr k ts =
     (if depth (obj tr k) < 3 then Inr (Returns (ts, 0))
      else bind_r (returns (json__match tr 2 ''tasks'')) (\<lambda>is_tasks.
      bind_r (if is_tasks \<and> depth (obj tr k) > 3 then returns (json__match tr 3 []) else Inr (Returns False)) (\<lambda>is_task.
      if \<not> is_task then Inr (Returns (ts, 0))
      else let (ts', i) = select_task ts (value_start (obj tr 3)) in
           bind_r (set_field pf tr k (ts' ! i)) (\<lambda>t. Inr (Returns (ts'[i := t], 0))))))"

section \<open>Names and entries\<close>

text \<open>The name of an object is the text between its two indexes.\<close>

definition named :: "tree \<Rightarrow> nat \<Rightarrow> string \<Rightarrow> bool" where
  "named t k s \<longleftrightarrow> name_start (obj t k) + length s = name_end (obj t k) \<and> name_end (obj t k) \<le> length (buf t) \<and>
     take (length s) (drop (name_start (obj t k)) (buf t)) = s \<and> CHR 0x00 \<notin> set s"

lemma match_loop_text:
  "take (length s) (drop i (buf t)) = s \<Longrightarrow> i + length s \<le> length (buf t) \<Longrightarrow> CHR 0x00 \<notin> set s \<Longrightarrow>
   CHR 0x00 \<notin> set s' \<Longrightarrow> match_loop t i (i + length s) (s' @ [CHR 0x00]) = Inr (s' = s)"
proof (induction s arbitrary: i s')
  case Nil
  then show ?case by (cases s') auto
next
  case (Cons c cs)
  from Cons.prems(1,2) have i: "i < length (buf t)" "buf t ! i = c" "take (length cs) (drop (Suc i) (buf t)) = cs"
    by (auto simp: Cons_nth_drop_Suc [symmetric])
  show ?case
  proof (cases s')
    case (Cons d ds)
    then show ?thesis
      using Cons.IH [of "Suc i" ds] Cons.prems i by (auto simp: byte_def)
  qed (use i Cons.prems in \<open>auto simp: byte_def\<close>)
qed

lemma match_named: "named t k s \<Longrightarrow> CHR 0x00 \<notin> set s' \<Longrightarrow> json__match t k s' = Inr (s' = s)"
  using match_loop_text [of s "name_start (obj t k)" t s'] by (auto simp: named_def json__match_def)

text \<open>
  An array of strings is used from its start: the entries in use, none of them empty, and the free
  ones after them.
\<close>

definition entries :: "string list \<Rightarrow> string list \<Rightarrow> bool" where
  "entries ss xs \<longleftrightarrow> ss = xs @ replicate (bld__MAX_CHILDREN + 1 - length xs) [] \<and> [] \<notin> set xs \<and> length xs \<le> bld__MAX_CHILDREN"

lemma entries_new: "entries (replicate (bld__MAX_CHILDREN + 1) []) []"
  by (simp add: entries_def)

lemma used_entries:
  assumes "entries ss xs"
  shows "takeWhile (\<lambda>s. s \<noteq> []) (take bld__MAX_CHILDREN ss) = xs"
proof -
  have "take bld__MAX_CHILDREN ss = xs @ replicate (bld__MAX_CHILDREN - length xs) []"
    using assms by (simp add: entries_def)
  then show ?thesis
    using assms by (cases "bld__MAX_CHILDREN - length xs") (auto simp: entries_def takeWhile_append takeWhile_eq_all_conv)
qed

lemma free_entry_entries:
  "entries ss xs \<Longrightarrow> free_entry ss = (if length xs = bld__MAX_CHILDREN then None else Some (length xs))"
  by (auto simp: free_entry_def used_entries) (auto simp: entries_def)

lemma entries_update:
  assumes "entries ss xs" "length xs < bld__MAX_CHILDREN"
  shows "entries (ss[length xs := s]) (xs @ (if s = [] then [] else [s]))"
proof -
  have "bld__MAX_CHILDREN + 1 - length xs = Suc (bld__MAX_CHILDREN - length xs)" using assms(2) by simp
  then show ?thesis using assms by (auto simp: entries_def list_update_append)
qed

lemma entries_clear:
  "entries ss xs \<Longrightarrow> entries (map (\<lambda>s. []::string) (take bld__MAX_CHILDREN ss) @ drop bld__MAX_CHILDREN ss) []"
proof -
  assume "entries ss xs"
  then have "map (\<lambda>s. [] :: string) (take bld__MAX_CHILDREN ss) = replicate bld__MAX_CHILDREN []"
      "drop bld__MAX_CHILDREN ss = replicate 1 []"
    by (auto simp: entries_def map_replicate_const)
  then have "map (\<lambda>s. [] :: string) (take bld__MAX_CHILDREN ss) @ drop bld__MAX_CHILDREN ss = replicate (bld__MAX_CHILDREN + 1) []"
    by (simp only: replicate_add)
  then show ?thesis by (simp only: entries_new)
qed

text \<open>
  The arguments of a task are the non-empty ones in the order of the document; those of the
  section of the platform replace the general ones, whichever come first, and more than sixty end
  the program.
\<close>

theorem bld__args_collects:
  assumes "entries (args t) xs" "copy_value tr k bld__MAX_PATH bld__MAX_PATH = Inr (Returns v)"
  shows "let ys = (if platform \<and> \<not> platform_args t then [] else xs) in
    if platform_args t \<and> \<not> platform then bld__args tr k t platform = Inr (Returns (t, 1))
    else if length ys = bld__MAX_CHILDREN then bld__args tr k t platform = Inr Exits
    else \<exists>t'. bld__args tr k t platform = Inr (Returns (t', 0)) \<and> platform_args t' = platform \<and>
      entries (args t') (ys @ (if v = [] then [] else [v])) \<and>
      t' = t\<lparr>args := args t', platform_args := platform\<rparr>"
proof -
  have step: "length ys = bld__MAX_CHILDREN \<longrightarrow> free_entry ss = None"
      "length ys \<noteq> bld__MAX_CHILDREN \<longrightarrow> free_entry ss = Some (length ys) \<and>
        entries (ss[length ys := v]) (ys @ (if v = [] then [] else [v]))"
    if "entries ss ys" for ss ys
    using free_entry_entries [OF that] entries_update [OF that] that by (auto simp: entries_def)
  show ?thesis
    using step [OF assms(1)] step [OF entries_clear [OF assms(1)]] assms(2)
    by (auto simp: bld__args_def Let_def)
qed

text \<open>
  A label of sixty characters or more, up to the bound of 1024 that is passed for its array of
  sixty, is written past the end of that array.
\<close>

theorem long_label_overflows:
  assumes "named tr 2 ''tasks''" "named tr 3 []" "named tr 4 ''label''" "depth (obj tr k) > 3"
    and "value_start (obj tr k) + n = value_end (obj tr k)" "value_end (obj tr k) \<le> length (buf tr)"
    and "bld__MAX_LABEL \<le> n" "n < 1023"
  shows "bld__gather_tasks pf tr k ts = Inl OutOfBounds"
proof -
  have copy: "copy_value tr k 1024 bld__MAX_LABEL = Inl OutOfBounds"
    using assms(5-8) by (auto simp: copy_value_def json__copy_string_def)
  have no_section: "(case platform_section pf of None \<Rightarrow> Inr (Returns False)
       | Some sec \<Rightarrow> if depth (obj tr k) > 4 then returns (json__match tr 4 sec) else Inr (Returns False)) = Inr (Returns False)"
    using match_named [OF assms(3)] by (cases pf) (auto simp: platform_section_def)
  have "set_field pf tr k t = Inl OutOfBounds" for t
    using match_named [OF assms(3)] no_section copy by (simp add: set_field_def)
  then show ?thesis
    using match_named [OF assms(1)] match_named [OF assms(2)] assms(4)
    by (simp add: bld__gather_tasks_def Let_def split: prod.splits)
qed

lemma bld__args_collects_witness:
  "let t = bld__task_new 1; tr = \<lparr>buf = ''-o'' @ [CHR 0x00], len = 2, stack = [zero_obj\<lparr>value_end := 2\<rparr>], errors = []\<rparr> in
   \<exists>t'. bld__args tr 0 t True = Inr (Returns (t', 0)) \<and> platform_args t' = True \<and>
      entries (args t') ([] @ (if ''-o'' = [] then [] else [''-o''])) \<and>
      t' = t\<lparr>args := args t', platform_args := True\<rparr>"
proof -
  let ?t = "bld__task_new 1"
  let ?tr = "\<lparr>buf = ''-o'' @ [CHR 0x00], len = 2, stack = [zero_obj\<lparr>value_end := 2\<rparr>], errors = []\<rparr>"
  have "entries (args ?t) []" "platform_args ?t = False" using entries_new by (simp_all add: bld__task_new_def)
  moreover have "copy_value ?tr 0 bld__MAX_PATH bld__MAX_PATH = Inr (Returns ''-o'')"
    by (simp add: copy_value_def json__copy_string_def zero_obj_def bld__MAX_PATH_def c_string_def)
  ultimately show ?thesis
    using bld__args_collects [of ?t "[]" ?tr 0 "''-o''" True] by (simp add: Let_def bld__MAX_CHILDREN_def)
qed

lemma long_label_overflows_witness:
  "let txt = ''taskslabel'' @ replicate 100 (CHR ''x'');
       name = (\<lambda>s e. zero_obj\<lparr>name_start := s, name_end := e\<rparr>)
   in bld__gather_tasks Linux \<lparr>buf = txt @ [CHR 0x00], len = 110,
       stack = [zero_obj, zero_obj, name 0 5, name 0 0, (name 5 10)\<lparr>depth := 4, value_start := 10, value_end := 110\<rparr>],
       errors = []\<rparr> 4 [bld__task_new 0] = Inl OutOfBounds"
  unfolding Let_def
  by (rule long_label_overflows [where n = 100])
    (simp_all add: named_def zero_obj_def bld__MAX_LABEL_def)

section \<open>Running the tasks\<close>

text \<open>
  What the program uses of the operating system: changing the directory (which may fail and leave it
  as it was) and starting a program in a directory and waiting for its exit status, which is taken
  to depend on the directory and the arguments only.
\<close>

record os =
  os_chdir :: "string \<Rightarrow> string \<Rightarrow> string"
  os_spawn :: "string \<Rightarrow> string list \<Rightarrow> int"

text \<open>
  The state of a run: the tasks, the directory the program is in, and the commands started so far,
  each with the task it belongs to and the directory it was started in.
\<close>

record build =
  tasks :: "task list"
  current_dir :: string
  started :: "(nat \<times> string \<times> string list) list"

text \<open>
  On Windows the closing quote of an argument in single quotes is overwritten in the task, and the
  argument starts after the opening one.
\<close>

definition strip_quotes :: "string \<Rightarrow> string" where
  "strip_quotes p = (if hd p = CHR 0x27 \<and> last p = CHR 0x27 then butlast (tl p) else p)"

definition task_dir :: "task \<Rightarrow> string \<Rightarrow> string" where
  "task_dir t workspace = take 1019
     (if take 18 (cwd t) = ''${workspaceFolder}'' then workspace @ drop 18 (cwd t) else cwd t)"

text \<open>The arguments up to the first null pointer among them.\<close>

definition task_argv :: "platform \<Rightarrow> task \<Rightarrow> string list" where
  "task_argv pf t =
     (if pf = Windows then [''cmd'', ''/c'', command t] else [''/usr/bin/env'', ''-S'', command t]) @
     map (\<lambda>p. if pf = Windows then strip_quotes p else p)
       (takeWhile (\<lambda>s. s \<noteq> []) (take bld__MAX_CHILDREN (args t)))"

definition bld__exec :: "os \<Rightarrow> platform \<Rightarrow> string \<Rightarrow> nat \<Rightarrow> build \<Rightarrow> int \<times> build" where
  "bld__exec os pf workspace k b =
     (let t = tasks b ! k; old = current_dir b; wd = task_dir t workspace in
      if finished t then (0, b)
      else let dir = (if wd \<noteq> [] then os_chdir os old wd else old);
               argv = task_argv pf t;
               b1 = b\<lparr>tasks := (tasks b)[k := t\<lparr>finished := True\<rparr>], started := started b @ [(k, dir, argv)],
                     current_dir := os_chdir os dir old\<rparr>
           in if os_spawn os dir argv \<noteq> 0 then (-1, b1) else (0, b1))"

text \<open>
  The tasks the two loops of \<open>bld__depends\<close> go through: for every entry of \<open>depends_on\<close> before the
  first empty one, every task with that label.
\<close>

definition targets :: "task list \<Rightarrow> nat \<Rightarrow> nat list" where
  "targets ts k = concat (map (\<lambda>s. filter (\<lambda>c. label (ts ! c) = s) [0..<length ts])
     (takeWhile (\<lambda>s. s \<noteq> []) (take bld__MAX_CHILDREN (depends_on (ts ! k)))))"

text \<open>
  \<open>p\<close> is the chain of callers. The loop that is to find the task in the chain compares it with the
  head of the chain in every round. \<open>None\<close> is a recursion deeper than the fuel.
\<close>

fun bld__depends :: "nat \<Rightarrow> os \<Rightarrow> platform \<Rightarrow> string \<Rightarrow> nat \<Rightarrow> nat list \<Rightarrow> build \<Rightarrow> (int \<times> build) option"
  and depend_loop :: "nat \<Rightarrow> os \<Rightarrow> platform \<Rightarrow> string \<Rightarrow> nat list \<Rightarrow> nat list \<Rightarrow> build \<Rightarrow> (int \<times> build) option" where
  "bld__depends 0 os pf workspace k p b = None"
| "bld__depends (Suc n) os pf workspace k p b =
     (if \<exists>tr \<in> set p. hd p = k then Some (1, b)
      else case depend_loop n os pf workspace (targets (tasks b) k) (k # p) b of
             None \<Rightarrow> None
           | Some (r, b1) \<Rightarrow> if r \<noteq> 0 then Some (r, b1) else Some (bld__exec os pf workspace k b1))"
| "depend_loop n os pf workspace [] p b = Some (0, b)"
| "depend_loop n os pf workspace (c # cs) p b =
     (case bld__depends n os pf workspace c p b of
        None \<Rightarrow> None
      | Some (r, b1) \<Rightarrow> if r \<noteq> 0 then Some (r, b1) else depend_loop n os pf workspace cs p b1)"

text \<open>The first task with the given label.\<close>

fun find_label :: "task list \<Rightarrow> string \<Rightarrow> nat option" where
  "find_label [] name = None"
| "find_label (t # ts) name = (if label t = name then Some 0 else map_option Suc (find_label ts name))"

definition bld__make :: "nat \<Rightarrow> os \<Rightarrow> platform \<Rightarrow> string \<Rightarrow> string \<Rightarrow> build \<Rightarrow> (int \<times> build) option" where
  "bld__make n os pf workspace name b = (case find_label (tasks b) name of
       None \<Rightarrow> Some (-1, b)
     | Some k \<Rightarrow> bld__depends n os pf workspace k [] b)"

text \<open>
  \<open>main\<close> with the contents of \<open>.vscode/tasks.json\<close>: its exit status and the build it ran. The result
  of the run is not looked at, nor is the result of the walk through the document.
\<close>

definition build_main :: "nat \<Rightarrow> os \<Rightarrow> platform \<Rightarrow> jobj list \<Rightarrow> string list \<Rightarrow> (string \<Rightarrow> string option) \<Rightarrow>
    string \<Rightarrow> (int \<times> build option) run c" where
  "build_main n os pf garbage argv read_file here =
     (if length argv \<noteq> 3 then Inr (Returns (-1, None))
      else case json__load_file (read_file (take 1022 (argv ! 1 @ ''/.vscode/tasks.json''))) of
        None \<Rightarrow> Inr (Returns (-1, None))
      | Some txt \<Rightarrow>
          bind_r (returns (json__parse txt (length txt - 1) garbage)) (\<lambda>(t, found).
          case found of None \<Rightarrow> Inr (Returns (-2, None))
          | Some k \<Rightarrow>
              bind_r (json__visitor n (bld__gather_tasks pf) t k [bld__task_new 0]) (\<lambda>(t', ts, r).
              case bld__make n os pf (argv ! 1) (argv ! 2) \<lparr>tasks = ts, current_dir = here, started = []\<rparr> of
                None \<Rightarrow> Inr Runs_on
              | Some (r, b) \<Rightarrow> Inr (Returns (0, Some b)))))"

section \<open>The recursion as a search over the tasks\<close>

text \<open>A build that began with the given tasks: only what is finished changes, with the log.\<close>

definition tracks :: "task list \<Rightarrow> build \<Rightarrow> bool" where
  "tracks ts b \<longleftrightarrow> length (tasks b) = length ts \<and>
     (\<forall>k < length ts. label (tasks b ! k) = label (ts ! k) \<and> depends_on (tasks b ! k) = depends_on (ts ! k) \<and>
        (finished (tasks b ! k) \<longleftrightarrow> k \<in> fst ` set (started b)))"

definition failed :: "os \<Rightarrow> nat \<times> string \<times> string list \<Rightarrow> bool" where
  "failed os e = (case e of (k, dir, argv) \<Rightarrow> os_spawn os dir argv \<noteq> 0)"

lemma targets_tracks: "tracks ts b \<Longrightarrow> k < length ts \<Longrightarrow> targets (tasks b) k = targets ts k"
  unfolding targets_def tracks_def
  by (auto intro!: arg_cong [where f = concat] filter_cong)

lemma targets_size: "set (targets ts k) \<subseteq> {..<length ts}"
  by (auto simp: targets_def)

lemma exec_finished:
  "tracks ts b \<Longrightarrow> k < length ts \<Longrightarrow> k \<in> fst ` set (started b) \<Longrightarrow> bld__exec os pf workspace k b = (0, b)"
  by (simp add: bld__exec_def tracks_def Let_def)

lemma exec_new:
  assumes "tracks ts b" "k < length ts" "k \<notin> fst ` set (started b)"
  shows "tracks ts (snd (bld__exec os pf workspace k b)) \<and>
    (\<exists>e. started (snd (bld__exec os pf workspace k b)) = started b @ [e] \<and> fst e = k \<and>
       (fst (bld__exec os pf workspace k b) = 0 \<longleftrightarrow> \<not> failed os e))"
proof -
  have "\<not> finished (tasks b ! k)" using assms by (auto simp: tracks_def)
  then show ?thesis
    using assms by (auto simp: bld__exec_def Let_def tracks_def failed_def nth_list_update)
qed

interpretation builder: task_order "length ts" "targets ts" "tracks ts" started fst "failed os"
    "bld__exec os pf workspace" "\<lambda>n. bld__depends n os pf workspace" "\<lambda>n. depend_loop n os pf workspace"
  for ts os pf workspace
proof
  show "set (targets ts k) \<subseteq> {..<length ts}" for k by (rule targets_size)
  show "bld__depends (Suc n) os pf workspace k p b =
      (if p \<noteq> [] \<and> hd p = k then Some (1, b)
       else case depend_loop n os pf workspace (targets ts k) (k # p) b of None \<Rightarrow> None
         | Some (r, s1) \<Rightarrow> if r \<noteq> 0 then Some (r, s1) else Some (bld__exec os pf workspace k s1))"
    if "tracks ts b" "k < length ts" for n k p b
    using targets_tracks [OF that] by (auto simp: ex_in_conv)
  show "tracks ts (snd (bld__exec os pf workspace k b)) \<and>
    (\<exists>e. started (snd (bld__exec os pf workspace k b)) = started b @ [e] \<and> fst e = k \<and>
       (fst (bld__exec os pf workspace k b) = 0 \<longleftrightarrow> \<not> failed os e))"
    if "tracks ts b" "k < length ts" "k \<notin> fst ` set (started b)" for k b
    using that by (rule exec_new)
qed (simp_all add: exec_finished)

section \<open>Properties of a build\<close>

text \<open>Nothing is finished and nothing has been started.\<close>

definition fresh :: "task list \<Rightarrow> string \<Rightarrow> build" where
  "fresh ts here = \<lparr>tasks = ts, current_dir = here, started = []\<rparr>"

definition dependencies :: "task list \<Rightarrow> (nat \<times> nat) set" where
  "dependencies ts = {(k, c). k < length ts \<and> c \<in> set (targets ts k)}"

lemma fresh_tracks: "\<forall>t \<in> set ts. \<not> finished t \<Longrightarrow> tracks ts (fresh ts here)"
  by (simp add: tracks_def fresh_def)

lemma fresh_log [simp]: "started (fresh ts here) = []" "tasks (fresh ts here) = ts"
  by (simp_all add: fresh_def)

lemma find_label_size: "find_label ts name = Some k \<Longrightarrow> k < length ts"
  by (induction ts name arbitrary: k rule: find_label.induct) (auto split: if_splits)

lemma dependencies_rel: "task_order.depends_rel (length ts) (targets ts) = dependencies ts"
  by (simp add: builder.depends_rel_def dependencies_def)

lemma filter_Nil: "filter p xs = [] \<longleftrightarrow> (\<forall>x \<in> set xs. \<not> p x)"
  by (auto simp: filter_empty_conv)

lemma make_runs:
  assumes "find_label ts name = Some k" "acyclic (dependencies ts)" "\<forall>t \<in> set ts. \<not> finished t"
    and "\<forall>dir argv. os_spawn os dir argv = 0" "length ts < n"
  shows "\<exists>b. bld__make n os pf workspace name (fresh ts here) = Some (0, b) \<and>
    set (map fst (started b)) = (dependencies ts)\<^sup>* `` {k} \<and> in_order (targets ts) (map fst (started b))"
proof -
  note k = find_label_size [OF assms(1)] and tr = fresh_tracks [OF assms(3), of here]
  obtain r b where b: "bld__depends n os pf workspace k [] (fresh ts here) = Some (r, b)"
      "r = 0 \<or> filter (failed os) (started b) \<noteq> []"
    using builder.recur_acyclic [of ts "fresh ts here" k n os pf workspace] tr k assms(2,5) dependencies_rel by auto
  then have "r = 0" using assms(4) by (auto simp: filter_Nil failed_def)
  then show ?thesis
    using builder.recur_starts_reachable [of n os pf workspace k "[]" "fresh ts here" b ts]
      b tr k assms(1) dependencies_rel by (simp add: bld__make_def)
qed

text \<open>
  C5. When no task depends on itself, directly or through others, and every program that is started
  succeeds, making a task returns success; it has started exactly the tasks the given one depends
  on, each once and after all those it depends on itself. One level of recursion more than there are
  tasks is enough.
\<close>

theorem bld__make_runs_dependencies_first:
  assumes "find_label ts name = Some k" "acyclic (dependencies ts)" "\<forall>t \<in> set ts. \<not> finished t"
    and "\<forall>dir argv. os_spawn os dir argv = 0" "length ts < n"
  shows "\<exists>b. bld__make n os pf workspace name (fresh ts here) = Some (0, b) \<and>
    set (map fst (started b)) = (dependencies ts)\<^sup>* `` {k} \<and> in_order (targets ts) (map fst (started b))"
  using assms by (rule make_runs)

text \<open>
  C15. Whatever the dependencies are, when a build returns then every task it started came after all
  those it depends on, only the last one started can have failed, and a successful result means that
  none has.
\<close>

theorem bld__make_stops_at_failure:
  assumes "bld__make n os pf workspace name (fresh ts here) = Some (r, b)" "\<forall>t \<in> set ts. \<not> finished t"
  shows "in_order (targets ts) (map fst (started b)) \<and>
    (\<forall>(k, dir, argv) \<in> set (butlast (started b)). os_spawn os dir argv = 0) \<and>
    (r = 0 \<longrightarrow> (\<forall>(k, dir, argv) \<in> set (started b). os_spawn os dir argv = 0))"
proof (cases "find_label ts name")
  case None
  then show ?thesis using assms by (auto simp: bld__make_def)
next
  case (Some k)
  note k = find_label_size [OF Some] and tr = fresh_tracks [OF assms(2), of here]
  have run: "bld__depends n os pf workspace k [] (fresh ts here) = Some (r, b)"
    using assms(1) Some by (simp add: bld__make_def)
  have "builder.closed ts {..<length ts}" using targets_size by (simp add: builder.closed_def)
  note res = builder.recur_good [OF this, THEN conjunct1, rule_format, OF run tr]
  show ?thesis using res k by (auto simp: builder.good_def filter_Nil failed_def)
qed

text \<open>
  C35. The check for a cycle compares the task with its direct caller only: as soon as the first
  dependencies of some tasks lead from one to the next and back, without a task that names itself,
  making any of them recurses without end.
\<close>

theorem bld__make_cycle_never_returns:
  assumes "find_label ts name = Some k" "k \<in> K" "K \<subseteq> {..<length ts}" "\<forall>t \<in> set ts. \<not> finished t"
    and "\<forall>k \<in> K. targets ts k \<noteq> [] \<and> hd (targets ts k) \<in> K \<and> hd (targets ts k) \<noteq> k"
  shows "bld__make n os pf workspace name (fresh ts here) = None"
  using builder.recur_endless [OF assms(3,5) fresh_tracks [OF assms(4)] assms(2)] assms(1)
  by (simp add: bld__make_def)

text \<open>
  A task whose first dependency is itself is refused with the result 1, before anything is
  started; nothing is printed, and \<open>main\<close> does not look at the result.
\<close>

theorem bld__make_self_dependency:
  assumes "find_label ts name = Some k" "targets ts k = k # cs" "\<forall>t \<in> set ts. \<not> finished t"
  shows "bld__make (Suc (Suc n)) os pf workspace name (fresh ts here) = Some (1, fresh ts here)"
  using builder.recur_self [OF fresh_tracks [OF assms(3)] find_label_size [OF assms(1)] assms(2)] assms(1)
  by (simp add: bld__make_def del: bld__depends.simps)

section \<open>Witnesses of the properties of a build\<close>

definition sample_task :: "string \<Rightarrow> string list \<Rightarrow> task" where
  "sample_task name deps = (bld__task_new 1)\<lparr>label := name, command := ''cc'', depends_on := deps\<rparr>"

definition succeeding :: os where
  "succeeding = \<lparr>os_chdir = (\<lambda>old new. new), os_spawn = (\<lambda>dir argv. 0)\<rparr>"

lemma sample_targets:
  "targets [sample_task ''all'' [''lib'', ''doc''], sample_task ''lib'' [], sample_task ''doc'' [''lib'']] k =
     (if k = 0 then [1, 2] else if k = 2 then [1] else [])" if "k < 3" for k
proof -
  have "k = 0 \<or> k = 1 \<or> k = 2" using that by auto
  then show ?thesis by (auto simp: targets_def sample_task_def bld__task_new_def bld__MAX_CHILDREN_def upt_rec)
qed

lemma bld__make_runs_dependencies_first_witness:
  "let ts = [sample_task ''all'' [''lib'', ''doc''], sample_task ''lib'' [], sample_task ''doc'' [''lib'']] in
   \<exists>b. bld__make (Suc (length ts)) succeeding Linux ''/home/x'' ''all'' (fresh ts ''/'') = Some (0, b) \<and>
    set (map fst (started b)) = (dependencies ts)\<^sup>* `` {0} \<and> in_order (targets ts) (map fst (started b))"
proof -
  let ?ts = "[sample_task ''all'' [''lib'', ''doc''], sample_task ''lib'' [], sample_task ''doc'' [''lib'']]"
  have rel: "dependencies ?ts = {(0, 1), (0, 2), (2, 1)}"
    using sample_targets by (auto simp: dependencies_def split: if_splits)
  have "acyclic (dependencies ?ts)"
  proof (rule acyclicI_order [where f = "\<lambda>k. if k = 0 then 3 else (k::nat)"])
    fix a b assume "(a, b) \<in> dependencies ?ts"
    then show "(if b = 0 then 3 else b) < (if a = 0 then 3 else a)" unfolding rel by auto
  qed
  then show ?thesis
    unfolding Let_def
    by (intro bld__make_runs_dependencies_first) (auto simp: sample_task_def succeeding_def bld__task_new_def)
qed

lemma bld__make_stops_at_failure_witness:
  "let ts = [sample_task ''lib'' []]; b = snd (bld__exec succeeding Linux ''/'' 0 (fresh ts ''/''))
   in in_order (targets ts) (map fst (started b)) \<and>
    (\<forall>(k, dir, argv) \<in> set (butlast (started b)). os_spawn succeeding dir argv = 0) \<and>
    ((0::int) = 0 \<longrightarrow> (\<forall>(k, dir, argv) \<in> set (started b). os_spawn succeeding dir argv = 0))"
  unfolding Let_def
  by (rule bld__make_stops_at_failure [of 2 _ Linux "''/''" "''lib''" _ "''/''"])
    (simp_all add: bld__make_def sample_task_def bld__task_new_def targets_def numeral_2_eq_2 bld__exec_def
      succeeding_def Let_def bld__MAX_CHILDREN_def fresh_def)

lemma bld__make_cycle_never_returns_witness:
  "bld__make 1000000 succeeding Linux ''/'' ''a'' (fresh [sample_task ''a'' [''b''], sample_task ''b'' [''a'']] ''/'') = None"
  by (rule bld__make_cycle_never_returns [where k = 0 and K = "{0, 1}"])
    (simp_all add: sample_task_def bld__task_new_def targets_def bld__MAX_CHILDREN_def upt_rec)

lemma bld__make_self_dependency_witness:
  "bld__make (Suc (Suc 0)) succeeding Linux ''/'' ''a'' (fresh [sample_task ''a'' [''a'']] ''/'')
    = Some (1, fresh [sample_task ''a'' [''a'']] ''/'')"
  by (rule bld__make_self_dependency [where k = 0 and cs = "[]"])
    (simp_all add: sample_task_def bld__task_new_def targets_def bld__MAX_CHILDREN_def upt_rec)

end
