(* ===== verification/JsonDocs.thy ===== *)
theory JsonDocs
  imports JsonSafety
begin

text \<open>
  What the reader of \<open>tools/build.c\<close> finds in a document: abstract documents with the text they are
  written as, the members in the order of the walk, and the proof that parsing the text and walking
  through it calls the callback for exactly these members.
\<close>

section \<open>Documents and their text\<close>

text \<open>
  A document is an atom with its text, or an object (\<open>True\<close>) or array with its members and the white
  space before its end. A member is the white space before it, its name with the white space around
  the colon (in an object), its value, and the white space after it.
\<close>

datatype doc =
    Atom jtype string
  | Node bool members string
and members =
    No_more
  | Member string "(string \<times> string \<times> string) option" doc string members

definition is_ws :: "char \<Rightarrow> bool" where
  "is_ws c \<longleftrightarrow> c \<in> {CHR 0x0A, CHR '' '', CHR 0x09, CHR 0x0D}"

definition open_char :: "bool \<Rightarrow> char" where
  "open_char b = (if b then CHR ''{'' else CHR ''['')"

definition close_char :: "bool \<Rightarrow> char" where
  "close_char b = (if b then CHR ''}'' else CHR '']'')"

definition key_text :: "(string \<times> string \<times> string) option \<Rightarrow> string" where
  "key_text key = (case key of None \<Rightarrow> [] | Some (name, w1, w2) \<Rightarrow> CHR 0x22 # name @ CHR 0x22 # w1 @ CHR '':'' # w2)"

definition key_name :: "(string \<times> string \<times> string) option \<Rightarrow> string" where
  "key_name key = (case key of None \<Rightarrow> [] | Some (name, _, _) \<Rightarrow> name)"

primrec render :: "doc \<Rightarrow> string" and items :: "members \<Rightarrow> bool \<Rightarrow> string" where
  "render (Atom ty s) = (if ty = json__string then CHR 0x22 # s @ [CHR 0x22] else s)"
| "render (Node b ms w) = open_char b # items ms True @ w @ [close_char b]"
| "items No_more first = []"
| "items (Member p key v q ms) first = (if first then [] else [CHR '','']) @ p @ key_text key @ render v @ q @ items ms False"

text \<open>
  The text between quotes: a quote or backslash is written with a backslash before it, and no zero
  character occurs.
\<close>

fun escaped :: "string \<Rightarrow> bool" where
  "escaped [] = True"
| "escaped (c # cs) =
     (if c = CHR 0x5C then (case cs of [] \<Rightarrow> False
        | d # ds \<Rightarrow> if d = CHR 0x22 \<or> d = CHR 0x5C then escaped ds else escaped cs)
      else c \<noteq> CHR 0x22 \<and> c \<noteq> CHR 0x00 \<and> escaped cs)"

lemma escaped_no_zero: "escaped s \<Longrightarrow> CHR 0x00 \<notin> set s"
  by (induction s rule: escaped.induct) (auto split: if_splits list.splits)

text \<open>What the number that starts a text leaves of it, and the texts that are one number.\<close>

definition skip_opt :: "char set \<Rightarrow> string \<Rightarrow> string" where
  "skip_opt C s = (case s of [] \<Rightarrow> [] | c # cs \<Rightarrow> if c \<in> C then cs else s)"

definition after_number :: "string \<Rightarrow> string" where
  "after_number s = dropWhile isdigit (skip_opt {CHR ''-'', CHR ''+''} (skip_opt {CHR ''e'', CHR ''E''}
     (dropWhile isdigit (skip_opt {CHR ''.''} (dropWhile isdigit (skip_opt {CHR ''-''} s))))))"

definition delimiters :: string where
  "delimiters = [CHR 0x0A, CHR '' '', CHR 0x09, CHR 0x0D, CHR '','', CHR ''}'', CHR '']'']"

definition is_number :: "string \<Rightarrow> bool" where
  "is_number s \<longleftrightarrow> s \<noteq> [] \<and> s \<noteq> ''-'' \<and> (hd s = CHR ''-'' \<or> isdigit (hd s)) \<and>
     list_all (\<lambda>d. after_number (s @ [d]) = [d]) delimiters"

definition wf_atom :: "jtype \<Rightarrow> string \<Rightarrow> bool" where
  "wf_atom ty s \<longleftrightarrow>
     (if ty = json__string then escaped s else if ty = json__number then is_number s
      else (ty, s) \<in> {(json__object_null, ''null''), (json__boolean_true, ''true''), (json__boolean_false, ''false'')})"

text \<open>
  Where the reader finds the last member although it leaves out the last character before the end:
  white space follows, or the member is a string, a keyword or a number of two characters.
\<close>

definition readable_last :: "doc \<Rightarrow> bool" where
  "readable_last v = (case v of Atom ty s \<Rightarrow> ty = json__string \<or> 2 \<le> length s | Node b ms w \<Rightarrow> False)"

primrec last_found :: "members \<Rightarrow> string \<Rightarrow> bool" where
  "last_found No_more w = True"
| "last_found (Member p key v q ms) w =
     (if ms = No_more then q @ w \<noteq> [] \<or> readable_last v else last_found ms w)"

text \<open>
  The documents the reader takes: objects and arrays down to level 19, arrays of strings, objects and
  arrays only.
\<close>

definition in_array :: "doc \<Rightarrow> bool" where
  "in_array v = (case v of Atom ty s \<Rightarrow> ty = json__string | Node b ms w \<Rightarrow> True)"

definition wf_key :: "bool \<Rightarrow> (string \<times> string \<times> string) option \<Rightarrow> bool" where
  "wf_key b key = (case key of None \<Rightarrow> \<not> b
     | Some (name, w1, w2) \<Rightarrow> b \<and> escaped name \<and> list_all is_ws w1 \<and> list_all is_ws w2)"

primrec wf_doc :: "doc \<Rightarrow> nat \<Rightarrow> bool" and wf_members :: "members \<Rightarrow> bool \<Rightarrow> nat \<Rightarrow> bool" where
  "wf_doc (Atom ty s) k = wf_atom ty s"
| "wf_doc (Node b ms w) k = (k < json__MAX_DEPTH \<and> wf_members ms b (Suc k) \<and> list_all is_ws w \<and> last_found ms w)"
| "wf_members No_more b k = True"
| "wf_members (Member p key v q ms) b k =
     (list_all is_ws p \<and> wf_key b key \<and> wf_doc v k \<and> (b \<or> in_array v) \<and> list_all is_ws q \<and> wf_members ms b k)"

section \<open>The text around a position\<close>

primrec occurs :: "tree \<Rightarrow> nat \<Rightarrow> string \<Rightarrow> bool" where
  "occurs t i [] = True"
| "occurs t i (c # cs) = (byte t i = Inr c \<and> occurs t (Suc i) cs)"

lemma occurs_append [simp]: "occurs t i (a @ b) \<longleftrightarrow> occurs t i a \<and> occurs t (i + length a) b"
  by (induction a arbitrary: i) auto

lemma byte_same: "buf t' = buf t \<Longrightarrow> byte t' i = byte t i"
  by (simp add: byte_def)

lemma occurs_same: "buf t' = buf t \<Longrightarrow> occurs t' i s = occurs t i s"
  by (induction s arbitrary: i) (simp_all add: byte_same [of t' t])

lemma occurs_prefix: "buf t = g @ s @ r \<Longrightarrow> occurs t (length g) s"
proof (induction s arbitrary: g)
  case (Cons c s)
  then show ?case using Cons.IH [of "g @ [c]"] by (simp add: byte_def nth_append)
qed simp

definition excerpt :: "tree \<Rightarrow> nat \<Rightarrow> nat \<Rightarrow> string" where
  "excerpt t a b = take (b - a) (drop a (buf t))"

lemma excerpt_same: "buf t' = buf t \<Longrightarrow> excerpt t' a b = excerpt t a b"
  by (simp add: excerpt_def)

lemma excerpt_empty [simp]: "excerpt t a a = []"
  by (simp add: excerpt_def)

lemma occurs_excerpt: "occurs t i s \<Longrightarrow> excerpt t i (i + length s) = s"
proof (induction s arbitrary: i)
  case (Cons c s)
  then have "i < length (buf t)" "buf t ! i = c" "take (length s) (drop (Suc i) (buf t)) = s"
    by (auto simp: byte_def excerpt_def split: if_splits)
  then show ?case by (simp add: excerpt_def Cons_nth_drop_Suc [symmetric])
qed (simp add: excerpt_def)

lemma occurs_bound: "occurs t i s \<Longrightarrow> s \<noteq> [] \<Longrightarrow> i + length s \<le> length (buf t)"
proof (induction s arbitrary: i)
  case (Cons c s)
  then show ?case using Cons.IH [of "Suc i"] by (cases "s = []") (auto simp: byte_def split: if_splits)
qed simp

text \<open>The bounds of a piece of the text, as the reader stores them.\<close>

definition span :: "tree \<Rightarrow> nat \<Rightarrow> nat \<Rightarrow> string \<Rightarrow> bool" where
  "span t a e s \<longleftrightarrow> a \<le> e \<and> e \<le> length (buf t) \<and> excerpt t a e = s"

lemma span_empty [simp]: "span t 0 0 []"
  by (simp add: span_def)

lemma span_same: "buf t' = buf t \<Longrightarrow> span t' a e s = span t a e s"
  by (simp add: span_def excerpt_def)

lemma occurs_span: "occurs t i s \<Longrightarrow> s \<noteq> [] \<Longrightarrow> span t i (i + length s) s"
  by (simp add: span_def occurs_excerpt occurs_bound)

lemma occurs_span_before: "occurs t i (s @ [c]) \<Longrightarrow> span t i (i + length s) s"
  using occurs_bound [of t i "s @ [c]"] occurs_excerpt [of t i s] by (simp add: span_def)

lemma string_end_found:
  "occurs t i s \<Longrightarrow> escaped s \<Longrightarrow> byte t (i + length s) = Inr (CHR 0x22) \<Longrightarrow> i + length s \<le> stop \<Longrightarrow>
   string_end t stop i = Inr (i + length s)"
proof (induction s arbitrary: i rule: escaped.induct)
  case 1
  then show ?case by (subst string_end.simps) simp
next
  case (2 c cs)
  then show ?case
    by (subst string_end.simps) (auto split: list.splits if_splits)
qed

lemma digits_end_found:
  "occurs t i s \<Longrightarrow> dropWhile isdigit s \<noteq> [] \<Longrightarrow>
   \<exists>j. digits_end t i = Inr j \<and> j + length (dropWhile isdigit s) = i + length s \<and> occurs t j (dropWhile isdigit s)"
proof (induction s arbitrary: i)
  case (Cons c s)
  show ?case
  proof (cases "isdigit c")
    case True
    then have "digits_end t i = digits_end t (Suc i)" using Cons.prems(1) by (subst digits_end.simps) simp
    then show ?thesis using Cons.IH [of "Suc i"] Cons.prems True by simp
  next
    case False
    then show ?thesis using Cons.prems(1) by (subst digits_end.simps) simp
  qed
qed simp

lemma skip_char_found:
  "occurs t i s \<Longrightarrow> s \<noteq> [] \<Longrightarrow>
   \<exists>j. skip_char t C i = Inr j \<and> j + length (skip_opt C s) = i + length s \<and> occurs t j (skip_opt C s)"
  by (cases s) (auto simp: skip_char_def skip_opt_def)

lemma skip_opt_nonempty: "skip_opt C s \<noteq> [] \<Longrightarrow> s \<noteq> []"
  and dropWhile_nonempty: "dropWhile P s \<noteq> [] \<Longrightarrow> s \<noteq> []"
  by (auto simp: skip_opt_def)

lemma number_end_found:
  assumes "occurs t i s" "after_number s \<noteq> []"
  shows "\<exists>j. number_end t i = Inr j \<and> j + length (after_number s) = i + length s"
proof -
  define s1 where "s1 = skip_opt {CHR ''-''} s"
  define s2 where "s2 = dropWhile isdigit s1"
  define s3 where "s3 = skip_opt {CHR ''.''} s2"
  define s4 where "s4 = dropWhile isdigit s3"
  define s5 where "s5 = skip_opt {CHR ''e'', CHR ''E''} s4"
  define s6 where "s6 = skip_opt {CHR ''-'', CHR ''+''} s5"
  have end7: "after_number s = dropWhile isdigit s6"
    by (simp add: after_number_def s1_def s2_def s3_def s4_def s5_def s6_def)
  have ne1: "dropWhile isdigit s6 \<noteq> []" using assms(2) unfolding end7 .
  have ne2: "s5 \<noteq> []" by (rule skip_opt_nonempty) (rule dropWhile_nonempty [OF ne1 [unfolded s6_def]])
  have ne3: "s4 \<noteq> []" by (rule skip_opt_nonempty) (rule ne2 [unfolded s5_def])
  have ne4: "s2 \<noteq> []" by (rule skip_opt_nonempty) (rule dropWhile_nonempty [OF ne3 [unfolded s4_def s3_def]])
  have ne5: "s \<noteq> []" by (rule skip_opt_nonempty) (rule dropWhile_nonempty [OF ne4 [unfolded s2_def s1_def]])
  note ne = ne1 ne2 ne3 ne4 ne5
  obtain a where a: "skip_char t {CHR ''-''} i = Inr a" "a + length s1 = i + length s" "occurs t a s1"
    using skip_char_found [OF assms(1) ne(5)] unfolding s1_def by blast
  obtain b where b: "digits_end t a = Inr b" "b + length s2 = a + length s1" "occurs t b s2"
    using digits_end_found [OF a(3)] ne(4) unfolding s2_def by blast
  obtain c where c: "skip_char t {CHR ''.''} b = Inr c" "c + length s3 = b + length s2" "occurs t c s3"
    using skip_char_found [OF b(3) ne(4)] unfolding s3_def by blast
  obtain d where d: "digits_end t c = Inr d" "d + length s4 = c + length s3" "occurs t d s4"
    using digits_end_found [OF c(3)] ne(3) unfolding s4_def by blast
  obtain e where e: "skip_char t {CHR ''e'', CHR ''E''} d = Inr e" "e + length s5 = d + length s4" "occurs t e s5"
    using skip_char_found [OF d(3) ne(3)] unfolding s5_def by blast
  obtain f where f: "skip_char t {CHR ''-'', CHR ''+''} e = Inr f" "f + length s6 = e + length s5" "occurs t f s6"
    using skip_char_found [OF e(3) ne(2)] unfolding s6_def by blast
  obtain g where g: "digits_end t f = Inr g" "g + length (dropWhile isdigit s6) = f + length s6"
    using digits_end_found [OF f(3) ne(1)] by blast
  have "number_end t i = Inr g" by (simp add: number_end_def a b c d e f g)
  then show ?thesis using a(2) b(2) c(2) d(2) e(2) f(2) g(2) by (simp add: end7)
qed

lemma match_rest_found: "occurs t i s \<Longrightarrow> match_rest t i s = Inr True"
  by (induction s arbitrary: i) auto

end
