(* ===== verification/JsonWalk.thy ===== *)
theory JsonWalk
  imports JsonDocs
begin

text \<open>
  The reader of \<open>tools/build.c\<close> on the text of a document: one value, the members of an object, the
  next member, and the whole walk.
\<close>

section \<open>Objects in a known state\<close>

definition node_type :: "bool \<Rightarrow> jtype" where
  "node_type b = (if b then json__object else json__object_array)"

definition body_state :: "bool \<Rightarrow> jstate" where
  "body_state b = (if b then json__state_object_body else json__state_array_body)"

definition comma_state :: "bool \<Rightarrow> jstate" where
  "comma_state b = (if b then json__state_object_after_comma else json__state_array_after_comma)"

definition member_state :: "bool \<Rightarrow> jstate" where
  "member_state b = (if b then json__state_object_after_member else json__state_array_after_member)"

text \<open>The states in which a value may come.\<close>

definition expecting :: "bool \<Rightarrow> jstate \<Rightarrow> bool" where
  "expecting b s \<longleftrightarrow> (if b then s = json__state_object_after_colon else s \<in> {body_state False, comma_state False})"

lemmas state_defs = node_type_def body_state_def comma_state_def member_state_def expecting_def

lemma states_not_end [simp]:
  "body_state b \<noteq> json__state_end" "comma_state b \<noteq> json__state_end" "member_state b \<noteq> json__state_end"
  "json__state_end \<noteq> body_state b" "json__state_end \<noteq> comma_state b" "json__state_end \<noteq> member_state b"
  by (simp_all add: state_defs)

text \<open>An object that waits for a member: nothing prepared, and no name left over in an array.\<close>

definition unprepared :: "tree \<Rightarrow> nat \<Rightarrow> bool \<Rightarrow> bool" where
  "unprepared t r b \<longleftrightarrow> child_type (obj t r) = json__undefined \<and>
     (\<not> b \<longrightarrow> child_name_s (obj t r) = 0 \<and> child_name_e (obj t r) = 0)"

definition level :: "tree \<Rightarrow> nat \<Rightarrow> bool \<Rightarrow> jstate \<Rightarrow> bool" where
  "level t r b s \<longleftrightarrow> length (stack t) = 22 \<and> r \<le> json__MAX_DEPTH \<and> depth (obj t r) = r \<and>
     jtype (obj t r) = node_type b \<and> jstate (obj t r) = s \<and> unprepared t r b"

text \<open>What a scan at the level \<open>r\<close> leaves alone.\<close>

definition header :: "jobj \<Rightarrow> nat \<times> jtype \<times> nat \<times> nat \<times> nat \<times> nat" where
  "header ob = (depth ob, jtype ob, name_start ob, name_end ob, value_start ob, value_end ob)"

definition kept :: "tree \<Rightarrow> nat \<Rightarrow> tree \<Rightarrow> bool" where
  "kept t r t' \<longleftrightarrow> buf t' = buf t \<and> len t' = len t \<and> length (stack t') = length (stack t) \<and>
     (\<forall>j < r. obj t' j = obj t j) \<and> header (obj t' r) = header (obj t r)"

lemma kept_refl [simp]: "kept t r t"
  by (simp add: kept_def)

lemma kept_trans: "kept t r t' \<Longrightarrow> kept t' r t'' \<Longrightarrow> kept t r t''"
  by (simp add: kept_def)

lemma kept_buf: "kept t r t' \<Longrightarrow> buf t' = buf t"
  by (simp add: kept_def)

lemma kept_occurs: "kept t r t' \<Longrightarrow> occurs t' i s = occurs t i s"
  by (rule occurs_same) (simp add: kept_def)

lemma kept_byte: "kept t r t' \<Longrightarrow> byte t' i = byte t i"
  by (rule byte_same) (simp add: kept_def)

lemma kept_value_end: "kept t r t' \<Longrightarrow> od \<le> r \<Longrightarrow> value_end (obj t' od) = value_end (obj t od)"
  by (cases "od = r") (auto simp: kept_def header_def)

lemma kept_depth: "kept t r t' \<Longrightarrow> od \<le> r \<Longrightarrow> depth (obj t' od) = depth (obj t od)"
  by (cases "od = r") (auto simp: kept_def header_def)

lemma level_set_state: "level t r b s \<Longrightarrow> level (upd t r (set_state s')) r b s'"
  by (simp add: level_def unprepared_def obj_upd set_state_def json__MAX_DEPTH_def)

lemma kept_upd:
  "r < length (stack t) \<Longrightarrow> header (f (obj t r)) = header (obj t r) \<Longrightarrow> kept t r (upd t r f)"
  by (simp add: kept_def obj_upd)

lemma level_length: "level t r b s \<Longrightarrow> r < length (stack t)" "level t r b s \<Longrightarrow> length (stack t) = 22"
    "level t r b s \<Longrightarrow> r \<le> 20" "level t r b s \<Longrightarrow> depth (obj t r) = r" "level t r b s \<Longrightarrow> jstate (obj t r) = s"
  unfolding level_def json__MAX_DEPTH_def by linarith+

lemma kept_set_state: "level t r b s \<Longrightarrow> kept t r (upd t r (set_state s'))"
  by (rule kept_upd) (simp_all add: level_length(1) header_def set_state_def)

lemma jcount_set_state: "level t r b s \<Longrightarrow> jcount (obj (upd t r (set_state s')) r) = jcount (obj t r)"
  using level_length(1) by (simp add: obj_upd set_state_def)

section \<open>One step of the scan\<close>

text \<open>What follows a case of the switch: the checks after it, and the rest of the loop.\<close>

definition resume :: "tree \<Rightarrow> nat \<Rightarrow> nat \<Rightarrow> nat \<Rightarrow> nat \<Rightarrow> nat \<Rightarrow> nat \<Rightarrow> (tree \<times> nat option) c" where
  "resume t od stop r i ns ne =
     (if depth (obj t r) = od \<and> jcount (obj t r) = 1 then Inr (t, Some (Suc (depth (obj t r))))
      else if depth (obj t r) < od then Inr (t, None)
      else if jstate (obj t r) = json__state_end then Inr (t, None)
      else json__scan t od od stop r i ns ne)"

lemma scan_Go:
  assumes "i < stop" "get_char t od od stop r i ns ne = Inr (Go t' r' i' ns' ne')"
  shows "json__scan t od od stop r i ns ne = resume t' od stop r' (Suc i') ns' ne'"
  using assms by (subst json__scan.simps) (simp add: resume_def)

text \<open>A step that found nothing yet.\<close>

definition unfound :: "tree \<Rightarrow> nat \<Rightarrow> nat \<Rightarrow> bool" where
  "unfound t od r \<longleftrightarrow> od \<le> r \<and> (r = od \<longrightarrow> jcount (obj t r) \<noteq> 1)"

definition quiet :: "tree \<Rightarrow> nat \<Rightarrow> nat \<Rightarrow> bool" where
  "quiet t od r \<longleftrightarrow> depth (obj t r) = r \<and> unfound t od r \<and> jstate (obj t r) \<noteq> json__state_end"

lemma unfound_count: "jcount (obj t' r) = jcount (obj t r) \<Longrightarrow> unfound t od r \<Longrightarrow> unfound t' od r"
  by (cases "r = od") (simp_all add: unfound_def)

lemma resume_quiet: "quiet t od r \<Longrightarrow> resume t od stop r i ns ne = json__scan t od od stop r i ns ne"
  by (auto simp: quiet_def unfound_def resume_def)

lemma resume_found: "depth (obj t od) = od \<Longrightarrow> jcount (obj t od) = 1 \<Longrightarrow> resume t od stop od i ns ne = Inr (t, Some (Suc od))"
  by (simp add: resume_def)

lemma level_quiet:
  assumes "level t r b s" "unfound t od r" "s \<noteq> json__state_end"
  shows "quiet t od r"
  using assms by (simp add: quiet_def level_def)

lemma white_scanned:
  assumes "list_all is_ws w" "occurs t i w" "i + length w \<le> stop" "quiet t od r"
  shows "json__scan t od od stop r i ns ne = json__scan t od od stop r (i + length w) ns ne"
  using assms
proof (induction w arbitrary: i)
  case (Cons c w)
  have "get_char t od od stop r i ns ne = Inr (Go t r i ns ne)"
    using Cons.prems(1,2) by (auto simp: get_char_def is_ws_def)
  then have "json__scan t od od stop r i ns ne = resume t od stop r (Suc i) ns ne"
    using Cons.prems(3) by (intro scan_Go) auto
  then show ?case using Cons.IH [of "Suc i"] Cons.prems by (simp add: resume_quiet)
qed simp

lemma comma_scanned:
  assumes "level t r b (member_state b)" "byte t i = Inr (CHR '','')" "i < stop" "unfound t od r"
  shows "json__scan t od od stop r i ns ne = json__scan (upd t r (set_state (comma_state b))) od od stop r (Suc i) ns ne"
proof -
  let ?t = "upd t r (set_state (comma_state b))"
  have "get_char t od od stop r i ns ne = Inr (Go ?t r i ns ne)"
    using assms(1,2) by (simp add: get_char_def get_comma_def level_length state_defs)
  moreover have "quiet ?t od r"
    using level_set_state [OF assms(1)] unfound_count [OF jcount_set_state [OF assms(1)] assms(4)]
    by (intro level_quiet [where b = b and s = "comma_state b"]) (simp_all add: comma_state_def)
  ultimately show ?thesis using scan_Go [OF assms(3)] resume_quiet by simp
qed

lemma quote_char: "byte t i = Inr (CHR 0x22) \<Longrightarrow> get_char t k od stop r i ns ne = get_quote t k stop r i ns ne"
  by (simp add: get_char_def)

lemma key_scanned:
  assumes "level t r True s" "s \<in> {body_state True, comma_state True}"
    and "occurs t i (CHR 0x22 # name @ CHR 0x22 # w1 @ CHR '':'' # w2)"
    and "i + length (CHR 0x22 # name @ CHR 0x22 # w1 @ CHR '':'' # w2) \<le> stop"
    and "escaped name" "list_all is_ws w1" "list_all is_ws w2"
    and "value_end (obj t od) = stop" "unfound t od r"
  shows "\<exists>t'. json__scan t od od stop r i ns ne
       = json__scan t' od od stop r (i + length (CHR 0x22 # name @ CHR 0x22 # w1 @ CHR '':'' # w2)) (Suc i) (Suc i + length name)
     \<and> kept t r t' \<and> level t' r True json__state_object_after_colon \<and> jcount (obj t' r) = jcount (obj t r)"
proof -
  let ?j = "Suc i + length name"
  define t1 where "t1 = upd t r (set_state json__state_object_after_name)"
  define t2 where "t2 = upd t1 r (set_state json__state_object_after_colon)"
  have t1: "level t1 r True json__state_object_after_name" "kept t r t1" "jcount (obj t1 r) = jcount (obj t r)"
    unfolding t1_def using assms(1) by (rule level_set_state, rule kept_set_state, rule jcount_set_state)
  have t2: "level t2 r True json__state_object_after_colon" "kept t1 r t2" "jcount (obj t2 r) = jcount (obj t1 r)"
    unfolding t2_def using t1(1) by (rule level_set_state, rule kept_set_state, rule jcount_set_state)
  have unfound: "unfound t1 od r" "unfound t2 od r"
    using t1(3) t2(3) assms(9) unfound_count by metis+
  have "string_end t stop (Suc i) = Inr ?j"
    using assms(3-5) by (intro string_end_found) auto
  then have "get_char t od od stop r i ns ne = Inr (Go t1 r ?j (Suc i) ?j)"
    using assms(1-4,8)
    by (auto simp: quote_char get_quote_def level_length state_defs t1_def)
  then have "json__scan t od od stop r i ns ne = resume t1 od stop r (Suc ?j) (Suc i) ?j"
    using assms(4) by (intro scan_Go) auto
  also have "\<dots> = json__scan t1 od od stop r (Suc ?j) (Suc i) ?j"
    using unfound by (intro resume_quiet level_quiet [OF t1(1)]) auto
  also have "\<dots> = json__scan t1 od od stop r (Suc ?j + length w1) (Suc i) ?j"
    using t1 unfound assms(3,4,6) by (intro white_scanned level_quiet [OF t1(1)]) (auto simp: kept_occurs)
  also have "\<dots> = resume t2 od stop r (Suc (Suc ?j + length w1)) (Suc i) ?j"
    using assms(3,4) t1(1,2)
    by (intro scan_Go) (auto simp: get_char_def get_colon_def level_length t2_def kept_byte)
  also have "\<dots> = json__scan t2 od od stop r (Suc (Suc ?j + length w1)) (Suc i) ?j"
    using unfound by (intro resume_quiet level_quiet [OF t2(1)]) auto
  also have "\<dots> = json__scan t2 od od stop r (Suc (Suc ?j + length w1) + length w2) (Suc i) ?j"
    using t1 t2 unfound assms(3,4,7) by (intro white_scanned level_quiet [OF t2(1)]) (auto simp: kept_occurs)
  also have "Suc (Suc ?j + length w1) + length w2 = i + length (CHR 0x22 # name @ CHR 0x22 # w1 @ CHR '':'' # w2)" by simp
  finally have "json__scan t od od stop r i ns ne
      = json__scan t2 od od stop r (i + length (CHR 0x22 # name @ CHR 0x22 # w1 @ CHR '':'' # w2)) (Suc i) ?j" .
  moreover have "kept t r t2" using t1(2) t2(2) by (rule kept_trans)
  ultimately show ?thesis using t1(3) t2(1,3) by (intro exI [of _ t2]) simp
qed

section \<open>Values\<close>

primrec doc_type :: "doc \<Rightarrow> jtype" where
  "doc_type (Atom ty s) = ty"
| "doc_type (Node b ms w) = node_type b"

text \<open>Where the reader puts the value of a document that is written at a position.\<close>

definition value_from :: "doc \<Rightarrow> nat \<Rightarrow> nat" where
  "value_from v i = (case v of Atom ty s \<Rightarrow> if ty = json__string then Suc i else i | Node b ms w \<Rightarrow> Suc i)"

definition value_to :: "doc \<Rightarrow> nat \<Rightarrow> nat" where
  "value_to v i = (case v of Atom ty s \<Rightarrow> (if ty = json__string then Suc i else i) + length s
     | Node b ms w \<Rightarrow> i + length (render v) - 2)"

definition found_member :: "tree \<Rightarrow> nat \<Rightarrow> bool \<Rightarrow> doc \<Rightarrow> nat \<Rightarrow> nat \<Rightarrow> nat \<Rightarrow> bool" where
  "found_member t r b v i a e \<longleftrightarrow>
     header (obj t r) = (r, doc_type v, if b then a else 0, if b then e else 0, value_from v i, value_to v i) \<and>
     (case v of Atom ty s \<Rightarrow> True | Node b' ms w \<Rightarrow> unprepared t r b')"

definition added :: "tree \<Rightarrow> nat \<Rightarrow> bool \<Rightarrow> doc \<Rightarrow> nat \<Rightarrow> nat \<Rightarrow> nat \<Rightarrow> tree \<Rightarrow> bool" where
  "added t r b v i a e t' \<longleftrightarrow> kept t r t' \<and> level t' r b (member_state b) \<and>
     jcount (obj t' r) = Suc (jcount (obj t r)) \<and> found_member t' (Suc r) b v i a e"

text \<open>The room a value needs before the end of the scan: an atom needs less than its text.\<close>

definition has_room :: "doc \<Rightarrow> nat \<Rightarrow> nat \<Rightarrow> bool" where
  "has_room v i stop \<longleftrightarrow> i < stop \<and> (case v of
       Atom ty s \<Rightarrow> ty = json__string \<longrightarrow> Suc i + length s \<le> stop
     | Node b ms w \<Rightarrow> i + length (render v) \<le> stop)"

definition prepared :: "tree \<Rightarrow> nat \<Rightarrow> jtype \<Rightarrow> nat \<Rightarrow> nat \<Rightarrow> tree" where
  "prepared t r ty a e = (if jstate (obj t r) = json__state_object_after_colon then json__prepare_member t r ty a e else t)"

lemma prepared_simps [simp]:
  "buf (prepared t r ty a e) = buf t" "byte (prepared t r ty a e) i = byte t i"
  by (simp_all add: prepared_def)

lemma prepared_obj: "jstate (obj (prepared t r ty a e) j) = jstate (obj t j)" "value_end (obj (prepared t r ty a e) j) = value_end (obj t j)"
  if "r < length (stack t)"
  using that by (simp_all add: prepared_def json__prepare_member_def obj_upd)

lemma prepared_occurs: "occurs (prepared t r ty a e) i s = occurs t i s"
  by (rule occurs_same) simp

lemma atom_added:
  assumes "level t r b s" "expecting b s" "b \<or> ty = json__string" "r < json__MAX_DEPTH"
  shows "\<exists>t2. json__add_member (prepared t r ty a e) r ty x y = Inr t2 \<and>
    (let t' = upd t2 r (set_state (member_state b)) in kept t r t' \<and> level t' r b (member_state b) \<and>
       jcount (obj t' r) = Suc (jcount (obj t r)) \<and>
       header (obj t' (Suc r)) = (Suc r, ty, if b then a else 0, if b then e else 0, x, y))"
proof -
  have st: "length (stack t) = 22" "r < 22" "Suc r < 22" "depth (obj t r) = r" "jtype (obj t r) = node_type b" "jstate (obj t r) = s"
    "child_type (obj t r) = json__undefined" "\<not> b \<longrightarrow> child_name_s (obj t r) = 0 \<and> child_name_e (obj t r) = 0"
    using assms(1,4) by (auto simp: level_def unprepared_def json__MAX_DEPTH_def)
  show ?thesis
  proof (cases b)
    case True
    then have "s = json__state_object_after_colon" using assms(2) by (simp add: expecting_def)
    then show ?thesis using True st
      by (simp add: prepared_def json__prepare_member_def json__add_member_def obj_upd Let_def kept_def level_def unprepared_def
          header_def set_state_def node_type_def json__MAX_DEPTH_def)
  next
    case False
    then have "s \<noteq> json__state_object_after_colon" using assms(2) by (auto simp: state_defs)
    then show ?thesis using False st
      by (simp add: prepared_def json__add_member_def obj_upd Let_def kept_def level_def unprepared_def
          header_def set_state_def node_type_def json__MAX_DEPTH_def)
  qed
qed

lemma number_char:
  assumes "byte t i = Inr c" "c = CHR ''-'' \<or> isdigit c"
  shows "get_char t k od stop r i a e = get_number t r i a e"
proof -
  have "\<forall>d \<in> set ''{[}],:ntf ''. \<not> isdigit d" by (simp add: isdigit_def)
  then have "c \<notin> set ''{[}],:ntf ''" using assms(2) by auto
  moreover have "\<forall>d \<in> {CHR 0x22, CHR 0x0A, CHR 0x09, CHR 0x0D}. \<not> isdigit d \<and> d \<noteq> CHR ''-''" by (simp add: isdigit_def)
  then have "c \<notin> {CHR 0x22, CHR 0x0A, CHR 0x09, CHR 0x0D}" using assms(2) by blast
  ultimately show ?thesis using assms by (simp add: get_char_def)
qed

lemma atom_scanned:
  assumes "wf_atom ty s" "b \<or> ty = json__string" "occurs t i (render (Atom ty s))"
    and "byte t (i + length (render (Atom ty s))) = Inr d" "d \<in> set delimiters"
    and "level t r b st" "expecting b st" "r < json__MAX_DEPTH"
    and "value_end (obj t od) = stop" "has_room (Atom ty s) i stop"
  shows "\<exists>t' ns' ne'. json__scan t od od stop r i a e = resume t' od stop r (i + length (render (Atom ty s))) ns' ne' \<and>
    added t r b (Atom ty s) i a e t'"
proof -
  have st: "r < length (stack t)" "jstate (obj t r) = st" using level_length [OF assms(6)] by auto
  consider (string) "ty = json__string" "escaped s"
    | (number) "ty = json__number" "is_number s"
    | (word) c cs where "(ty, c, cs) \<in> {(json__object_null, CHR ''n'', ''ull''), (json__boolean_true, CHR ''t'', ''rue''),
          (json__boolean_false, CHR ''f'', ''alse'')}" "s = c # cs"
    using assms(1) by (auto simp: wf_atom_def split: if_splits)
  then have "\<exists>t2 j ns' ne'. json__add_member (prepared t r ty a e) r ty (value_from (Atom ty s) i) (value_to (Atom ty s) i) = Inr t2 \<and>
      get_char t od od stop r i a e = Inr (Go (upd t2 r (set_state (member_state b))) r j ns' ne') \<and> Suc j = i + length (render (Atom ty s))"
  proof cases
    case string
    obtain t2 where t2: "json__add_member (prepared t r ty a e) r ty (Suc i) (Suc i + length s) = Inr t2"
      using atom_added [OF assms(6-7) assms(2,8)] by blast
    have "string_end (prepared t r ty a e) stop (Suc i) = Inr (Suc i + length s)"
      using assms(3,10) string by (intro string_end_found) (auto simp: has_room_def prepared_occurs)
    then have "get_quote t od stop r i a e = Inr (Go (upd t2 r (set_state (member_state b))) r (Suc i + length s) (Suc i) (Suc i + length s))"
      unfolding get_quote_def prepared_def [symmetric]
      using assms(7,9,10) t2 string(1) st
      by (cases b) (auto simp: prepared_obj has_room_def state_defs)
    moreover have "get_char t od od stop r i a e = get_quote t od stop r i a e"
      using assms(3) string(1) by (intro quote_char) simp
    ultimately show ?thesis using t2 string(1) by (simp add: value_from_def value_to_def)
  next
    case number
    then have b: "b" using assms(2) by simp
    obtain t2 where t2: "json__add_member (prepared t r ty a e) r ty i (i + length s) = Inr t2"
      using atom_added [OF assms(6-7) assms(2,8)] by blast
    obtain c cs where s: "s = c # cs" using number(2) by (cases s) (auto simp: is_number_def)
    have "after_number (s @ [d]) = [d]" using number(2) assms(5) by (simp add: is_number_def list_all_iff)
    then have "number_end (prepared t r ty a e) i = Inr (i + length s)"
      using number_end_found [of "prepared t r ty a e" i "s @ [d]"] assms(3,4) number(1) by (simp add: prepared_occurs)
    moreover have "\<exists>x. byte t (i + length s - 1) = Inr x \<and> \<not> (length s = 1 \<and> x = CHR ''-'')"
    proof -
      obtain u x where u: "s = u @ [x]" using s by (metis rev_exhaust list.distinct(1))
      then have "byte t (i + length u) = Inr x" using assms(3) number(1) by simp
      then show ?thesis using u number(2) by (auto simp: is_number_def)
    qed
    moreover have "c = CHR ''-'' \<or> isdigit c" "byte t i = Inr c" using number assms(3) s by (auto simp: is_number_def)
    moreover from this have "get_char t od od stop r i a e = get_number t r i a e"
      by (intro number_char) simp_all
    moreover have "get_number t r i a e = Inr (Go (upd t2 r (set_state (member_state b))) r (i + length s - 1) i e)"
      unfolding get_number_def prepared_def [symmetric]
      using calculation(1,2) t2 number(1) b s by (auto simp: state_defs)
    ultimately show ?thesis using t2 number(1) s by (simp add: value_from_def value_to_def)
  next
    case word
    then have b: "b" using assms(2) by auto
    obtain t2 where t2: "json__add_member (prepared t r ty a e) r ty i (Suc i + length cs) = Inr t2"
      using atom_added [OF assms(6-7) assms(2,8)] by blast
    have match: "match_rest (prepared t r ty a e) (Suc i) cs = Inr True"
      using assms(3) word by (intro match_rest_found) (auto simp: prepared_occurs)
    have "get_keyword ty cs t r i a e = Inr (Go (upd t2 r (set_state (member_state b))) r (i + length cs) a e)"
      unfolding get_keyword_def prepared_def [symmetric] using t2 match b by (simp add: state_defs)
    moreover have "get_char t od od stop r i a e = get_keyword ty cs t r i a e"
      using word(1) assms(3) by (auto simp: get_char_def word(2))
    ultimately show ?thesis using t2 word by (auto simp: value_from_def value_to_def)
  qed
  then obtain t2 j ns' ne' where t2: "json__add_member (prepared t r ty a e) r ty (value_from (Atom ty s) i) (value_to (Atom ty s) i) = Inr t2"
      and go: "get_char t od od stop r i a e = Inr (Go (upd t2 r (set_state (member_state b))) r j ns' ne')"
      and j: "Suc j = i + length (render (Atom ty s))"
    by blast
  have "json__scan t od od stop r i a e = resume (upd t2 r (set_state (member_state b))) od stop r (i + length (render (Atom ty s))) ns' ne'"
    using scan_Go [OF _ go] assms(10) j by (simp add: has_room_def)
  moreover have "added t r b (Atom ty s) i a e (upd t2 r (set_state (member_state b)))"
    using atom_added [OF assms(6-7) assms(2,8), of a e "value_from (Atom ty s) i" "value_to (Atom ty s) i"] t2
    by (simp add: added_def found_member_def Let_def)
  ultimately show ?thesis by blast
qed

section \<open>Objects, arrays and their members\<close>

definition node_start :: "tree \<Rightarrow> nat \<Rightarrow> bool \<Rightarrow> nat \<Rightarrow> nat \<Rightarrow> nat \<Rightarrow> bool" where
  "node_start t r b i a e \<longleftrightarrow> level t r b (body_state b) \<and>
     (\<exists>x. header (obj t r) = (r, node_type b, a, e, Suc i, x))"

lemma open_scanned:
  assumes "level t r b s" "expecting b s" "r < json__MAX_DEPTH" "byte t i = Inr (open_char b')" "i < stop" "od \<le> r"
  shows "\<exists>t'. json__scan t od od stop r i a e = json__scan t' od od stop (Suc r) (Suc i) a e \<and>
    kept t r t' \<and> level t' r b (member_state b) \<and> jcount (obj t' r) = Suc (jcount (obj t r)) \<and>
    node_start t' (Suc r) b' i (if b then a else 0) (if b then e else 0)"
proof -
  have st: "length (stack t) = 22" "r < 22" "Suc r < 22" "r < json__MAX_DEPTH" "depth (obj t r) = r" "jtype (obj t r) = node_type b"
    "jstate (obj t r) = s" "child_type (obj t r) = json__undefined" "\<not> b \<longrightarrow> child_name_s (obj t r) = 0 \<and> child_name_e (obj t r) = 0"
    using assms(1,3) by (auto simp: level_def unprepared_def json__MAX_DEPTH_def)
  have "\<exists>t'. get_open b' t r i a e = Inr (Go t' (Suc r) i a e) \<and>
    kept t r t' \<and> level t' r b (member_state b) \<and> jcount (obj t' r) = Suc (jcount (obj t r)) \<and>
    node_start t' (Suc r) b' i (if b then a else 0) (if b then e else 0)"
  proof (cases b)
    case True
    then have "s = json__state_object_after_colon" using assms(2) by (simp add: expecting_def)
    then show ?thesis using True st
      by (simp add: get_open_def json__prepare_member_def json__push_def obj_upd Let_def kept_def level_def unprepared_def
          header_def set_state_def node_start_def node_type_def member_state_def body_state_def)
  next
    case False
    then have "s = json__state_array_body \<or> s = json__state_array_after_comma" using assms(2) by (simp add: state_defs)
    then show ?thesis using False st
      by (elim disjE) (simp_all add: get_open_def json__push_def obj_upd Let_def kept_def level_def unprepared_def
          header_def set_state_def node_start_def node_type_def member_state_def body_state_def)
  qed
  then obtain t' where t': "get_open b' t r i a e = Inr (Go t' (Suc r) i a e)" "kept t r t'" "level t' r b (member_state b)"
    "jcount (obj t' r) = Suc (jcount (obj t r))" "node_start t' (Suc r) b' i (if b then a else 0) (if b then e else 0)"
    by blast
  have "get_char t od od stop r i a e = get_open b' t r i a e"
    using assms(4) by (simp add: get_char_def open_char_def)
  then have "json__scan t od od stop r i a e = resume t' od stop (Suc r) (Suc i) a e"
    using scan_Go [OF assms(5)] t'(1) by simp
  also have "\<dots> = json__scan t' od od stop (Suc r) (Suc i) a e"
    using t'(5) assms(6) by (intro resume_quiet level_quiet) (auto simp: node_start_def unfound_def)
  finally show ?thesis using t' by blast
qed

lemma close_scanned:
  assumes "level t (Suc r) b s" "s \<in> {body_state b, member_state b}" "byte t i = Inr (close_char b)" "i < stop"
    and "depth (obj t r) = r" "od \<le> r"
  shows "json__scan t od od stop (Suc r) i a e
    = resume (upd t (Suc r) (\<lambda>ob. ob\<lparr>value_end := i - 1\<rparr>)) od stop r (Suc i) a e"
proof -
  let ?t = "upd t (Suc r) (\<lambda>ob. ob\<lparr>value_end := i - 1\<rparr>)"
  have st: "Suc r < length (stack t)" "depth (obj t (Suc r)) = Suc r" "jstate (obj t (Suc r)) = s"
    using level_length [OF assms(1)] by auto
  then have "depth (obj ?t r) = r" using assms(5) by (simp add: obj_upd)
  then have "get_close b t od (Suc r) i a e = Inr (Go ?t r i a e)"
    using st assms(2,6) by (auto simp: get_close_def json__pop_def state_defs)
  moreover have "get_char t od od stop (Suc r) i a e = get_close b t od (Suc r) i a e"
    using assms(3) by (simp add: get_char_def close_char_def)
  ultimately show ?thesis using scan_Go [OF assms(4)] by simp
qed

text \<open>A value, or the white space and comma or end after one, is followed by a delimiter.\<close>

lemma ws_delimiter: "is_ws c \<Longrightarrow> c \<in> set delimiters"
  by (auto simp: is_ws_def delimiters_def)

lemma close_delimiter: "close_char b \<in> set delimiters"
  by (simp add: close_char_def delimiters_def)

lemma next_delimiter:
  assumes "occurs t i (q @ items ms False)" "list_all is_ws q" "byte t (i + length (q @ items ms False)) = Inr d" "d \<in> set delimiters"
  shows "\<exists>d. byte t i = Inr d \<and> d \<in> set delimiters"
proof (cases q)
  case Nil
  then show ?thesis using assms by (cases ms) (auto simp: delimiters_def)
next
  case (Cons c cs)
  then show ?thesis using assms ws_delimiter by auto
qed

lemma body_then_white:
  assumes "occurs t i (w @ [close_char b])" "list_all is_ws w"
  shows "\<exists>d. byte t i = Inr d \<and> d \<in> set delimiters"
  using assms ws_delimiter close_delimiter by (cases w) auto


text \<open>
  The scan over one value, which ends with the checks for a found member, and the scan over members at
  a level above the one that is asked for.
\<close>

lemma prefix_scanned:
  assumes "level t r b (if first then body_state b else member_state b)" "unfound t od r"
    and "occurs t i ((if first then [] else [CHR '','']) @ p @ key_text key)" "list_all is_ws p" "wf_key b key"
    and "i + length ((if first then [] else [CHR '','']) @ p @ key_text key) \<le> stop" "value_end (obj t od) = stop"
  shows "\<exists>t' a' e' st. json__scan t od od stop r i a e
      = json__scan t' od od stop r (i + length ((if first then [] else [CHR '','']) @ p @ key_text key)) a' e' \<and>
    kept t r t' \<and> level t' r b st \<and> expecting b st \<and> jcount (obj t' r) = jcount (obj t r) \<and>
    span t' (if b then a' else 0) (if b then e' else 0) (key_name key)"
proof -
  define c where "c = (if first then [] else [CHR '',''])"
  have "\<exists>t1 s1. json__scan t od od stop r i a e = json__scan t1 od od stop r (i + length c) a e \<and>
    kept t r t1 \<and> level t1 r b s1 \<and> s1 \<in> {body_state b, comma_state b} \<and> jcount (obj t1 r) = jcount (obj t r)"
  proof (cases first)
    case True
    then show ?thesis using assms(1) by (intro exI [of _ t] exI [of _ "body_state b"]) (simp add: c_def)
  next
    case False
    then have lev: "level t r b (member_state b)" using assms(1) by simp
    have "json__scan t od od stop r i a e = json__scan (upd t r (set_state (comma_state b))) od od stop r (Suc i) a e"
      using False assms(2,3,6) by (intro comma_scanned [OF lev]) auto
    then show ?thesis
      using False level_set_state [OF lev] kept_set_state [OF lev] jcount_set_state [OF lev]
      by (intro exI [of _ "upd t r (set_state (comma_state b))"] exI [of _ "comma_state b"]) (simp add: c_def)
  qed
  then obtain t1 s1 where t1: "json__scan t od od stop r i a e = json__scan t1 od od stop r (i + length c) a e"
    "kept t r t1" "level t1 r b s1" "s1 \<in> {body_state b, comma_state b}" "jcount (obj t1 r) = jcount (obj t r)" by blast
  have un: "unfound t1 od r" using t1(5) assms(2) by (rule unfound_count)
  have od: "od \<le> r" using assms(2) by (simp add: unfound_def)
  have occ: "occurs t1 (i + length c) p" "occurs t1 (i + length c + length p) (key_text key)"
    using assms(3) kept_occurs [OF t1(2)] by (simp_all add: c_def [symmetric])
  have "json__scan t1 od od stop r (i + length c) a e = json__scan t1 od od stop r (i + length c + length p) a e"
    using assms(4,6) occ(1) t1(4) un
    by (intro white_scanned level_quiet [OF t1(3)]) (auto simp: c_def [symmetric])
  note white = t1(1) [unfolded this]
  show ?thesis
  proof (cases key)
    case None
    then have nb: "\<not> b" using assms(5) by (simp add: wf_key_def)
    then have "expecting b s1" using t1(4) by (simp add: expecting_def)
    then show ?thesis
      unfolding c_def [symmetric] using None nb white t1
      by (intro exI [of _ t1] exI [of _ a] exI [of _ e] exI [of _ s1]) (simp add: key_text_def key_name_def add.assoc)
  next
    case (Some k)
    obtain name w1 w2 where k: "key = Some (name, w1, w2)" using Some by (metis surj_pair)
    then have key: "b" "escaped name" "list_all is_ws w1" "list_all is_ws w2" using assms(5) by (auto simp: wf_key_def)
    let ?j = "i + length c + length p"
    have kt: "key_text key = CHR 0x22 # name @ CHR 0x22 # w1 @ CHR '':'' # w2" by (simp add: key_text_def k)
    have lev: "level t1 r True s1" "s1 \<in> {body_state True, comma_state True}" using t1(3,4) key(1) by auto
    have stop: "?j + length (CHR 0x22 # name @ CHR 0x22 # w1 @ CHR '':'' # w2) \<le> stop"
      using assms(6) unfolding c_def [symmetric] kt by simp
    have ve: "value_end (obj t1 od) = stop" using kept_value_end [OF t1(2) od] assms(7) by simp
    obtain t2 where t2: "json__scan t1 od od stop r ?j a e
         = json__scan t2 od od stop r (?j + length (CHR 0x22 # name @ CHR 0x22 # w1 @ CHR '':'' # w2)) (Suc ?j) (Suc ?j + length name)"
       "kept t1 r t2" "level t2 r True json__state_object_after_colon" "jcount (obj t2 r) = jcount (obj t1 r)"
      using key_scanned [OF lev occ(2) [unfolded kt] stop key(2-4) ve un, of a e] by blast
    have "occurs t2 (Suc ?j) (name @ [CHR 0x22])" using occ(2) kept_occurs [OF t2(2)] kept_byte [OF t2(2)] by (simp add: kt)
    then have nm: "span t2 (Suc ?j) (Suc ?j + length name) name" by (rule occurs_span_before)
    have "kept t r t2" using t1(2) t2(2) by (rule kept_trans)
    then show ?thesis
      unfolding c_def [symmetric] kt using white t1(5) t2 key(1) nm k
      by (intro exI [of _ t2] exI [of _ "Suc ?j"] exI [of _ "Suc ?j + length name"] exI [of _ json__state_object_after_colon])
        (simp add: expecting_def key_name_def add.assoc)
  qed
qed

lemma node_scanned:
  assumes "node_start t (Suc r) b' i x y" "depth (obj t r) = r" "od \<le> r"
    and "occurs t i (render (Node b' ms w))" "list_all is_ws w" "i + length (render (Node b' ms w)) \<le> stop"
    and items: "\<exists>t' ns' ne' s'. json__scan t od od stop (Suc r) (Suc i) a e
      = json__scan t' od od stop (Suc r) (Suc i + length (items ms True)) ns' ne' \<and>
      kept t (Suc r) t' \<and> level t' (Suc r) b' s' \<and> s' \<in> {body_state b', member_state b'}"
  shows "\<exists>t' ns' ne'. json__scan t od od stop (Suc r) (Suc i) a e = resume t' od stop r (i + length (render (Node b' ms w))) ns' ne' \<and>
    buf t' = buf t \<and> len t' = len t \<and> length (stack t') = length (stack t) \<and> (\<forall>j < Suc r. obj t' j = obj t j) \<and>
    header (obj t' (Suc r)) = (Suc r, node_type b', x, y, Suc i, i + length (render (Node b' ms w)) - 2) \<and> unprepared t' (Suc r) b'"
proof -
  obtain t1 ns1 ne1 s1 where t1: "json__scan t od od stop (Suc r) (Suc i) a e
      = json__scan t1 od od stop (Suc r) (Suc i + length (items ms True)) ns1 ne1"
      "kept t (Suc r) t1" "level t1 (Suc r) b' s1" "s1 \<in> {body_state b', member_state b'}"
    using items by blast
  define c where "c = Suc i + length (items ms True) + length w"
  have here: "occurs t1 (Suc i + length (items ms True)) w" "byte t1 c = Inr (close_char b')" "c < stop"
      "Suc c = i + length (render (Node b' ms w))"
    using assms(4,6) kept_occurs [OF t1(2)] kept_byte [OF t1(2)] by (simp_all add: c_def add.assoc)
  have "json__scan t1 od od stop (Suc r) (Suc i + length (items ms True)) ns1 ne1 = json__scan t1 od od stop (Suc r) c ns1 ne1"
    unfolding c_def using assms(3,5) here(1,3) t1(4)
    by (intro white_scanned level_quiet [OF t1(3)]) (auto simp: unfound_def c_def)
  also have "\<dots> = resume (upd t1 (Suc r) (\<lambda>ob. ob\<lparr>value_end := c - 1\<rparr>)) od stop r (Suc c) ns1 ne1"
    using t1(2) assms(2,3) here by (intro close_scanned [OF t1(3,4)]) (simp_all add: kept_def)
  finally show ?thesis
    using t1 here(4) assms(1) level_length(1) [OF t1(3)]
    by (intro exI [of _ "upd t1 (Suc r) (\<lambda>ob. ob\<lparr>value_end := c - 1\<rparr>)"] exI [of _ ns1] exI [of _ ne1])
      (auto simp: node_start_def kept_def obj_upd header_def level_def unprepared_def)
qed

lemma wf_nonempty: "wf_doc v k \<Longrightarrow> render v \<noteq> []"
  by (cases v) (auto simp: wf_atom_def is_number_def split: if_splits)

lemma value_scanned:
  "wf_doc v (Suc r) \<Longrightarrow> b \<or> in_array v \<Longrightarrow> occurs t i (render v) \<Longrightarrow>
   byte t (i + length (render v)) = Inr d \<Longrightarrow> d \<in> set delimiters \<Longrightarrow>
   level t r b st \<Longrightarrow> expecting b st \<Longrightarrow> r < json__MAX_DEPTH \<Longrightarrow> od \<le> r \<Longrightarrow>
   value_end (obj t od) = stop \<Longrightarrow> has_room v i stop \<Longrightarrow>
   \<exists>t' ns' ne'. json__scan t od od stop r i a e = resume t' od stop r (i + length (render v)) ns' ne' \<and> added t r b v i a e t'"
  and items_scanned:
  "wf_members ms b (Suc r) \<Longrightarrow> occurs t i (items ms first) \<Longrightarrow>
   byte t (i + length (items ms first)) = Inr d \<Longrightarrow> d \<in> set delimiters \<Longrightarrow>
   level t r b (if first then body_state b else member_state b) \<Longrightarrow> r < json__MAX_DEPTH \<Longrightarrow> od < r \<Longrightarrow>
   value_end (obj t od) = stop \<Longrightarrow> i + length (items ms first) \<le> stop \<Longrightarrow>
   \<exists>t' ns' ne' s'. json__scan t od od stop r i a e = json__scan t' od od stop r (i + length (items ms first)) ns' ne' \<and>
     kept t r t' \<and> level t' r b s' \<and> s' \<in> {body_state b, member_state b}"
proof (induction v and ms arbitrary: t r b i a e d st and t r b i a e d first)
  case (Atom ty s)
  then show ?case by (intro atom_scanned [where st = st]) (auto simp: in_array_def)
next
  case (Node b' ms w)
  note prems = Node.prems
  have len: "i + length (render (Node b' ms w)) \<le> stop" "i < stop" using prems(11) by (auto simp: has_room_def)
  have occ: "byte t i = Inr (open_char b')" using prems(3) by simp
  obtain t1 where t1: "json__scan t od od stop r i a e = json__scan t1 od od stop (Suc r) (Suc i) a e"
      "kept t r t1" "level t1 r b (member_state b)" "jcount (obj t1 r) = Suc (jcount (obj t r))"
      "node_start t1 (Suc r) b' i (if b then a else 0) (if b then e else 0)"
    using open_scanned [OF prems(6,7,8) occ len(2) prems(9)] by blast
  have occ1: "occurs t1 i (render (Node b' ms w))" using prems(3) kept_occurs [OF t1(2)] by blast
  have wf: "Suc r < json__MAX_DEPTH" "wf_members ms b' (Suc (Suc r))" "list_all is_ws w" using prems(1) by auto
  obtain d1 where d1: "byte t1 (Suc i + length (items ms True)) = Inr d1" "d1 \<in> set delimiters"
    using body_then_white [of t1 "Suc i + length (items ms True)" w b'] occ1 wf(3) by auto
  have lev: "level t1 (Suc r) b' (if True then body_state b' else member_state b')" using t1(5) by (simp add: node_start_def)
  have "value_end (obj t1 od) = stop" using kept_value_end [OF t1(2) prems(9)] prems(10) by simp
  then have items: "\<exists>t' ns' ne' s'. json__scan t1 od od stop (Suc r) (Suc i) a e
      = json__scan t' od od stop (Suc r) (Suc i + length (items ms True)) ns' ne' \<and>
      kept t1 (Suc r) t' \<and> level t' (Suc r) b' s' \<and> s' \<in> {body_state b', member_state b'}"
    using Node.IH [OF wf(2) _ d1 lev wf(1)] occ1 len(1) prems(9) by simp
  have dep: "depth (obj t1 r) = r" using t1(3) level_length(4) by blast
  obtain t2 ns2 ne2 where t2: "json__scan t1 od od stop (Suc r) (Suc i) a e
        = resume t2 od stop r (i + length (render (Node b' ms w))) ns2 ne2"
      "buf t2 = buf t1 \<and> len t2 = len t1 \<and> length (stack t2) = length (stack t1) \<and> (\<forall>j < Suc r. obj t2 j = obj t1 j)"
      "header (obj t2 (Suc r)) = (Suc r, node_type b', if b then a else 0, if b then e else 0, Suc i, i + length (render (Node b' ms w)) - 2)"
      "unprepared t2 (Suc r) b'"
    using node_scanned [OF t1(5) dep prems(9) occ1 wf(3) len(1) items] by blast
  have "added t r b (Node b' ms w) i a e t2"
    using t1(2-4) t2(2-4)
    by (simp add: added_def found_member_def value_from_def value_to_def kept_def level_def unprepared_def)
  then show ?case using t1(1) t2(1) by auto
next
  case No_more
  then show ?case
    by (intro exI [of _ t] exI [of _ a] exI [of _ e] exI [of _ "if first then body_state b else member_state b"]) simp
next
  case (Member p key v q ms)
  note prems = Member.prems
  let ?pre = "(if first then [] else [CHR '','']) @ p @ key_text key"
  have od: "od \<le> r" using prems(7) by simp
  have un: "unfound u od r" for u using prems(7) by (simp add: unfound_def)
  have wf: "list_all is_ws p" "wf_key b key" "wf_doc v (Suc r)" "b \<or> in_array v" "list_all is_ws q" "wf_members ms b (Suc r)"
    using prems(1) by auto
  have split: "items (Member p key v q ms) first = ?pre @ render v @ q @ items ms False" by simp
  define j where "j = i + length ?pre"
  define j2 where "j2 = j + length (render v)"
  have j3: "j2 + length q + length (items ms False) = i + length (items (Member p key v q ms) first)"
    unfolding split j_def j2_def by (simp add: add.assoc)
  have occ: "occurs t i ?pre" "occurs t j (render v)" "occurs t j2 (q @ items ms False)"
    using prems(2) unfolding split j_def j2_def by (simp_all add: add.assoc)
  have last: "byte t (j2 + length (q @ items ms False)) = Inr d" using prems(3) j3 by (simp add: add.assoc)
  obtain d1 where d1: "byte t j2 = Inr d1" "d1 \<in> set delimiters"
    using next_delimiter [OF occ(3) wf(5) last prems(4)] by blast
  have stops: "i + length ?pre \<le> stop" "j2 \<le> stop" "j < stop" "j2 + length q \<le> stop"
    using prems(9) j3 wf_nonempty [OF wf(3)] unfolding j_def j2_def by (cases "render v"; simp)+
  obtain t1 a1 e1 st where t1: "json__scan t od od stop r i a e = json__scan t1 od od stop r j a1 e1"
      "kept t r t1" "level t1 r b st" "expecting b st"
    using prefix_scanned [OF prems(5) un occ(1) wf(1,2) stops(1) prems(8), of a e] unfolding j_def by blast
  have at1: "occurs t1 j (render v)" "byte t1 (j + length (render v)) = Inr d1" "value_end (obj t1 od) = stop" "has_room v j stop"
    using occ(2) d1(1) stops kept_occurs [OF t1(2)] kept_byte [OF t1(2)] kept_value_end [OF t1(2) od] prems(8)
    by (auto simp: j2_def has_room_def split: doc.splits)
  obtain t2 a2 e2 where t2: "json__scan t1 od od stop r j a1 e1 = resume t2 od stop r j2 a2 e2" "added t1 r b v j a1 e1 t2"
    using Member.IH(1) [OF wf(3,4) at1(1,2) d1(2) t1(3,4) prems(6) od at1(3,4)] unfolding j2_def by blast
  have t2': "kept t1 r t2" "level t2 r b (member_state b)" using t2(2) by (auto simp: added_def)
  have kept2: "kept t r t2" using t1(2) t2'(1) by (rule kept_trans)
  have quiet: "quiet t2 od r" using t2'(2) un by (rule level_quiet) simp
  have at2: "occurs t2 j2 q" "occurs t2 (j2 + length q) (items ms False)" "byte t2 (j2 + length q + length (items ms False)) = Inr d"
      "value_end (obj t2 od) = stop"
    using occ(3) last kept_occurs [OF kept2] kept_byte [OF kept2] kept_value_end [OF kept2 od] prems(8) by (simp_all add: add.assoc)
  have scan2: "json__scan t od od stop r i a e = json__scan t2 od od stop r (j2 + length q) a2 e2"
    unfolding t1(1) t2(1) resume_quiet [OF quiet] by (rule white_scanned [OF wf(5) at2(1) stops(4) quiet])
  have lev2: "level t2 r b (if False then body_state b else member_state b)" using t2'(2) by simp
  have room: "j2 + length q + length (items ms False) \<le> stop" unfolding j3 by (rule prems(9))
  obtain t3 a3 e3 s3 where t3: "json__scan t2 od od stop r (j2 + length q) a2 e2
        = json__scan t3 od od stop r (j2 + length q + length (items ms False)) a3 e3"
      "kept t2 r t3" "level t3 r b s3" "s3 \<in> {body_state b, member_state b}"
    using Member.IH(2) [OF wf(6) at2(2,3) prems(4) lev2 prems(6,7) at2(4) room] by blast
  have "kept t r t3" using kept2 t3(2) by (rule kept_trans)
  then show ?case using scan2 t3 unfolding j3 by metis
qed



section \<open>The next member\<close>

text \<open>
  An object whose remaining members are written from a position on; the scan for the next one reads up
  to the character before its end.
\<close>

definition reading :: "tree \<Rightarrow> nat \<Rightarrow> bool \<Rightarrow> string \<Rightarrow> members \<Rightarrow> bool \<Rightarrow> string \<Rightarrow> nat \<Rightarrow> bool" where
  "reading t k b g ms first w i \<longleftrightarrow> length (stack t) = 22 \<and> k < json__MAX_DEPTH \<and> depth (obj t k) = k \<and>
     jtype (obj t k) = node_type b \<and> unprepared t k b \<and> (\<not> first \<longrightarrow> jstate (obj t k) = member_state b) \<and>
     list_all is_ws g \<and> occurs t i (g @ items ms first @ w @ [close_char b]) \<and>
     Suc (value_end (obj t k)) = i + length g + length (items ms first) + length w \<and>
     get_start t k (if first then None else Some (Suc k)) = i"

lemma get_next_scan:
  assumes "reading t k b g ms first w i"
  shows "\<exists>t2. json__get_next t k (if first then None else Some (Suc k)) = json__scan t2 k k (value_end (obj t k)) k i 0 0 \<and>
    kept t k t2 \<and> level t2 k b (if first then body_state b else member_state b) \<and> jcount (obj t2 k) = 0"
proof -
  let ?child = "if first then None else Some (Suc k)"
  have st: "length (stack t) = 22" "k < length (stack t)" "k < json__MAX_DEPTH" "depth (obj t k) = k" "jtype (obj t k) = node_type b"
      "\<not> first \<longrightarrow> jstate (obj t k) = member_state b" "get_start t k ?child = i" "unprepared t k b"
    using assms by (auto simp: reading_def json__MAX_DEPTH_def)
  define t1 where "t1 = (if first then upd t k (set_state (body_state b)) else t)"
  define t2 where "t2 = upd (upd t1 k (\<lambda>r. r\<lparr>jcount := 0\<rparr>)) k (\<lambda>r. r\<lparr>jcount := 0\<rparr>)"
  have t1: "length (stack t1) = 22" "kept t k t1" "level t1 k b (if first then body_state b else member_state b)" "get_start t1 k ?child = i"
    using st by (auto simp: t1_def kept_upd header_def set_state_def level_def unprepared_def obj_upd json__MAX_DEPTH_def get_start_def)
  have t2: "kept t1 k t2" "level t2 k b (if first then body_state b else member_state b)" "jcount (obj t2 k) = 0"
    using t1(1,3) st by (auto simp: t2_def kept_def header_def level_def unprepared_def obj_upd)
  have "kept t k t2" using t1(2) t2(1) by (rule kept_trans)
  then have ve: "value_end (obj t2 k) = value_end (obj t k)" by (rule kept_value_end) simp
  have "json__get_next t k ?child = json__get (upd t1 k (\<lambda>r. r\<lparr>jcount := 0\<rparr>)) k ?child"
    using st(5) by (auto simp: json__get_next_def t1_def state_defs)
  also have "\<dots> = json__scan t2 k k (value_end (obj t k)) k i 0 0"
    using t1 st ve by (auto simp: json__get_def t2_def obj_upd level_def get_start_def split: option.splits)
  finally show ?thesis using \<open>kept t k t2\<close> t2 by blast
qed

lemma scan_stops:
  assumes "\<not> i < stop" "quiet t od r"
  shows "json__scan t od od stop r i a e = Inr (t, None)"
  using assms by (subst json__scan.simps) (auto simp: quiet_def unfound_def)

lemma next_none:
  assumes "reading t k b g No_more first w i" "list_all is_ws w"
  shows "\<exists>t'. json__get_next t k (if first then None else Some (Suc k)) = Inr (t', None) \<and> kept t k t'"
proof -
  let ?stop = "value_end (obj t k)"
  obtain t2 where t2: "json__get_next t k (if first then None else Some (Suc k)) = json__scan t2 k k ?stop k i 0 0"
      "kept t k t2" "level t2 k b (if first then body_state b else member_state b)" "jcount (obj t2 k) = 0"
    using get_next_scan [OF assms(1)] by blast
  have quiet: "quiet t2 k k" using t2(3) by (rule level_quiet) (simp_all add: unfound_def t2(4))
  have i: "Suc ?stop = i + length (g @ w)" "occurs t2 i (g @ w)" "list_all is_ws (g @ w)"
    using assms kept_occurs [OF t2(2)] by (simp_all add: reading_def)
  have "json__scan t2 k k ?stop k i 0 0 = Inr (t2, None)"
  proof (cases "g @ w" rule: rev_cases)
    case Nil
    then show ?thesis using i(1) quiet unfolding Nil by (intro scan_stops) auto
  next
    case (snoc w' c)
    have "json__scan t2 k k ?stop k i 0 0 = json__scan t2 k k ?stop k (i + length w') 0 0"
      using i quiet unfolding snoc by (intro white_scanned) auto
    also have "\<dots> = Inr (t2, None)" using i(1) quiet unfolding snoc by (intro scan_stops) auto
    finally show ?thesis .
  qed
  then show ?thesis using t2(1,2) by auto
qed


text \<open>Where a found member says the next scan is to start.\<close>

lemma doc_types: "wf_doc v k \<Longrightarrow> (doc_type v \<in> {json__object, json__object_array}) = (case v of Atom ty s \<Rightarrow> False | Node b ms w \<Rightarrow> True)"
  by (cases v) (auto simp: wf_atom_def node_type_def)

lemma get_start_after:
  assumes "found_member t r b v j a e" "wf_doc v k'"
  shows "get_start t k (Some r) = j + length (render v)"
proof (cases v)
  case (Atom ty s)
  then show ?thesis
    using assms by (auto simp: found_member_def header_def get_start_def value_to_def wf_atom_def)
next
  case (Node b' ms w)
  then show ?thesis
    using assms by (simp add: found_member_def header_def get_start_def value_to_def node_type_def)
qed

lemma last_room:
  assumes "last_found (Member p key v q ms) w" "wf_doc v k"
    and "Suc stop = j + length (render v) + length (q @ items ms False @ w)"
  shows "has_room v j stop"
proof -
  consider (more) "q @ items ms False @ w \<noteq> []" | (last) "q @ items ms False @ w = []" "readable_last v"
    using assms(1) by (cases ms) auto
  then show ?thesis
  proof cases
    case more
    then have "Suc (j + length (render v)) \<le> Suc stop" unfolding assms(3) by (cases "q @ items ms False @ w") auto
    then show ?thesis using wf_nonempty [OF assms(2)] by (cases "render v") (auto simp: has_room_def split: doc.splits)
  next
    case last
    then show ?thesis using assms(3) by (auto simp: readable_last_def has_room_def split: doc.splits if_splits)
  qed
qed

lemma next_found:
  assumes "reading t k b g (Member p key v q ms) first w i" "wf_members (Member p key v q ms) b (Suc k)"
    and "last_found (Member p key v q ms) w" "list_all is_ws w"
  shows "\<exists>t' j a e. json__get_next t k (if first then None else Some (Suc k)) = Inr (t', Some (Suc k)) \<and>
    j = i + length g + length ((if first then [] else [CHR '','']) @ p @ key_text key) \<and> kept t k t' \<and> found_member t' (Suc k) b v j a e \<and> span t' (if b then a else 0) (if b then e else 0) (key_name key) \<and>
    occurs t' j (render v) \<and> reading t' k b q ms False w (j + length (render v))"
proof -
  let ?stop = "value_end (obj t k)"
  let ?pre = "(if first then [] else [CHR '','']) @ p @ key_text key"
  obtain t2 where t2: "json__get_next t k (if first then None else Some (Suc k)) = json__scan t2 k k ?stop k i 0 0"
      "kept t k t2" "level t2 k b (if first then body_state b else member_state b)" "jcount (obj t2 k) = 0"
    using get_next_scan [OF assms(1)] by blast
  have un: "unfound t2 k k" by (simp add: unfound_def t2(4))
  have k: "k < json__MAX_DEPTH" using assms(1) by (simp add: reading_def)
  have wf: "list_all is_ws p" "wf_key b key" "wf_doc v (Suc k)" "b \<or> in_array v" "list_all is_ws q" "wf_members ms b (Suc k)"
    using assms(2) by auto
  define i1 where "i1 = i + length g"
  define j where "j = i1 + length ?pre"
  define j2 where "j2 = j + length (render v)"
  have split: "items (Member p key v q ms) first = ?pre @ render v @ q @ items ms False" by simp
  have end_at: "Suc ?stop = j2 + length (q @ items ms False @ w)"
    using assms(1) unfolding reading_def split i1_def j_def j2_def by (simp add: add.assoc)
  have occ: "occurs t i1 ?pre" "occurs t j (render v)" "occurs t j2 (q @ items ms False @ w @ [close_char b])"
    using assms(1) unfolding reading_def split i1_def j_def j2_def by (simp_all add: add.assoc)
  obtain d where d: "byte t j2 = Inr d" "d \<in> set delimiters"
  proof -
    obtain d' where "byte t (j2 + length (q @ items ms False)) = Inr d'" "d' \<in> set delimiters"
      using body_then_white [of t "j2 + length (q @ items ms False)" w b] assms(4) occ(3) by (auto simp: add.assoc)
    then show ?thesis using next_delimiter [of t j2 q ms d'] occ(3) wf(5) that by auto
  qed
  have room: "has_room v j ?stop" using last_room [OF assms(3) wf(3)] end_at unfolding j2_def .
  have ve2: "value_end (obj t2 k) = ?stop" using kept_value_end [OF t2(2), of k] by simp
  have pre_stop: "i1 + length ?pre \<le> ?stop" using room unfolding j_def has_room_def by simp
  have occ2: "occurs t2 i1 ?pre" using occ(1) kept_occurs [OF t2(2)] by blast
  have white: "json__scan t2 k k ?stop k i 0 0 = json__scan t2 k k ?stop k i1 0 0"
    unfolding i1_def using assms(1) kept_occurs [OF t2(2)] pre_stop un
    by (intro white_scanned level_quiet [OF t2(3)]) (auto simp: reading_def i1_def)
  obtain t3 a e st where t3: "json__scan t2 k k ?stop k i1 0 0 = json__scan t3 k k ?stop k j a e" "kept t2 k t3" "level t3 k b st"
      "expecting b st" "jcount (obj t3 k) = jcount (obj t2 k)" "span t3 (if b then a else 0) (if b then e else 0) (key_name key)"
    using prefix_scanned [OF t2(3) un occ2 wf(1,2) pre_stop ve2, of 0 0] unfolding j_def by blast
  have kept3: "kept t k t3" using t2(2) t3(2) by (rule kept_trans)
  have at3: "occurs t3 j (render v)" "byte t3 (j + length (render v)) = Inr d" "value_end (obj t3 k) = ?stop"
    using occ(2) d(1) kept_occurs [OF kept3] kept_byte [OF kept3] kept_value_end [OF kept3, of k] by (simp_all add: j2_def)
  obtain t4 a4 e4 where t4: "json__scan t3 k k ?stop k j a e = resume t4 k ?stop k j2 a4 e4" "added t3 k b v j a e t4"
    using value_scanned [OF wf(3,4) at3(1,2) d(2) t3(3,4) k order.refl at3(3) room] unfolding j2_def by blast
  have t4': "kept t3 k t4" "level t4 k b (member_state b)" "jcount (obj t4 k) = 1" "found_member t4 (Suc k) b v j a e"
    using t4(2) t3(5) t2(4) by (simp_all add: added_def)
  have kept4: "kept t k t4" using kept3 t4'(1) by (rule kept_trans)
  have "json__get_next t k (if first then None else Some (Suc k)) = Inr (t4, Some (Suc k))"
    unfolding t2(1) white t3(1) t4(1) using level_length(4) [OF t4'(2)] t4'(3) by (rule resume_found)
  moreover have "span t4 (if b then a else 0) (if b then e else 0) (key_name key)"
    using t3(6) span_same [OF kept_buf [OF t4'(1)]] by blast
  moreover have "occurs t4 j (render v)" using occ(2) kept_occurs [OF kept4] by blast
  moreover have "reading t4 k b q ms False w (j + length (render v))"
    using t4'(2) k wf(5) end_at occ(3) kept_occurs [OF kept4] kept_byte [OF kept4] kept_value_end [OF kept4, of k] get_start_after [OF t4'(4) wf(3)]
    by (simp add: reading_def level_def j2_def add.assoc)
  moreover have "j = i + length g + length ?pre" by (simp only: j_def i1_def)
  ultimately show ?thesis using kept4 t4'(4) by blast
qed

end
