(* ===== verification/JsonVisit.thy ===== *)
theory JsonVisit
  imports JsonWalk
begin

text \<open>
  The whole reader of \<open>tools/build.c\<close> on a document: parsing its text and walking through it calls the
  callback for every member, after the members inside it, with the names and types on the way to it.
\<close>

section \<open>What a callback sees\<close>

text \<open>
  The types, names and places from the root down to a member, and the text of its value; none where
  its end is before its start.
\<close>

type_synonym path = "(jtype \<times> string \<times> nat) list"
type_synonym view = "path \<times> string option"

definition name_at :: "tree \<Rightarrow> nat \<Rightarrow> jtype \<times> string \<times> nat" where
  "name_at t j = (jtype (obj t j), excerpt t (name_start (obj t j)) (name_end (obj t j)), value_start (obj t j))"

definition value_at :: "tree \<Rightarrow> nat \<Rightarrow> string option" where
  "value_at t k = (if value_end (obj t k) < value_start (obj t k) then None
     else Some (excerpt t (value_start (obj t k)) (value_end (obj t k))))"

definition view :: "tree \<Rightarrow> nat \<Rightarrow> view" where
  "view t k = (map (name_at t) [1..<Suc k], value_at t k)"

text \<open>The objects a callback can be called for: linked, with names and values inside the text.\<close>

definition names_inside :: "tree \<Rightarrow> nat \<Rightarrow> bool" where
  "names_inside t k \<longleftrightarrow> (\<forall>j \<in> {1..k}. name_start (obj t j) \<le> name_end (obj t j) \<and> name_end (obj t j) \<le> length (buf t) \<and>
     CHR 0x00 \<notin> set (excerpt t (name_start (obj t j)) (name_end (obj t j))))"

definition visible :: "tree \<Rightarrow> nat \<Rightarrow> bool" where
  "visible t k \<longleftrightarrow> length (stack t) = 22 \<and> 1 \<le> k \<and> k \<le> 20 \<and> depth (obj t k) = k \<and> names_inside t k \<and>
     value_end (obj t k) \<le> length (buf t)"

text \<open>The value of an object or array is what is between its braces, without the last character.\<close>

definition inside :: "members \<Rightarrow> string \<Rightarrow> string option" where
  "inside ms w = (let s = items ms True @ w in if s = [] then None else Some (butlast s))"

text \<open>The views of the members of a document in the order of the walk.\<close>

primrec nodes :: "doc \<Rightarrow> nat \<Rightarrow> path \<Rightarrow> string \<Rightarrow> view list"
  and member_nodes :: "members \<Rightarrow> bool \<Rightarrow> nat \<Rightarrow> path \<Rightarrow> view list" where
  "nodes (Atom ty s) i path nm = [(path @ [(ty, nm, value_from (Atom ty s) i)], Some s)]"
| "nodes (Node b ms w) i path nm =
     member_nodes ms True (Suc i) (path @ [(node_type b, nm, Suc i)]) @ [(path @ [(node_type b, nm, Suc i)], inside ms w)]"
| "member_nodes No_more first i path = []"
| "member_nodes (Member p key v q ms) first i path =
     nodes v (i + length ((if first then [] else [CHR '','']) @ p @ key_text key)) path (key_name key) @
     member_nodes ms False (i + length ((if first then [] else [CHR '','']) @ p @ key_text key) + length (render v) + length q) path"

text \<open>The calls of a callback one after the other, until one returns an error.\<close>

primrec visit_views :: "(view \<Rightarrow> 'x \<Rightarrow> ('x \<times> int) run c) \<Rightarrow> view list \<Rightarrow> 'x \<Rightarrow> ('x \<times> int) run c" where
  "visit_views f [] x = Inr (Returns (x, 0))"
| "visit_views f (v # vs) x = bind_r (f v x) (\<lambda>(x', r). if r \<noteq> 0 then Inr (Returns (x', r)) else visit_views f vs x')"

lemma bind_r_assoc: "bind_r (bind_r r f) g = bind_r r (\<lambda>x. bind_r (f x) g)"
proof (cases r)
  case (Inr q)
  then show ?thesis by (cases q) simp_all
qed simp

lemma bind_r_cong: "(\<And>x. f x = g x) \<Longrightarrow> bind_r r f = bind_r r g"
  by (metis ext)

lemma visit_views_append:
  "visit_views f (us @ vs) x = bind_r (visit_views f us x) (\<lambda>(x', r). if r \<noteq> 0 then Inr (Returns (x', r)) else visit_views f vs x')"
proof (induction us arbitrary: x)
  case (Cons u us)
  show ?case unfolding append_Cons visit_views.simps bind_r_assoc by (rule bind_r_cong) (auto simp: Cons)
qed simp

text \<open>
  A walk does what the calls do: it ends the same way, and where it returns without an error the tree
  it leaves has the property.
\<close>

definition walks :: "(tree \<times> 'x \<times> int) run c \<Rightarrow> ('x \<times> int) run c \<Rightarrow> (tree \<Rightarrow> bool) \<Rightarrow> bool" where
  "walks w c P \<longleftrightarrow> (case c of
       Inr (Returns (x', r)) \<Rightarrow> \<exists>t'. w = Inr (Returns (t', x', r)) \<and> (r = 0 \<longrightarrow> P t')
     | Inr Exits \<Rightarrow> w = Inr Exits | Inr Runs_on \<Rightarrow> w = Inr Runs_on | Inl e \<Rightarrow> w = Inl e)"

lemma walks_simps [simp]:
  "walks w (Inr (Returns (x', r))) P \<longleftrightarrow> (\<exists>t'. w = Inr (Returns (t', x', r)) \<and> (r = 0 \<longrightarrow> P t'))"
  "walks w (Inr Exits) P \<longleftrightarrow> w = Inr Exits" "walks w (Inr Runs_on) P \<longleftrightarrow> w = Inr Runs_on" "walks w (Inl e) P \<longleftrightarrow> w = Inl e"
  by (simp_all add: walks_def)

lemma walk_cases:
  fixes c :: "('x \<times> int) run c"
  obtains (error) e where "c = Inl e" | (exits) "c = Inr Exits" | (runs) "c = Inr Runs_on" | (returns) x' r where "c = Inr (Returns (x', r))"
  by (metis old.prod.exhaust run.exhaust sum.exhaust)

lemma walks_bind:
  assumes "walks w c P" "\<And>t' x'. P t' \<Longrightarrow> walks (g t' x') (h x') Q"
  shows "walks (bind_r w (\<lambda>(t', x', r). if r \<noteq> 0 then Inr (Returns (t', x', r)) else g t' x'))
    (bind_r c (\<lambda>(x', r). if r \<noteq> 0 then Inr (Returns (x', r)) else h x')) Q"
  using assms(1) by (cases c rule: walk_cases) (auto intro: assms(2))

lemma walks_callback:
  assumes "cb t k x = f (view t k) x" "P t"
  shows "walks (bind_r (cb t k x) (\<lambda>(x', r). Inr (Returns (t, x', r)))) (visit_views f [view t k] x) P"
  using assms by (cases "f (view t k) x" rule: walk_cases) auto

section \<open>The walk\<close>

text \<open>A member the reader has just found, and the fuel its walk needs.\<close>

definition member_at :: "tree \<Rightarrow> nat \<Rightarrow> doc \<Rightarrow> nat \<Rightarrow> path \<Rightarrow> string \<Rightarrow> bool" where
  "member_at t k v i path nm \<longleftrightarrow> length (stack t) = 22 \<and> 1 \<le> k \<and> k \<le> 20 \<and> names_inside t k \<and>
     map (name_at t) [1..<k] = path \<and> CHR 0x00 \<notin> set nm \<and>
     (\<exists>a e. header (obj t k) = (k, doc_type v, a, e, value_from v i, value_to v i) \<and> span t a e nm) \<and>
     (case v of Atom ty s \<Rightarrow> True | Node b ms w \<Rightarrow> unprepared t k b) \<and> occurs t i (render v)"

primrec fuel_doc :: "doc \<Rightarrow> nat" and fuel_members :: "members \<Rightarrow> nat" where
  "fuel_doc (Atom ty s) = 1"
| "fuel_doc (Node b ms w) = Suc (fuel_members ms)"
| "fuel_members No_more = 1"
| "fuel_members (Member p key v q ms) = Suc (max (fuel_doc v) (fuel_members ms))"

lemma kept_names:
  assumes "kept t k t'"
  shows "names_inside t' k = names_inside t k" "map (name_at t') [1..<Suc k] = map (name_at t) [1..<Suc k]"
    "value_at t' k = value_at t k" "value_end (obj t' k) = value_end (obj t k)" "buf t' = buf t"
proof -
  have "name_start (obj t' j) = name_start (obj t j) \<and> name_end (obj t' j) = name_end (obj t j) \<and> jtype (obj t' j) = jtype (obj t j) \<and>
      value_start (obj t' j) = value_start (obj t j)"
    if "j \<le> k" for j
    using assms that by (cases "j = k") (auto simp: kept_def header_def)
  moreover have "buf t' = buf t" using assms by (rule kept_buf)
  ultimately show "names_inside t' k = names_inside t k" "map (name_at t') [1..<Suc k] = map (name_at t) [1..<Suc k]"
    by (auto simp: names_inside_def name_at_def excerpt_def simp del: upt_Suc)
  show "value_at t' k = value_at t k" "value_end (obj t' k) = value_end (obj t k)" "buf t' = buf t"
    using assms by (auto simp: value_at_def excerpt_def kept_def header_def)
qed

lemma member_at_view:
  assumes "member_at t k v i path nm"
  shows "map (name_at t) [1..<Suc k] = path @ [(doc_type v, nm, value_from v i)]"
  using assms by (auto simp: member_at_def name_at_def header_def span_def)

lemma atom_view:
  assumes "member_at t k (Atom ty s) i path nm" "wf_atom ty s"
  shows "view t k = (path @ [(ty, nm, value_from (Atom ty s) i)], Some s)" "visible t k"
proof -
  have ob: "jtype (obj t k) = ty" "value_start (obj t k) = value_from (Atom ty s) i" "value_end (obj t k) = value_to (Atom ty s) i" "depth (obj t k) = k"
    using assms(1) by (auto simp: member_at_def header_def)
  have "span t (value_from (Atom ty s) i) (value_to (Atom ty s) i) s"
  proof (cases "ty = json__string")
    case True
    then have "occurs t (Suc i) (s @ [CHR 0x22])" using assms(1) by (simp add: member_at_def)
    then show ?thesis using occurs_span_before True by (fastforce simp: value_from_def value_to_def)
  next
    case False
    then show ?thesis using assms(1) wf_nonempty [of "Atom ty s" k] assms(2)
      by (auto simp: member_at_def value_from_def value_to_def intro!: occurs_span)
  qed
  then show "view t k = (path @ [(ty, nm, value_from (Atom ty s) i)], Some s)" "visible t k"
    using assms(1) member_at_view [OF assms(1)] ob by (auto simp: view_def value_at_def visible_def span_def member_at_def)
qed


text \<open>An object or array in the middle of its walk: the members before \<open>ms\<close> have been visited.\<close>

definition node_at :: "tree \<Rightarrow> nat \<Rightarrow> path \<Rightarrow> string option \<Rightarrow> bool" where
  "node_at t k path val \<longleftrightarrow> 1 \<le> k \<and> names_inside t k \<and> map (name_at t) [1..<Suc k] = path \<and>
     value_at t k = val \<and> value_end (obj t k) \<le> length (buf t)"

lemma kept_node_at: "kept t k t' \<Longrightarrow> node_at t k path val \<Longrightarrow> node_at t' k path val"
  unfolding node_at_def by (simp only: kept_names)

lemma kept_Suc: "kept t (Suc k) t' \<Longrightarrow> kept t k t'"
  by (simp add: kept_def)

lemma kept_reading:
  assumes "kept t (Suc k) t'" "reading t k b g ms False w i"
  shows "reading t' k b g ms False w i"
  using assms by (auto simp: reading_def kept_def header_def unprepared_def get_start_def kept_occurs [OF assms(1)] kept_byte [OF assms(1)])

lemma node_view:
  assumes "reading t k b g ms first w i" "node_at t k path val"
  shows "view t k = (path, val)" "visible t k"
  using assms by (auto simp: reading_def node_at_def view_def visible_def json__MAX_DEPTH_def simp del: upt_Suc)

lemma kept_view:
  assumes "kept t k t'" "visible t k"
  shows "view t' k = view t k" "visible t' k"
  using assms kept_names [OF assms(1)] kept_depth [OF assms(1) order.refl]
  by (auto simp: view_def visible_def kept_def simp del: upt_Suc)

lemma key_name_no_zero: "wf_key b key \<Longrightarrow> CHR 0x00 \<notin> set (key_name key)"
  by (auto simp: wf_key_def key_name_def escaped_no_zero split: option.splits)

lemma found_member_at:
  assumes "node_at t' k path val" "found_member t' (Suc k) b v j a e" "occurs t' j (render v)"
    and "span t' (if b then a else 0) (if b then e else 0) nm" "length (stack t') = 22" "k < json__MAX_DEPTH"
    and "CHR 0x00 \<notin> set nm"
  shows "member_at t' (Suc k) v j path nm"
  unfolding member_at_def
proof (intro conjI)
  show "names_inside t' (Suc k)"
    using assms(1,2,4,7) by (auto simp: node_at_def names_inside_def found_member_def header_def span_def le_Suc_eq split: if_splits)
  show "\<exists>a e. header (obj t' (Suc k)) = (Suc k, doc_type v, a, e, value_from v j, value_to v j) \<and> span t' a e nm"
    using assms(2,4) by (auto simp: found_member_def)
qed (use assms in \<open>auto simp: node_at_def found_member_def json__MAX_DEPTH_def\<close>)

lemma member_reading:
  assumes "member_at t k (Node b ms w) i path nm" "wf_doc (Node b ms w) k"
  shows "reading t k b [] ms True w (Suc i)" "node_at t k (path @ [(node_type b, nm, Suc i)]) (inside ms w)"
proof -
  have "Suc (value_to (Node b ms w) i) = Suc i + length (items ms True) + length w" by (simp add: value_to_def)
  then show "reading t k b [] ms True w (Suc i)"
    using assms by (auto simp: member_at_def reading_def header_def get_start_def value_from_def)
  have ob: "value_start (obj t k) = Suc i" "value_end (obj t k) = i + length (items ms True @ w)"
    using assms(1) by (auto simp: member_at_def header_def value_from_def value_to_def)
  have "value_at t k = inside ms w \<and> value_end (obj t k) \<le> length (buf t)"
  proof (cases "items ms True @ w" rule: rev_cases)
    case Nil
    have "byte t i = Inr (open_char b)" using assms(1) by (simp add: member_at_def)
    then have "i < length (buf t)" by (simp add: byte_def split: if_splits)
    then show ?thesis using ob unfolding Nil by (simp add: value_at_def inside_def Nil del: append_is_Nil_conv)
  next
    case (snoc u c)
    have "occurs t (Suc i) (items ms True @ w)" using assms(1) by (simp add: member_at_def)
    then have "span t (Suc i) (Suc i + length u) u" unfolding snoc by (rule occurs_span_before)
    then show ?thesis using ob unfolding snoc by (simp add: value_at_def inside_def snoc span_def del: append_is_Nil_conv)
  qed
  then show "node_at t k (path @ [(node_type b, nm, Suc i)]) (inside ms w)"
    using member_at_view [OF assms(1)] assms(1) by (simp add: node_at_def member_at_def value_from_def del: upt_Suc)
qed

text \<open>The walk over a found member, and over the remaining members of an object and the object itself.\<close>

lemma member_walked:
  "\<forall>t k x. visible t k \<longrightarrow> cb t k x = f (view t k) x \<Longrightarrow> member_at t k v i path nm \<Longrightarrow> wf_doc v k \<Longrightarrow> fuel_doc v \<le> n \<Longrightarrow>
   walks (json__visitor n cb t k x) (visit_views f (nodes v i path nm) x) (kept t k)"
  and members_walked:
  "\<forall>t k x. visible t k \<longrightarrow> cb t k x = f (view t k) x \<Longrightarrow> reading t k b g ms first w i \<Longrightarrow> node_at t k path val \<Longrightarrow>
   wf_members ms b (Suc k) \<Longrightarrow> last_found ms w \<Longrightarrow> list_all is_ws w \<Longrightarrow> fuel_members ms \<le> n \<Longrightarrow>
   walks (bind_r (returns (json__get_next t k (if first then None else Some (Suc k)))) (\<lambda>(t1, child). visit_members n cb t1 k child x))
     (visit_views f (member_nodes ms first (i + length g) path @ [(path, val)]) x) (kept t k)"
proof (induction v and ms arbitrary: t k i path nm n x and t k b g first w i path val n x)
  case (Atom ty s)
  obtain m where n: "n = Suc m" using Atom.prems(4) by (cases n) auto
  have ty: "ty \<noteq> json__object" "ty \<noteq> json__object_array" using Atom.prems(3) by (auto simp: wf_atom_def)
  have "jtype (obj t k) = ty" using Atom.prems(2) by (auto simp: member_at_def header_def)
  moreover have "view t k = (path @ [(ty, nm, value_from (Atom ty s) i)], Some s)" "visible t k" using atom_view [OF Atom.prems(2)] Atom.prems(3) by simp_all
  ultimately show ?case
    using walks_callback [of cb t k x f "kept t k"] Atom.prems(1) ty by (simp add: n)
next
  case (Node b ms w)
  obtain m where n: "n = Suc m" "fuel_members ms \<le> m" using Node.prems(4) by (cases n) auto
  note here = member_reading [OF Node.prems(2,3)]
  have "jtype (obj t k) = node_type b" using here(1) by (simp add: reading_def)
  then have "json__visitor n cb t k x = bind_r (returns (json__get_next t k None)) (\<lambda>(t1, child). visit_members m cb t1 k child x)"
    by (auto simp: n node_type_def)
  then show ?case
    using Node.IH [OF Node.prems(1) here _ _ _ n(2)] Node.prems(3) by simp
next
  case No_more
  obtain m where n: "n = Suc m" using No_more.prems(7) by (cases n) auto
  obtain t1 where t1: "json__get_next t k (if first then None else Some (Suc k)) = Inr (t1, None)" "kept t k t1"
    using next_none [OF No_more.prems(2,6)] by blast
  have "view t1 k = (path, val)" "visible t1 k"
    using kept_view [OF t1(2)] node_view [OF No_more.prems(2,3)] by simp_all
  then show ?case
    using walks_callback [of cb t1 k x f "kept t k"] No_more.prems(1) t1 by (simp add: n)
next
  case (Member p key v q ms)
  obtain m where n: "n = Suc m" "fuel_doc v \<le> m" "fuel_members ms \<le> m" using Member.prems(7) by (cases n) auto
  obtain t1 j a e where t1: "json__get_next t k (if first then None else Some (Suc k)) = Inr (t1, Some (Suc k))"
      "j = i + length g + length ((if first then [] else [CHR '','']) @ p @ key_text key)"
      "kept t k t1" "found_member t1 (Suc k) b v j a e" "span t1 (if b then a else 0) (if b then e else 0) (key_name key)"
      "occurs t1 j (render v)" "reading t1 k b q ms False w (j + length (render v))"
    using next_found [OF Member.prems(2,4-6)] by blast
  have node1: "node_at t1 k path val" using kept_node_at [OF t1(3) Member.prems(3)] .
  have at: "member_at t1 (Suc k) v j path (key_name key)"
    using t1(7) Member.prems(4) key_name_no_zero by (intro found_member_at [OF node1 t1(4,6,5)]) (auto simp: reading_def)
  have wf: "wf_doc v (Suc k)" "wf_members ms b (Suc k)" using Member.prems(4) by auto
  have last: "last_found ms w" using Member.prems(5) by (cases ms) auto
  have rest: "walks (bind_r (returns (json__get_next t2 k (Some (Suc k)))) (\<lambda>(t3, child). visit_members m cb t3 k child x'))
      (visit_views f (member_nodes ms False (j + length (render v) + length q) path @ [(path, val)]) x') (kept t k)" if "kept t1 (Suc k) t2" for t2 x'
  proof -
    have k2: "kept t k t2" using t1(3) kept_Suc [OF that] by (rule kept_trans)
    have "walks (bind_r (returns (json__get_next t2 k (if False then None else Some (Suc k)))) (\<lambda>(t3, child). visit_members m cb t3 k child x'))
      (visit_views f (member_nodes ms False (j + length (render v) + length q) path @ [(path, val)]) x') (kept t2 k)"
      using kept_node_at [OF kept_Suc [OF that] node1] wf(2) last Member.prems(6) n(3)
      by (intro Member.IH(2) [OF Member.prems(1) kept_reading [OF that t1(7)]]) auto
    moreover have "kept t k u" if "kept t2 k u" for u using k2 that by (rule kept_trans)
    ultimately show ?thesis by (auto simp: walks_def split: sum.splits run.splits)
  qed
  show ?case
    unfolding t1(1) member_nodes.simps append_assoc t1(2) [symmetric] visit_views_append [of f "nodes v j path (key_name key)"]
    using walks_bind [OF Member.IH(1) [OF Member.prems(1) at wf(1) n(2)], of
        "\<lambda>t2 x'. bind_r (returns (json__get_next t2 k (Some (Suc k)))) (\<lambda>(t3, child). visit_members m cb t3 k child x')", OF rest]
    by (simp add: n)
qed


section \<open>Parsing\<close>

lemma root_opened:
  assumes "length (stack t) = 22" "depth (obj t 0) = 0" "jstate (obj t 0) = json__state_init" "jcount (obj t 0) = 0"
    and "child_type (obj t 0) = json__undefined" "byte t i = Inr (CHR ''{'')" "i < stop"
  shows "\<exists>t'. json__scan t 0 0 stop 0 i a e = json__scan t' 0 0 stop 1 (Suc i) a e \<and> buf t' = buf t \<and>
    node_start t' 1 True i 0 0 \<and> depth (obj t' 0) = 0 \<and> jcount (obj t' 0) = 1 \<and> value_end (obj t' 0) = value_end (obj t 0)"
proof -
  have "\<exists>t'. get_open True t 0 i a e = Inr (Go t' 1 i a e) \<and> buf t' = buf t \<and>
    node_start t' 1 True i 0 0 \<and> depth (obj t' 0) = 0 \<and> jcount (obj t' 0) = 1 \<and> value_end (obj t' 0) = value_end (obj t 0)"
    using assms(1-5) by (simp add: get_open_def json__push_def obj_upd Let_def level_def unprepared_def header_def
        set_state_def node_start_def node_type_def body_state_def json__MAX_DEPTH_def)
  then obtain t' where t': "get_open True t 0 i a e = Inr (Go t' 1 i a e)" "buf t' = buf t" "node_start t' 1 True i 0 0"
      "depth (obj t' 0) = 0" "jcount (obj t' 0) = 1" "value_end (obj t' 0) = value_end (obj t 0)" by blast
  have "json__scan t 0 0 stop 0 i a e = resume t' 0 stop 1 (Suc i) a e"
    using t'(1) assms(6) by (intro scan_Go [OF assms(7)]) (simp add: get_char_def)
  also have "\<dots> = json__scan t' 0 0 stop 1 (Suc i) a e"
    using t'(3) by (intro resume_quiet level_quiet) (auto simp: node_start_def unfound_def)
  finally show ?thesis using t'(2-6) by blast
qed

lemma parse_found:
  assumes "length garbage = 22" "wf_doc (Node True ms w) 1" "list_all is_ws g"
    and txt_def: "txt = g @ render (Node True ms w) @ rest"
  shows "\<exists>t. json__parse (txt @ [CHR 0x00]) (length txt) garbage = Inr (t, Some 1) \<and>
    member_at t 1 (Node True ms w) (length g) [] []"
proof -
  let ?stop = "length txt"
  define t0 where "t0 = upd (upd \<lparr>buf = txt @ [CHR 0x00], len = ?stop, stack = garbage, errors = []\<rparr> 0
     (\<lambda>r. r\<lparr>value_end := ?stop, value_start := 0, depth := 0, jtype := json__undefined,
          jstate := json__state_init, name_start := 0, name_end := 0, child_type := json__undefined,
          jcount := 0\<rparr>)) 0 (\<lambda>r. r\<lparr>jcount := 0\<rparr>)"
  have t0: "length (stack t0) = 22" "depth (obj t0 0) = 0" "jstate (obj t0 0) = json__state_init" "jcount (obj t0 0) = 0"
      "child_type (obj t0 0) = json__undefined" "value_end (obj t0 0) = ?stop" "buf t0 = txt @ [CHR 0x00]"
    using assms(1) by (simp_all add: t0_def obj_upd)
  have "json__parse (txt @ [CHR 0x00]) (length txt) garbage = json__scan t0 0 0 ?stop 0 0 0 0"
    using assms(1) by (simp add: json__parse_def json__get_def t0_def obj_upd get_start_def Let_def json__MAX_DEPTH_def)
  also have "\<dots> = json__scan t0 0 0 ?stop 0 (0 + length g) 0 0"
    using t0 assms(3) occurs_prefix [of t0 "[]" g] by (intro white_scanned) (auto simp: quiet_def unfound_def txt_def)
  finally have scan0: "json__parse (txt @ [CHR 0x00]) (length txt) garbage = json__scan t0 0 0 ?stop 0 (length g) 0 0" by simp
  have occ: "occurs t0 (length g) (render (Node True ms w))"
    using occurs_prefix [of t0 g "render (Node True ms w)" "rest @ [CHR 0x00]"] t0(7) by (simp add: txt_def)
  have stop: "length g + length (render (Node True ms w)) \<le> ?stop" by (simp add: txt_def)
  have first: "byte t0 (length g) = Inr (CHR ''{'')" "length g < ?stop"
    using occ stop by (simp_all add: open_char_def)
  obtain t1 where t1: "json__scan t0 0 0 ?stop 0 (length g) 0 0 = json__scan t1 0 0 ?stop 1 (Suc (length g)) 0 0"
      "buf t1 = buf t0" "node_start t1 (Suc 0) True (length g) 0 0" "depth (obj t1 0) = 0" "jcount (obj t1 0) = 1"
      "value_end (obj t1 0) = ?stop"
    using root_opened [OF t0(1-5) first, of 0 0] t0(6) by auto
  have occ1: "occurs t1 (length g) (render (Node True ms w))" using occ occurs_same [OF t1(2)] by blast
  have wf: "wf_members ms True (Suc (Suc 0))" "list_all is_ws w" using assms(2) by (auto simp: numeral_2_eq_2)
  obtain d where d: "byte t1 (Suc (length g) + length (items ms True)) = Inr d" "d \<in> set delimiters"
    using body_then_white [of t1 "Suc (length g) + length (items ms True)" w True] occ1 wf(2) by auto
  have lev: "level t1 (Suc 0) True (if True then body_state True else member_state True)" using t1(3) by (simp add: node_start_def)
  have items: "\<exists>t' ns' ne' s'. json__scan t1 0 0 ?stop (Suc 0) (Suc (length g)) 0 0
      = json__scan t' 0 0 ?stop (Suc 0) (Suc (length g) + length (items ms True)) ns' ne' \<and>
      kept t1 (Suc 0) t' \<and> level t' (Suc 0) True s' \<and> s' \<in> {body_state True, member_state True}"
    using items_scanned [OF wf(1) _ d lev _ _ t1(6), of 0 0] occ1 stop by (simp add: json__MAX_DEPTH_def)
  obtain t2 ns2 ne2 where t2: "json__scan t1 0 0 ?stop (Suc 0) (Suc (length g)) 0 0
        = resume t2 0 ?stop 0 (length g + length (render (Node True ms w))) ns2 ne2"
      "buf t2 = buf t1" "length (stack t2) = length (stack t1)" "\<forall>j < Suc 0. obj t2 j = obj t1 j"
      "header (obj t2 (Suc 0)) = (Suc 0, node_type True, 0, 0, Suc (length g), length g + length (render (Node True ms w)) - 2)"
      "unprepared t2 (Suc 0) True"
    using node_scanned [OF t1(3,4) order.refl occ1 wf(2) stop items] by blast
  have "resume t2 0 ?stop 0 (length g + length (render (Node True ms w))) ns2 ne2 = Inr (t2, Some (Suc 0))"
    using t1(4,5) t2(4) by (intro resume_found) simp_all
  then have "json__parse (txt @ [CHR 0x00]) (length txt) garbage = Inr (t2, Some 1)"
    using scan0 t1(1) t2(1) by simp
  moreover have "occurs t2 (length g) (render (Node True ms w))" using occ1 occurs_same [OF t2(2)] by blast
  then have "member_at t2 1 (Node True ms w) (length g) [] []"
    using t2(3,5,6) level_length(2) [OF lev] by (auto simp: member_at_def names_inside_def header_def value_from_def value_to_def)
  ultimately show ?thesis by blast
qed


lemma walks_outcome: "walks w c P \<Longrightarrow> bind_r w (\<lambda>(t', x', r). Inr (Returns (x', r))) = c"
  by (cases c rule: walk_cases) auto

text \<open>
  C3. For every well-formed document, whatever white space it is written with and whatever follows it,
  the reader finds its root and the walk returns after it has called the callback for every value in
  it, in the order of the text and each object or array after its members, with the types and names
  on the way to it and the text of its value; it ends early exactly where the callback does. The
  callback must read the tree only through these.
\<close>

theorem document_walked:
  assumes "wf_doc (Node True ms w) 1" "list_all is_ws g" "length garbage = 22"
    and "txt = g @ render (Node True ms w) @ rest"
    and "\<forall>t k x. visible t k \<longrightarrow> cb t k x = f (view t k) x" "fuel_doc (Node True ms w) \<le> n"
  shows "\<exists>t. json__parse (txt @ [CHR 0x00]) (length txt) garbage = Inr (t, Some 1) \<and>
    bind_r (json__visitor n cb t 1 x) (\<lambda>(t', x', r). Inr (Returns (x', r)))
      = visit_views f (nodes (Node True ms w) (length g) [] []) x"
  using parse_found [OF assms(3,1,2,4)] walks_outcome [OF member_walked [OF assms(5) _ assms(1,6)]] by blast

text \<open>The values of the members in a document of two members, the first of them an array.\<close>

definition sample_members :: members where
  "sample_members = Member [] (Some (''a'', [], '' '')) (Node False (Member [] None (Atom json__string ''x'') []
     (Member [] None (Atom json__string ''y'') [] No_more)) []) []
     (Member '' '' (Some (''b'', [], '' '')) (Atom json__number ''17'') [] No_more)"

definition sample_text :: string where
  "sample_text = render (Node True sample_members [])"

lemma document_walked_witness:
  "\<exists>t. json__parse (sample_text @ [CHR 0x00]) (length sample_text) (replicate 22 zero_obj) = Inr (t, Some 1) \<and>
    bind_r (json__visitor 100 (\<lambda>t k vs. Inr (Returns (vs @ [snd (view t k)], 0))) t 1 []) (\<lambda>(t', x', r). Inr (Returns (x', r)))
      = Inr (Returns ([Some ''x'', Some ''y'', Some (CHR 0x22 # ''x'' @ [CHR 0x22, CHR '','', CHR 0x22] @ ''y''), Some ''17'',
          Some (tl (butlast (butlast sample_text)))], 0))"
proof -
  let ?d = "Node True sample_members []"
  have "visit_views (\<lambda>v vs. Inr (Returns (vs @ [snd v], 0))) (nodes ?d (length ([] :: string)) [] []) []
      = Inr (Returns ([Some ''x'', Some ''y'', Some (CHR 0x22 # ''x'' @ [CHR 0x22, CHR '','', CHR 0x22] @ ''y''), Some ''17'',
          Some (tl (butlast (butlast sample_text)))], 0))"
    by (simp add: sample_members_def inside_def sample_text_def key_text_def open_char_def close_char_def)
  moreover have "wf_doc ?d 1"
    by (simp add: sample_members_def wf_key_def is_ws_def in_array_def wf_atom_def is_number_def delimiters_def after_number_def
       skip_opt_def readable_last_def json__MAX_DEPTH_def isdigit_def of_char_def)
  moreover have "fuel_doc ?d \<le> 100" by (simp add: sample_members_def)
  moreover have "sample_text = [] @ render ?d @ []" by (simp add: sample_text_def)
  ultimately show ?thesis
    using document_walked [of sample_members "[]" "[]" "replicate 22 zero_obj" sample_text "[]"
     "\<lambda>t k vs. Inr (Returns (vs @ [snd (view t k)], 0))" "\<lambda>v vs. Inr (Returns (vs @ [snd v], 0))" 100 "[]"]
    by (simp del: nodes.simps wf_doc.simps fuel_doc.simps)
qed

end
