(* ===== verification/BuildRuns.thy ===== *)
theory BuildRuns
  imports BuildTasks JsonVisit
begin

text \<open>
  The project builder (\<open>tools/build.c\<close>) from the text of \<open>.vscode/tasks.json\<close> to the commands it
  starts: what the callback takes from a document, the tasks it collects from a list of jobs, and the
  run of a job with the jobs it depends on.
\<close>

section \<open>The callback on views\<close>

text \<open>The name of a level; a value copied into an array of \<open>room\<close> bytes with the size \<open>n\<close>.\<close>

definition level_name :: "path \<Rightarrow> nat \<Rightarrow> string" where
  "level_name path j = fst (snd (path ! (j - 1)))"

definition copied :: "string option \<Rightarrow> nat \<Rightarrow> nat \<Rightarrow> string run c" where
  "copied val n room = (case val of None \<Rightarrow> Inr Exits
     | Some s \<Rightarrow> if length s \<ge> n - 1 then Inr Exits else if length s < room then Inr (Returns (c_string s)) else Inl OutOfBounds)"

definition view_args :: "string option \<Rightarrow> task \<Rightarrow> bool \<Rightarrow> (task \<times> int) run c" where
  "view_args val t platform =
     (if platform_args t \<and> \<not> platform then Inr (Returns (t, 1))
      else let cleared = (if \<not> platform_args t \<and> platform
             then map (\<lambda>s. []) (take bld__MAX_CHILDREN (args t)) @ drop bld__MAX_CHILDREN (args t) else args t);
           t1 = t\<lparr>args := cleared, platform_args := platform\<rparr>
      in case free_entry (args t1) of
           None \<Rightarrow> Inr Exits
         | Some i \<Rightarrow> bind_r (copied val bld__MAX_PATH bld__MAX_PATH) (\<lambda>s. Inr (Returns (t1\<lparr>args := (args t1)[i := s]\<rparr>, 0))))"

definition view_field :: "platform \<Rightarrow> path \<Rightarrow> string option \<Rightarrow> task \<Rightarrow> task run c" where
  "view_field pf path val t =
     (let nm = level_name path; short = copied val bld__MAX_PATH bld__MAX_PATH in
      if nm 4 = ''command'' \<and> command t = [] then bind_r short (\<lambda>s. Inr (Returns (t\<lparr>command := s\<rparr>)))
      else if length path > 4 \<and> Some (nm 4) = platform_section pf
      then if nm 5 = ''command'' then bind_r short (\<lambda>s. Inr (Returns (t\<lparr>command := s\<rparr>)))
           else if length path > 5 \<and> nm 5 = ''args'' then bind_r (view_args val t True) (\<lambda>(t', r). Inr (Returns t'))
           else Inr (Returns t)
      else if nm 4 = ''label'' then bind_r (copied val 1024 bld__MAX_LABEL) (\<lambda>s. Inr (Returns (t\<lparr>label := s\<rparr>)))
      else if \<not> length path > 4 then Inr (Returns t)
      else if nm 4 = ''args'' then bind_r (view_args val t False) (\<lambda>(t', r). Inr (Returns t'))
      else if nm 4 = ''dependsOn''
      then (case free_entry (depends_on t) of None \<Rightarrow> Inr Exits
            | Some i \<Rightarrow> bind_r (copied val bld__MAX_PATH bld__MAX_LABEL) (\<lambda>s.
                Inr (Returns (t\<lparr>depends_on := (depends_on t)[i := s]\<rparr>))))
      else if nm 4 = ''options'' \<and> nm 5 = ''cwd'' then bind_r short (\<lambda>s. Inr (Returns (t\<lparr>cwd := s\<rparr>)))
      else Inr (Returns t))"

text \<open>The place where the value of the task starts is its identity.\<close>

definition gather_view :: "platform \<Rightarrow> view \<Rightarrow> task list \<Rightarrow> (task list \<times> int) run c" where
  "gather_view pf v ts = (case v of (path, val) \<Rightarrow>
     if length path > 3 \<and> level_name path 2 = ''tasks'' \<and> level_name path 3 = []
     then let (ts', i) = select_task ts (snd (snd (path ! 2)))
          in bind_r (view_field pf path val (ts' ! i)) (\<lambda>t. Inr (Returns (ts'[i := t], 0)))
     else Inr (Returns (ts, 0)))"

lemma visible_named:
  assumes "visible tr k" "1 \<le> j" "j \<le> k"
  shows "named tr j (level_name (fst (view tr k)) j)"
proof -
  have nm: "level_name (fst (view tr k)) j = excerpt tr (name_start (obj tr j)) (name_end (obj tr j))"
    using assms(2,3) by (simp add: level_name_def view_def name_at_def nth_append del: upt_Suc)
  have "name_start (obj tr j) \<le> name_end (obj tr j)" "name_end (obj tr j) \<le> length (buf tr)"
      "CHR 0x00 \<notin> set (excerpt tr (name_start (obj tr j)) (name_end (obj tr j)))"
    using assms by (auto simp: visible_def names_inside_def)
  then show ?thesis by (simp add: named_def nm excerpt_def)
qed

lemma match_visible:
  "visible tr k \<Longrightarrow> 1 \<le> j \<Longrightarrow> j \<le> k \<Longrightarrow> CHR 0x00 \<notin> set s \<Longrightarrow>
   json__match tr j s = Inr (level_name (fst (view tr k)) j = s)"
  by (subst match_named [OF visible_named]) auto

lemma copied_value:
  "visible tr k \<Longrightarrow> copy_value tr k n room = copied (snd (view tr k)) n room"
  by (auto simp: copy_value_def copied_def json__copy_string_def view_def value_at_def excerpt_def visible_def)

lemma args_view: "visible tr k \<Longrightarrow> bld__args tr k t platform = view_args (snd (view tr k)) t platform"
  unfolding bld__args_def view_args_def by (simp only: copied_value)

lemma set_field_view:
  assumes "visible tr k" "4 \<le> k"
  shows "set_field pf tr k t = view_field pf (fst (view tr k)) (snd (view tr k)) t"
proof -
  have depth: "depth (obj tr k) = k" "length (fst (view tr k)) = k"
    using assms(1) by (simp_all add: visible_def view_def del: upt_Suc)
  have four: "json__match tr 4 s = Inr (level_name (fst (view tr k)) 4 = s)" if "CHR 0x00 \<notin> set s" for s
    using match_visible [OF assms(1), of 4 s] assms(2) that by simp
  have five: "4 < k \<longrightarrow> json__match tr 5 s = Inr (level_name (fst (view tr k)) 5 = s)" if "CHR 0x00 \<notin> set s" for s
    using match_visible [OF assms(1), of 5 s] that by simp
  let ?n4 = "level_name (fst (view tr k)) 4" and ?n5 = "level_name (fst (view tr k)) 5"
  have f4: "json__match tr 4 ''command'' = Inr (?n4 = ''command'')" "json__match tr 4 ''windows'' = Inr (?n4 = ''windows'')"
      "json__match tr 4 ''osx'' = Inr (?n4 = ''osx'')" "json__match tr 4 ''linux'' = Inr (?n4 = ''linux'')"
      "json__match tr 4 ''label'' = Inr (?n4 = ''label'')" "json__match tr 4 ''args'' = Inr (?n4 = ''args'')"
      "json__match tr 4 ''dependsOn'' = Inr (?n4 = ''dependsOn'')" "json__match tr 4 ''options'' = Inr (?n4 = ''options'')"
    by (simp_all add: four)
  note unfold = set_field_def view_field_def Let_def copied_value [OF assms(1)] args_view [OF assms(1)] depth platform_section_def
  show ?thesis
  proof (cases "4 < k")
    case True
    then have f5: "json__match tr 5 ''command'' = Inr (?n5 = ''command'')" "json__match tr 5 ''args'' = Inr (?n5 = ''args'')"
        "json__match tr 5 ''cwd'' = Inr (?n5 = ''cwd'')"
      using five by simp_all
    show ?thesis unfolding unfold by (cases pf) (simp_all add: True f4 f5)
  next
    case False
    show ?thesis unfolding unfold by (cases pf) (simp_all add: False f4)
  qed
qed

lemma gather_reads_view:
  assumes "visible tr k"
  shows "bld__gather_tasks pf tr k ts = gather_view pf (view tr k) ts"
proof -
  have depth: "depth (obj tr k) = k" "length (fst (view tr k)) = k"
    using assms by (simp_all add: visible_def view_def del: upt_Suc)
  have id: "4 \<le> k \<longrightarrow> snd (snd (fst (view tr k) ! 2)) = value_start (obj tr 3)"
    by (simp add: view_def name_at_def nth_append numeral_3_eq_3 del: upt_Suc)
  have names: "3 \<le> k \<longrightarrow> json__match tr 2 ''tasks'' = Inr (level_name (fst (view tr k)) 2 = ''tasks'')"
      "3 \<le> k \<longrightarrow> json__match tr 3 [] = Inr (level_name (fst (view tr k)) 3 = [])"
    using match_visible [OF assms, of 2 "''tasks''"] match_visible [OF assms, of 3 "[]"] by auto
  show ?thesis
    using names id set_field_view [OF assms, of pf]
    by (auto simp: bld__gather_tasks_def gather_view_def depth case_prod_beta Let_def)
qed

section \<open>Documents of jobs\<close>

text \<open>A job, and the document that lists jobs, with the white space \<open>w\<close> before every name, value and end.\<close>

record job =
  job_label :: string
  job_command :: string
  job_args :: "string list"
  job_deps :: "string list"

fun elems :: "string \<Rightarrow> doc list \<Rightarrow> members" where
  "elems w [] = No_more"
| "elems w (v # vs) = Member w None v [] (elems w vs)"

fun members_of :: "string \<Rightarrow> (string \<times> doc) list \<Rightarrow> members" where
  "members_of w [] = No_more"
| "members_of w ((name, v) # fs) = Member w (Some (name, [], w)) v [] (members_of w fs)"

definition strings :: "string \<Rightarrow> string list \<Rightarrow> doc" where
  "strings w xs = Node False (elems w (map (Atom json__string) xs)) w"

definition job_members :: "string \<Rightarrow> job \<Rightarrow> members" where
  "job_members w j = members_of w [(''label'', Atom json__string (job_label j)), (''command'', Atom json__string (job_command j)),
     (''args'', strings w (job_args j)), (''dependsOn'', strings w (job_deps j))]"

definition job_doc :: "string \<Rightarrow> job \<Rightarrow> doc" where
  "job_doc w j = Node True (job_members w j) w"

definition tasks_doc :: "string \<Rightarrow> job list \<Rightarrow> doc" where
  "tasks_doc w js = Node True (members_of w [(''version'', Atom json__string ''2.0.0''),
     (''tasks'', Node False (elems w (map (job_doc w) js)) w)]) w"

text \<open>Strings that fit the arrays of the builder, and what it makes of a job.\<close>

definition fits :: "nat \<Rightarrow> string \<Rightarrow> bool" where
  "fits n s \<longleftrightarrow> s \<noteq> [] \<and> length s < n \<and> escaped s"

definition wf_job :: "job \<Rightarrow> bool" where
  "wf_job j \<longleftrightarrow> fits bld__MAX_LABEL (job_label j) \<and> fits (bld__MAX_PATH - 1) (job_command j) \<and>
     list_all (fits (bld__MAX_PATH - 1)) (job_args j) \<and> length (job_args j) \<le> bld__MAX_CHILDREN \<and>
     list_all (fits bld__MAX_LABEL) (job_deps j) \<and> length (job_deps j) \<le> bld__MAX_CHILDREN"

definition slots :: "string list \<Rightarrow> string list" where
  "slots xs = xs @ replicate (bld__MAX_CHILDREN + 1 - length xs) []"

definition task_of :: "nat \<Rightarrow> job \<Rightarrow> task" where
  "task_of n j = (bld__task_new n)\<lparr>label := job_label j, command := job_command j, args := slots (job_args j),
     depends_on := slots (job_deps j)\<rparr>"

lemma entries_slots: "entries ss xs \<Longrightarrow> ss = slots xs"
  and slots_entries: "list_all (fits n) xs \<Longrightarrow> length xs \<le> bld__MAX_CHILDREN \<Longrightarrow> entries (slots xs) xs"
  by (auto simp: entries_def slots_def list_all_iff fits_def)

lemma c_string_fits: "fits n s \<Longrightarrow> c_string s = s"
  by (auto simp: fits_def intro!: c_string_id dest: escaped_no_zero)

lemma copied_fits: "fits m s \<Longrightarrow> m \<le> n - 1 \<Longrightarrow> m \<le> room \<Longrightarrow> copied (Some s) n room = Inr (Returns s)"
  by (auto simp: copied_def c_string_fits) (auto simp: fits_def)

section \<open>The fields of one job\<close>

text \<open>The task alone, while the views of one job are visited.\<close>

definition field_view :: "platform \<Rightarrow> view \<Rightarrow> task \<Rightarrow> (task \<times> int) run c" where
  "field_view pf v t = bind_r (view_field pf (fst v) (snd v) t) (\<lambda>t. Inr (Returns (t, 0)))"

definition inside_job :: "nat \<Rightarrow> view \<Rightarrow> bool" where
  "inside_job n v \<longleftrightarrow> length (fst v) > 3 \<and> level_name (fst v) 2 = ''tasks'' \<and> level_name (fst v) 3 = [] \<and> snd (snd (fst v ! 2)) = n"

lemma view_args_id: "view_args val t pl = Inr (Returns (t', r)) \<Longrightarrow> task_id t' = task_id t"
proof -
  assume a: "view_args val t pl = Inr (Returns (t', r))"
  have "task_id t' = task_id t" if "bind_r (copied val m k) (\<lambda>s. Inr (Returns (u s, 0))) = Inr (Returns (t', r))" "\<And>s. task_id (u s) = task_id t"
    for m k u
    using that by (auto simp: bind_r_def bind_c_def split: sum.splits run.splits)
  then show ?thesis
    using a by (auto simp: view_args_def Let_def split: if_splits option.splits)
qed

lemma returns_elim:
  assumes "bind_r (r :: 'a run c) f = Inr (Returns y)"
  obtains x where "r = Inr (Returns x)" "f x = Inr (Returns y)"
proof (cases r)
  case (Inr q)
  then show ?thesis using assms that by (cases q) auto
qed (use assms in auto)

lemma view_field_id: "view_field pf path val t = Inr (Returns t') \<Longrightarrow> task_id t' = task_id t"
  by (auto simp: view_field_def Let_def split: if_splits option.splits elim!: returns_elim dest: view_args_id)

lemma select_last:
  "n \<notin> task_id ` set old \<Longrightarrow> 0 \<notin> task_id ` set old \<Longrightarrow> task_id t = n \<Longrightarrow> n \<noteq> 0 \<Longrightarrow>
   select_task (old @ [t]) n = (old @ [t], length old)"
proof -
  assume a: "n \<notin> task_id ` set old" "0 \<notin> task_id ` set old" "task_id t = n" "n \<noteq> 0"
  then have "find_task (old @ [t]) n = (old @ [t], length old)" by (induction "old") auto
  then show ?thesis using a by (cases "old") (auto simp: select_task_def)
qed

lemma job_views:
  assumes "\<forall>v \<in> set vs. inside_job n v" "n \<notin> task_id ` set old" "0 \<notin> task_id ` set old" "n \<noteq> 0" "task_id t = n"
  shows "visit_views (gather_view pf) vs (old @ [t]) = bind_r (visit_views (field_view pf) vs t) (\<lambda>(t', r). Inr (Returns (old @ [t'], r)))"
  using assms(1,5)
proof (induction vs arbitrary: t)
  case (Cons v vs)
  obtain path val where v: "v = (path, val)" by (cases v)
  have view: "gather_view pf v (old @ [t]) = bind_r (view_field pf path val t) (\<lambda>t'. Inr (Returns (old @ [t'], 0)))"
    using Cons.prems select_last [OF assms(2,3) Cons.prems(2) assms(4)]
    by (simp add: gather_view_def inside_job_def v)
  show ?case
  proof (cases "view_field pf path val t")
    case (Inr q)
    show ?thesis
    proof (cases q)
      case (Returns t')
      then have "task_id t' = n" using Inr view_field_id Cons.prems(2) by simp
      then show ?thesis using Cons.IH [of t'] Cons.prems(1) view Inr Returns by (simp add: field_view_def v)
    qed (simp_all add: field_view_def v view [unfolded v] Inr)
  qed (simp add: field_view_def v view [unfolded v])
qed simp

text \<open>The first view of a job finds no task with its identity: the root takes it, or a new one is made.\<close>

definition collected :: "task list \<Rightarrow> task list" where
  "collected ts = (if ts = [] then [bld__task_new 0] else ts)"

lemma select_new:
  "n \<notin> task_id ` set old \<Longrightarrow> 0 \<notin> task_id ` set old \<Longrightarrow> n \<noteq> 0 \<Longrightarrow>
   select_task (collected old) n = (old @ [bld__task_new n], length old)"
proof -
  assume a: "n \<notin> task_id ` set old" "0 \<notin> task_id ` set old" "n \<noteq> 0"
  have "find_task old n = (old @ [bld__task_new n], length old)" using a(1) by (induction old) auto
  then show ?thesis using a by (cases old) (auto simp: select_task_def collected_def bld__task_new_def)
qed

lemma first_view:
  assumes "inside_job n v" "n \<notin> task_id ` set old" "0 \<notin> task_id ` set old" "n \<noteq> 0"
  shows "gather_view pf v (collected old) = gather_view pf v (old @ [bld__task_new n])"
  using assms(1) select_new [OF assms(2-4)] select_last [OF assms(2,3) _ assms(4), of "bld__task_new n"]
  by (cases v) (simp add: gather_view_def inside_job_def bld__task_new_def)

text \<open>The strings of an array, one after the other.\<close>

lemma visit_args:
  assumes "level_name path 4 = ''args''" "length path = 4" "\<not> platform_args t" "entries (args t) ys"
    and "list_all (fits (bld__MAX_PATH - 1)) xs" "length ys + length xs \<le> bld__MAX_CHILDREN"
  shows "visit_views (field_view pf) (member_nodes (elems w (map (Atom json__string) xs)) first i path) t
    = Inr (Returns (t\<lparr>args := slots (ys @ xs)\<rparr>, 0))"
  using assms(3-6)
proof (induction xs arbitrary: t ys first i)
  case Nil
  then have "args t = slots ys" by (intro entries_slots)
  then show ?case by simp
next
  case (Cons x xs)
  have len: "length ys < bld__MAX_CHILDREN" using Cons.prems(4) by simp
  have x: "fits (bld__MAX_PATH - 1) x" "x \<noteq> []" using Cons.prems(3) by (simp_all add: fits_def)
  let ?t = "t\<lparr>args := (args t)[length ys := x], platform_args := False\<rparr>"
  have "view_args (Some x) t False = Inr (Returns (?t, 0))"
    using Cons.prems(1) free_entry_entries [OF Cons.prems(2)] len copied_fits [OF x(1), of bld__MAX_PATH bld__MAX_PATH]
    by (simp add: view_args_def)
  then have view: "field_view pf (path @ [(json__string, [], p)], Some x) t = Inr (Returns (?t, 0))" for p
    using assms(1,2) by (simp add: field_view_def view_field_def level_name_def nth_append platform_section_def Let_def split: platform.split)
  have "entries (args ?t) (ys @ [x])" using entries_update [OF Cons.prems(2) len, of x] x(2) by simp
  then have "visit_views (field_view pf) (member_nodes (elems w (map (Atom json__string) xs)) False j path) ?t
      = Inr (Returns (?t\<lparr>args := slots ((ys @ [x]) @ xs)\<rparr>, 0))" for j
    using Cons.prems(3,4) by (intro Cons.IH) simp_all
  moreover have "?t\<lparr>args := ss\<rparr> = t\<lparr>args := ss\<rparr>" for ss using Cons.prems(1) by (cases t) simp
  ultimately show ?case using view by (simp add: key_name_def)
qed

lemma visit_deps:
  assumes "level_name path 4 = ''dependsOn''" "length path = 4" "entries (depends_on t) ys"
    and "list_all (fits bld__MAX_LABEL) xs" "length ys + length xs \<le> bld__MAX_CHILDREN"
  shows "visit_views (field_view pf) (member_nodes (elems w (map (Atom json__string) xs)) first i path) t
    = Inr (Returns (t\<lparr>depends_on := slots (ys @ xs)\<rparr>, 0))"
  using assms(3-5)
proof (induction xs arbitrary: t ys first i)
  case Nil
  then have "depends_on t = slots ys" by (intro entries_slots)
  then show ?case by simp
next
  case (Cons x xs)
  have len: "length ys < bld__MAX_CHILDREN" using Cons.prems(3) by simp
  have x: "fits bld__MAX_LABEL x" "x \<noteq> []" using Cons.prems(2) by (simp_all add: fits_def)
  let ?t = "t\<lparr>depends_on := (depends_on t)[length ys := x]\<rparr>"
  have "copied (Some x) bld__MAX_PATH bld__MAX_LABEL = Inr (Returns x)"
    by (rule copied_fits [OF x(1)]) (simp_all add: bld__MAX_PATH_def bld__MAX_LABEL_def)
  then have view: "field_view pf (path @ [(json__string, [], p)], Some x) t = Inr (Returns (?t, 0))" for p
    using assms(1,2) free_entry_entries [OF Cons.prems(1)] len
    by (simp add: field_view_def view_field_def level_name_def nth_append platform_section_def Let_def split: platform.split)
  have "entries (depends_on ?t) (ys @ [x])" using entries_update [OF Cons.prems(1) len, of x] x(2) by simp
  then have "visit_views (field_view pf) (member_nodes (elems w (map (Atom json__string) xs)) False j path) ?t
      = Inr (Returns (?t\<lparr>depends_on := slots ((ys @ [x]) @ xs)\<rparr>, 0))" for j
    using Cons.prems(2,3) by (intro Cons.IH) simp_all
  then show ?case using view by (simp add: key_name_def)
qed

lemma array_view:
  assumes "length path = 3" "level_name (path @ [(ty, nm, p)]) 4 \<noteq> ''command''" "level_name (path @ [(ty, nm, p)]) 4 \<noteq> ''label''"
  shows "field_view pf (path @ [(ty, nm, p)], val) t = Inr (Returns (t, 0))"
  using assms by (simp add: field_view_def view_field_def Let_def)

lemma visit_arrays:
  assumes "length path = 3"
  shows "\<not> platform_args t \<Longrightarrow> entries (args t) [] \<Longrightarrow> list_all (fits (bld__MAX_PATH - 1)) xs \<Longrightarrow> length xs \<le> bld__MAX_CHILDREN \<Longrightarrow>
      visit_views (field_view pf) (nodes (strings w xs) i path ''args'') t = Inr (Returns (t\<lparr>args := slots xs\<rparr>, 0))"
    and "entries (depends_on t) [] \<Longrightarrow> list_all (fits bld__MAX_LABEL) xs \<Longrightarrow> length xs \<le> bld__MAX_CHILDREN \<Longrightarrow>
      visit_views (field_view pf) (nodes (strings w xs) i path ''dependsOn'') t = Inr (Returns (t\<lparr>depends_on := slots xs\<rparr>, 0))"
proof -
  have nm: "level_name (path @ [(ty, s, p)]) 4 = s" for ty s p using assms by (simp add: level_name_def nth_append)
  show "visit_views (field_view pf) (nodes (strings w xs) i path ''args'') t = Inr (Returns (t\<lparr>args := slots xs\<rparr>, 0))"
    if "\<not> platform_args t" "entries (args t) []" "list_all (fits (bld__MAX_PATH - 1)) xs" "length xs \<le> bld__MAX_CHILDREN"
    using visit_args [OF nm _ that(1,2,3)] that(4) assms array_view [OF assms]
    by (simp add: strings_def visit_views_append nm)
  show "visit_views (field_view pf) (nodes (strings w xs) i path ''dependsOn'') t = Inr (Returns (t\<lparr>depends_on := slots xs\<rparr>, 0))"
    if "entries (depends_on t) []" "list_all (fits bld__MAX_LABEL) xs" "length xs \<le> bld__MAX_CHILDREN"
    using visit_deps [OF nm _ that(1,2)] that(3) assms array_view [OF assms]
    by (simp add: strings_def visit_views_append nm)
qed

lemma job_fields:
  assumes "wf_job j" "length path = 3"
  shows "visit_views (field_view pf) (member_nodes (job_members w j) True i path) (bld__task_new n) = Inr (Returns (task_of n j, 0))"
proof -
  let ?t1 = "(bld__task_new n)\<lparr>label := job_label j\<rparr>"
  let ?t2 = "?t1\<lparr>command := job_command j\<rparr>"
  let ?t3 = "?t2\<lparr>args := slots (job_args j)\<rparr>"
  have wf: "fits bld__MAX_LABEL (job_label j)" "fits (bld__MAX_PATH - 1) (job_command j)"
     "list_all (fits (bld__MAX_PATH - 1)) (job_args j)" "length (job_args j) \<le> bld__MAX_CHILDREN"
     "list_all (fits bld__MAX_LABEL) (job_deps j)" "length (job_deps j) \<le> bld__MAX_CHILDREN"
    using assms(1) by (simp_all add: wf_job_def)
  have nm: "level_name (path @ [(ty, s, p)]) 4 = s" for ty s p using assms(2) by (simp add: level_name_def nth_append)
  have "copied (Some (job_label j)) 1024 bld__MAX_LABEL = Inr (Returns (job_label j))"
    by (rule copied_fits [OF wf(1)]) (simp_all add: bld__MAX_LABEL_def)
  then have label: "field_view pf (path @ [(json__string, ''label'', p)], Some (job_label j)) (bld__task_new n) = Inr (Returns (?t1, 0))" for p
    using assms(2) by (simp add: field_view_def view_field_def nm Let_def)
  have "copied (Some (job_command j)) bld__MAX_PATH bld__MAX_PATH = Inr (Returns (job_command j))"
    by (rule copied_fits [OF wf(2)]) simp_all
  then have command: "field_view pf (path @ [(json__string, ''command'', p)], Some (job_command j)) ?t1 = Inr (Returns (?t2, 0))" for p
    by (simp add: field_view_def view_field_def nm Let_def bld__task_new_def)
  have new: "entries (args ?t2) []" "entries (depends_on ?t3) []" "\<not> platform_args ?t2"
    using entries_new by (simp_all add: bld__task_new_def)
  have "task_of n j = ?t3\<lparr>depends_on := slots (job_deps j)\<rparr>" by (simp add: task_of_def)
  then show ?thesis
    using label command visit_arrays [OF assms(2)] new wf
    by (simp add: job_members_def key_name_def visit_views_append del: task.update_convs)
qed

lemma nodes_below: "v \<in> set (nodes d i path nm) \<Longrightarrow> \<exists>x xs. fst v = path @ x # xs"
  and members_below: "v \<in> set (member_nodes ms first i path) \<Longrightarrow> \<exists>x xs. fst v = path @ x # xs"
  by (induction d and ms arbitrary: i path nm and first i path) fastforce+


section \<open>The tasks of a list of jobs\<close>

lemma visit_job:
  assumes "wf_job j" "length path = 2" "level_name path 2 = ''tasks''" "Suc q \<notin> task_id ` set old" "0 \<notin> task_id ` set old"
  shows "visit_views (gather_view pf) (nodes (job_doc w j) q path []) (collected old) = Inr (Returns (old @ [task_of (Suc q) j], 0))"
proof -
  let ?path = "path @ [(json__object, [], Suc q)]"
  let ?vs = "member_nodes (job_members w j) True (Suc q) ?path"
  have inside: "\<forall>v \<in> set ?vs. inside_job (Suc q) v"
  proof
    fix v assume "v \<in> set ?vs"
    then obtain x xs where "fst v = ?path @ x # xs" using members_below by blast
    then show "inside_job (Suc q) v" using assms(2,3) by (simp add: inside_job_def level_name_def nth_append)
  qed
  obtain v vs where v: "?vs = v # vs" by (simp add: job_members_def)
  have "visit_views (gather_view pf) ?vs (collected old) = visit_views (gather_view pf) ?vs (old @ [bld__task_new (Suc q)])"
    using first_view [OF _ assms(4,5), of v] inside by (simp add: v)
  also have "\<dots> = bind_r (visit_views (field_view pf) ?vs (bld__task_new (Suc q))) (\<lambda>(t', r). Inr (Returns (old @ [t'], r)))"
    by (rule job_views [OF inside assms(4,5)]) (simp_all add: bld__task_new_def)
  also have "\<dots> = Inr (Returns (old @ [task_of (Suc q) j], 0))"
    using job_fields [OF assms(1), of ?path pf w "Suc q" "Suc q"] assms(2) by simp
  finally show ?thesis
    using assms(2) by (simp add: job_doc_def node_type_def visit_views_append gather_view_def)
qed

lemma visit_jobs:
  assumes "list_all wf_job js" "length path = 2" "level_name path 2 = ''tasks''" "\<forall>t \<in> set old. 0 < task_id t \<and> task_id t \<le> i"
  shows "\<exists>ns. length ns = length js \<and>
    visit_views (gather_view pf) (member_nodes (elems w (map (job_doc w) js)) first i path) (collected old)
      = Inr (Returns (collected (old @ map2 task_of ns js), 0))"
  using assms(1,4)
proof (induction js arbitrary: old i first)
  case (Cons j js)
  let ?q = "i + length ((if first then [] else [CHR '','']) @ w)"
  have old: "Suc ?q \<notin> task_id ` set old" "0 \<notin> task_id ` set old" using Cons.prems(2) by fastforce+
  let ?old = "old @ [task_of (Suc ?q) j]"
  have "\<forall>t \<in> set ?old. 0 < task_id t \<and> task_id t \<le> ?q + length (render (job_doc w j))"
    using Cons.prems(2) by (fastforce simp: task_of_def bld__task_new_def job_doc_def)
  then obtain ns where ns: "length ns = length js"
      "visit_views (gather_view pf) (member_nodes (elems w (map (job_doc w) js)) False (?q + length (render (job_doc w j))) path) (collected ?old)
        = Inr (Returns (collected (?old @ map2 task_of ns js), 0))"
    using Cons.IH [of ?old "?q + length (render (job_doc w j))" False] Cons.prems(1) by auto
  have "collected ?old = ?old" by (simp add: collected_def)
  then have "visit_views (gather_view pf) (member_nodes (elems w (map (job_doc w) (j # js))) first i path) (collected old)
      = Inr (Returns (collected (old @ map2 task_of (Suc ?q # ns) (j # js)), 0))"
    using visit_job [OF _ assms(2,3) old, of j pf w] Cons.prems(1) ns(2)
    by (simp add: visit_views_append key_text_def key_name_def)
  then show ?case using ns(1) by (intro exI [of _ "Suc ?q # ns"]) simp
qed (simp add: collected_def)

lemma tasks_collected:
  assumes "list_all wf_job js"
  shows "\<exists>ns. length ns = length js \<and>
    visit_views (gather_view pf) (nodes (tasks_doc w js) i [] []) [bld__task_new 0] = Inr (Returns (collected (map2 task_of ns js), 0))"
proof -
  have jobs: "\<exists>ns. length ns = length js \<and>
    visit_views (gather_view pf) (member_nodes (elems w (map (job_doc w) js)) True (Suc q) [(json__object, [], Suc i), (json__object_array, ''tasks'', Suc q)])
      [bld__task_new 0] = Inr (Returns (collected (map2 task_of ns js), 0))" for q
    using visit_jobs [OF assms, of "[(json__object, [], Suc i), (json__object_array, ''tasks'', Suc q)]" "[]" "Suc q" pf w True]
    by (simp add: level_name_def collected_def)
  define q where "q = Suc i + length (w @ key_text (Some (''version'', [], w))) + length (render (Atom json__string ''2.0.0'')) + 0 +
    length ('','' @ w @ key_text (Some (''tasks'', [], w)))"
  obtain p1 p2 p3 v2 v3 where nodes: "nodes (tasks_doc w js) i [] [] = [(p1, Some ''2.0.0'')] @
      member_nodes (elems w (map (job_doc w) js)) True (Suc q) [(json__object, [], Suc i), (json__object_array, ''tasks'', Suc q)] @
      [(p2, v2), (p3, v3)]" "length p1 \<le> 3" "length p2 \<le> 3" "length p3 \<le> 3"
    by (simp add: tasks_doc_def node_type_def key_name_def q_def)
  have skip: "gather_view pf (p, v) ts = Inr (Returns (ts, 0))" if "length p \<le> 3" for p v ts
    using that by (simp add: gather_view_def)
  show ?thesis
    using jobs [of q] unfolding nodes(1) by (auto simp: visit_views_append skip nodes(2-4))
qed


section \<open>From the text to the commands\<close>

lemma last_found_white: "w \<noteq> [] \<Longrightarrow> last_found (elems w vs) w" "w \<noteq> [] \<Longrightarrow> last_found (members_of w fs) w"
  by (induction vs) (auto, induction fs rule: members_of.induct, auto)

lemma wf_elems:
  "list_all is_ws w \<Longrightarrow> \<forall>v \<in> set vs. wf_doc v k \<and> in_array v \<Longrightarrow> wf_members (elems w vs) False k"
  by (induction vs) (auto simp: wf_key_def)

lemma wf_members_of:
  "list_all is_ws w \<Longrightarrow> \<forall>(n, v) \<in> set fs. escaped n \<and> wf_doc v k \<Longrightarrow> wf_members (members_of w fs) True k"
  by (induction w fs rule: members_of.induct) (auto simp: wf_key_def)

lemma wf_strings:
  "w \<noteq> [] \<Longrightarrow> list_all is_ws w \<Longrightarrow> list_all escaped xs \<Longrightarrow> k < json__MAX_DEPTH \<Longrightarrow> wf_doc (strings w xs) k"
  by (auto simp: strings_def last_found_white in_array_def wf_atom_def list_all_iff intro!: wf_elems)

lemma wf_tasks_doc:
  assumes "w \<noteq> []" "list_all is_ws w" "list_all wf_job js"
  shows "wf_doc (tasks_doc w js) 1"
proof -
  have esc: "list_all escaped xs" if "list_all (fits n) xs" for n xs using that by (auto simp: list_all_iff fits_def)
  have job: "wf_doc (job_doc w j) 3" if "wf_job j" for j
  proof -
    have "wf_members (job_members w j) True 4"
      unfolding job_members_def using assms(1,2) that esc
      by (intro wf_members_of) (auto simp: wf_job_def fits_def wf_atom_def json__MAX_DEPTH_def intro!: wf_strings)
    then show ?thesis
      using assms(1,2) by (simp add: job_doc_def json__MAX_DEPTH_def last_found_white job_members_def)
  qed
  have "wf_doc (Node False (elems w (map (job_doc w) js)) w) 2"
    using assms job by (auto simp: json__MAX_DEPTH_def last_found_white list_all_iff in_array_def job_doc_def intro!: wf_elems)
  then have "wf_members (members_of w [(''version'', Atom json__string ''2.0.0''),
     (''tasks'', Node False (elems w (map (job_doc w) js)) w)]) True 2"
    using assms(2) by (intro wf_members_of) (auto simp: wf_atom_def)
  then show ?thesis
    using assms(1,2) by (simp add: tasks_doc_def json__MAX_DEPTH_def last_found_white numeral_2_eq_2 del: members_of.simps)
qed

text \<open>The commands of a run are those of the tasks as they were collected.\<close>

definition logged :: "platform \<Rightarrow> task list \<Rightarrow> build \<Rightarrow> bool" where
  "logged pf ts b \<longleftrightarrow> length (tasks b) = length ts \<and>
     (\<forall>k < length ts. command (tasks b ! k) = command (ts ! k) \<and> args (tasks b ! k) = args (ts ! k)) \<and>
     (\<forall>(k, dir, argv) \<in> set (started b). k < length ts \<longrightarrow> argv = task_argv pf (ts ! k))"

lemma logged_exec: "logged pf ts b \<Longrightarrow> logged pf ts (snd (bld__exec os pf workspace k b))"
proof -
  assume b: "logged pf ts b"
  have argv: "task_argv pf (tasks b ! k) = task_argv pf (ts ! k)" if "k < length ts"
    using b that by (simp add: logged_def task_argv_def)
  have "command (((tasks b)[k := (tasks b ! k)\<lparr>finished := True\<rparr>]) ! m) = command (ts ! m)"
      "args (((tasks b)[k := (tasks b ! k)\<lparr>finished := True\<rparr>]) ! m) = args (ts ! m)" if "m < length ts" for m
    using b that by (cases "m = k"; simp add: logged_def nth_list_update)+
  then show ?thesis using b argv by (auto simp: logged_def bld__exec_def Let_def)
qed

lemma depends_keeps:
  assumes "\<And>k b. P b \<Longrightarrow> P (snd (bld__exec os pf workspace k b))"
  shows "(\<forall>k p b r b'. bld__depends n os pf workspace k p b = Some (r, b') \<longrightarrow> P b \<longrightarrow> P b') \<and>
    (\<forall>cs p b r b'. depend_loop n os pf workspace cs p b = Some (r, b') \<longrightarrow> P b \<longrightarrow> P b')"
proof -
  have loop: "\<forall>p b r b'. depend_loop n os pf workspace cs p b = Some (r, b') \<longrightarrow> P b \<longrightarrow> P b'"
    if "\<forall>k p b r b'. bld__depends n os pf workspace k p b = Some (r, b') \<longrightarrow> P b \<longrightarrow> P b'" for n cs
  proof (induction cs)
    case (Cons c cs)
    then show ?case using that by (fastforce split: option.splits if_splits)
  qed simp
  have exec: "P b'" if "bld__exec os pf workspace k b = (r, b')" "P b" for k b r b'
    using assms [OF that(2), of k] that(1) by simp
  show ?thesis
  proof (induction n)
    case (Suc n)
    have "P b'" if "bld__depends (Suc n) os pf workspace k p b = Some (r, b')" "P b" for k p b r b'
      using that Suc exec by (auto split: option.splits if_splits)
    then have "\<forall>k p b r b'. bld__depends (Suc n) os pf workspace k p b = Some (r, b') \<longrightarrow> P b \<longrightarrow> P b'" by blast
    then show ?case using loop [of "Suc n"] by blast
  qed (use loop [of 0] in auto)
qed

lemma make_logged:
  assumes "bld__make n os pf workspace name (fresh ts here) = Some (r, b)"
  shows "logged pf ts b"
proof -
  have "logged pf ts (fresh ts here)" by (simp add: logged_def)
  then show ?thesis
    using assms depends_keeps [of "logged pf ts" os pf workspace n, OF logged_exec]
    by (auto simp: bld__make_def split: option.splits)
qed

text \<open>The order of the jobs is that of their tasks.\<close>

definition job_order :: "job list \<Rightarrow> (nat \<times> nat) set" where
  "job_order js = {(a, c). a < length js \<and> c < length js \<and> job_label (js ! c) \<in> set (job_deps (js ! a))}"

definition job_argv :: "job \<Rightarrow> string list" where
  "job_argv j = [''/usr/bin/env'', ''-S'', job_command j] @ job_args j"

lemma task_of_fields:
  assumes "wf_job j"
  shows "label (task_of n j) = job_label j" "takeWhile (\<lambda>s. s \<noteq> []) (take bld__MAX_CHILDREN (depends_on (task_of n j))) = job_deps j"
    "pf \<noteq> Windows \<Longrightarrow> task_argv pf (task_of n j) = job_argv j" "\<not> finished (task_of n j)"
proof -
  have "entries (slots (job_deps j)) (job_deps j)" "entries (slots (job_args j)) (job_args j)"
    using assms by (auto simp: wf_job_def intro: slots_entries)
  then show "takeWhile (\<lambda>s. s \<noteq> []) (take bld__MAX_CHILDREN (depends_on (task_of n j))) = job_deps j"
      "pf \<noteq> Windows \<Longrightarrow> task_argv pf (task_of n j) = job_argv j"
    by (simp_all add: task_of_def task_argv_def job_argv_def used_entries)
qed (simp_all add: task_of_def bld__task_new_def)

lemma job_targets:
  assumes "list_all wf_job js" "length ns = length js" "k < length js"
  shows "set (targets (map2 task_of ns js) k) = job_order js `` {k}"
  using assms by (auto simp: targets_def job_order_def task_of_fields list_all_length)

lemma order_dependencies:
  "list_all wf_job js \<Longrightarrow> length ns = length js \<Longrightarrow> dependencies (map2 task_of ns js) = job_order js"
  using job_targets [of js ns] by (auto simp: dependencies_def) (auto simp: job_order_def)

lemma job_found:
  "length ns = length js \<Longrightarrow> k < length js \<Longrightarrow> job_label (js ! k) = name \<Longrightarrow> \<forall>i < k. job_label (js ! i) \<noteq> name \<Longrightarrow>
   find_label (map2 task_of ns js) name = Some k"
proof (induction js arbitrary: ns k)
  case (Cons j js)
  obtain m ms where ns: "ns = m # ms" using Cons.prems(1) by (cases ns) auto
  show ?case
  proof (cases k)
    case 0
    then show ?thesis using Cons.prems(3) by (simp add: ns task_of_def)
  next
    case (Suc i)
    have "job_label j \<noteq> name" using Cons.prems(4) Suc by auto
    moreover have "find_label (map2 task_of ms js) name = Some i"
      using Cons.prems ns Suc by (intro Cons.IH) auto
    ultimately show ?thesis by (simp add: ns Suc task_of_def)
  qed
qed simp

lemma build_parses:
  assumes "w \<noteq> []" "list_all is_ws w" "list_all is_ws g" "list_all wf_job js" "length garbage = 22"
    and "fuel_doc (tasks_doc w js) \<le> n"
  shows "\<exists>t t' ns. length ns = length js \<and>
    json__parse ((g @ render (tasks_doc w js) @ rest) @ [CHR 0x00]) (length (g @ render (tasks_doc w js) @ rest)) garbage = Inr (t, Some 1) \<and>
    json__visitor n (bld__gather_tasks pf) t 1 [bld__task_new 0] = Inr (Returns (t', collected (map2 task_of ns js), 0))"
proof -
  obtain ms where doc: "tasks_doc w js = Node True ms w" by (simp add: tasks_doc_def)
  note wf = wf_tasks_doc [OF assms(1,2,4), unfolded doc]
  have cb: "\<forall>t k x. visible t k \<longrightarrow> bld__gather_tasks pf t k x = gather_view pf (view t k) x"
    using gather_reads_view by blast
  obtain ns where ns: "length ns = length js"
      "visit_views (gather_view pf) (nodes (tasks_doc w js) (length g) [] []) [bld__task_new 0] = Inr (Returns (collected (map2 task_of ns js), 0))"
    using tasks_collected [OF assms(4)] by blast
  obtain t where t: "json__parse ((g @ render (tasks_doc w js) @ rest) @ [CHR 0x00]) (length (g @ render (tasks_doc w js) @ rest)) garbage = Inr (t, Some 1)"
      "bind_r (json__visitor n (bld__gather_tasks pf) t 1 [bld__task_new 0]) (\<lambda>(t', x', r). Inr (Returns (x', r)))
        = visit_views (gather_view pf) (nodes (tasks_doc w js) (length g) [] []) [bld__task_new 0]"
    using parse_found [OF assms(5) wf assms(3) refl] walks_outcome [OF member_walked [OF cb _ wf assms(6) [unfolded doc]]]
    unfolding doc by blast
  then show ?thesis
    using ns by (auto elim!: returns_elim)
qed

text \<open>
  C2. A file that lists jobs, none of them waiting for itself, is turned into the right commands, if every
  program that is started returns 0 and the platform is not Windows: the builder starts exactly the named
  job and the jobs it depends on, directly or through others, each once and after all the jobs it depends
  on, with the command and the arguments that the file gives it. (A program that fails stops the builder
  earlier, and on Windows commands are made in another way.)
\<close>

theorem build_runs_jobs:
  assumes "w \<noteq> []" "list_all is_ws w" "list_all is_ws g" "list_all wf_job js" "length garbage = 22"
    and "read_file (take 1022 (workspace @ ''/.vscode/tasks.json'')) = Some (g @ render (tasks_doc w js) @ rest)"
    and "k < length js" "job_label (js ! k) = name" "\<forall>i < k. job_label (js ! i) \<noteq> name"
    and "acyclic (job_order js)" "\<forall>dir argv. os_spawn os dir argv = 0" "pf \<noteq> Windows"
    and "fuel_doc (tasks_doc w js) + length js < n"
  shows "\<exists>b. build_main n os pf garbage [prog, workspace, name] read_file here = Inr (Returns (0, Some b)) \<and>
    set (map fst (started b)) = (job_order js)\<^sup>* `` {k} \<and> distinct (map fst (started b)) \<and>
    (\<forall>i < length (started b). job_order js `` {fst (started b ! i)} \<subseteq> set (map fst (take i (started b)))) \<and>
    (\<forall>(i, dir, argv) \<in> set (started b). argv = job_argv (js ! i))"
proof -
  let ?text = "g @ render (tasks_doc w js) @ rest"
  have fuel: "fuel_doc (tasks_doc w js) \<le> n" using assms(13) by simp
  obtain t t' ns where ns: "length ns = length js" and
      t: "json__parse (?text @ [CHR 0x00]) (length ?text) garbage = Inr (t, Some 1)"
      "json__visitor n (bld__gather_tasks pf) t 1 [bld__task_new 0] = Inr (Returns (t', collected (map2 task_of ns js), 0))"
    using build_parses [OF assms(1-5) fuel] by blast
  let ?ts = "map2 task_of ns js"
  have len: "length ?ts = length js" using ns by simp
  then have collected: "collected ?ts = ?ts" using assms(7) by (auto simp: collected_def)
  have acyclic: "acyclic (dependencies ?ts)" "length ?ts < n" "\<forall>t \<in> set ?ts. \<not> finished t"
    using assms(10,13) ns unfolding order_dependencies [OF assms(4) ns] by (auto simp: task_of_fields(4) elim!: in_set_zipE) (simp add: task_of_def bld__task_new_def)
  obtain b where b: "bld__make n os pf workspace name (fresh ?ts here) = Some (0, b)"
      "set (map fst (started b)) = (dependencies ?ts)\<^sup>* `` {k}" "in_order (targets ?ts) (map fst (started b))"
    using make_runs [OF job_found [OF ns assms(7-9)] acyclic(1,3) assms(11) acyclic(2)] by blast
  have "(job_order js)\<^sup>* `` {k} \<subseteq> {..<length js}"
    using assms(7) by (auto elim!: rtranclE simp: job_order_def)
  then have below: "i < length js" if "i \<in> set (map fst (started b))" for i
    using that b(2) order_dependencies [OF assms(4) ns] by auto
  have content: "?text \<noteq> []" by (simp add: tasks_doc_def)
  have "build_main n os pf garbage [prog, workspace, name] read_file here = Inr (Returns (0, Some b))"
    using t b(1) assms(6) content by (simp add: build_main_def json__load_file_def fresh_def collected)
  moreover have "argv = job_argv (js ! i)" if "(i, dir, argv) \<in> set (started b)" for i dir argv
  proof -
    have "i < length js" using that below by force
    then show ?thesis
      using make_logged [OF b(1)] that assms(4,12) ns by (auto simp: logged_def task_of_fields list_all_length)
  qed
  moreover have "job_order js `` {fst (started b ! i)} \<subseteq> set (map fst (take i (started b)))" if "i < length (started b)" for i
  proof -
    have "fst (started b ! i) < length js" using that by (intro below) simp
    then have "job_order js `` {fst (started b ! i)} = set (targets ?ts (fst (started b ! i)))"
      using job_targets [OF assms(4) ns] by simp
    then show ?thesis using b(3) that by (simp add: in_order_def take_map)
  qed
  ultimately show ?thesis
    using b(2,3) order_dependencies [OF assms(4) ns] by (auto simp: in_order_def)
qed

lemma build_runs_jobs_witness:
  "let js = [\<lparr>job_label = ''all'', job_command = ''true'', job_args = [], job_deps = [''lib'']\<rparr>,
             \<lparr>job_label = ''lib'', job_command = ''cc'', job_args = [''-c'', ''a.c''], job_deps = []\<rparr>] in
   \<exists>b. build_main 1000 succeeding Linux (replicate 22 zero_obj) [''build'', ''/p'', ''all'']
        (\<lambda>f. if f = ''/p/.vscode/tasks.json'' then Some ([] @ render (tasks_doc '' '' js) @ []) else None) ''/'' = Inr (Returns (0, Some b)) \<and>
    set (map fst (started b)) = (job_order js)\<^sup>* `` {0} \<and> distinct (map fst (started b)) \<and>
    (\<forall>i < length (started b). job_order js `` {fst (started b ! i)} \<subseteq> set (map fst (take i (started b)))) \<and>
    (\<forall>(i, dir, argv) \<in> set (started b). argv = job_argv (js ! i))"
proof -
  let ?js = "[\<lparr>job_label = ''all'', job_command = ''true'', job_args = [], job_deps = [''lib'']\<rparr>,
             \<lparr>job_label = ''lib'', job_command = ''cc'', job_args = [''-c'', ''a.c''], job_deps = []\<rparr>]"
  have "job_order ?js = {(0, 1)}"
    by (auto simp: job_order_def less_Suc_eq)
  moreover have "acyclic {(0::nat, 1::nat)}"
    by (rule acyclicI_order [where f = "\<lambda>k. 2 - k"]) auto
  ultimately have "acyclic (job_order ?js)" by simp
  moreover have "list_all wf_job ?js"
    by (simp add: wf_job_def fits_def bld__MAX_LABEL_def bld__MAX_PATH_def bld__MAX_CHILDREN_def)
  moreover have "fuel_doc (tasks_doc '' '' ?js) + length ?js < 1000"
    by (simp add: tasks_doc_def job_doc_def job_members_def strings_def)
  ultimately show ?thesis
    using build_runs_jobs [of "'' ''" "[]" ?js "replicate 22 zero_obj" "\<lambda>f. if f = ''/p/.vscode/tasks.json''
        then Some ([] @ render (tasks_doc '' '' ?js) @ []) else None" "''/p''" "[]" 0 "''all''" succeeding Linux 1000 "''build''" "''/''"]
    by (simp add: succeeding_def is_ws_def)
qed

end
