(* ===== verification/Processes.thy ===== *)
theory Processes
  imports BuildTasks
begin

text \<open>
  How the project builder starts a program on a POSIX system (\<open>_spawnvp\<close> of \<open>tools/build.c\<close>): \<open>fork\<close>,
  \<open>execve\<close> in the child, \<open>waitpid\<close> in the parent. A child that cannot execute the program goes on as a
  second copy of the builder, and what it ends with is what the parent sees.
\<close>

datatype exec_outcome = Exec_fails | Exit_status nat | Ended_by_signal

text \<open>
  \<open>copy_status\<close> is the status with which the copy of the builder ends. Without \<open>P_WAIT\<close> the status is 0.
\<close>

definition spawnvp :: "bool \<Rightarrow> int \<Rightarrow> exec_outcome \<Rightarrow> int" where
  "spawnvp p_wait copy_status e =
     (if p_wait
      then (case e of
              Exec_fails \<Rightarrow> copy_status mod 256
            | Exit_status s \<Rightarrow> int s mod 256
            | Ended_by_signal \<Rightarrow> -1)
      else 0)"

definition posix_os :: "(string \<Rightarrow> string \<Rightarrow> string) \<Rightarrow> (string \<Rightarrow> string list \<Rightarrow> exec_outcome) \<Rightarrow> int \<Rightarrow> os" where
  "posix_os chdir exec copy_status = \<lparr>os_chdir = chdir, os_spawn = (\<lambda>dir argv. spawnvp True copy_status (exec dir argv))\<rparr>"

lemma bind_r_Returns: "bind_r r f = Inr (Returns y) \<longleftrightarrow> (\<exists>x. r = Inr (Returns x) \<and> f x = Inr (Returns y))"
  by (cases r) (auto simp: bind_r_def split: run.splits)

text \<open>Whatever becomes of the tasks, the status of a run that got as far as them is 0.\<close>

lemma build_main_status:
  assumes "build_main n os pf garbage argv read_file here = Inr (Returns (st, Some b))"
  shows "st = 0"
  using assms unfolding build_main_def
  by (auto simp: bind_r_Returns split: if_splits option.splits)

text \<open>
  A program that cannot be executed counts as one that succeeded: the copy of the builder, for which the
  start has failed, ends like every run with status 0, and for this status the parent finishes the task
  without an error, so the tasks that depend on it are started. A program that fails or is killed is noticed.
\<close>

lemma failed_start_is_success:
  assumes "build_main n os pf garbage argv read_file here = Inr (Returns (copy_status, Some b'))"
    and "\<not> finished (tasks b ! k)"
  shows "let (r, b1) = bld__exec (posix_os chdir exec copy_status) pf workspace k b; (_, dir, argv) = last (started b1)
    in r = (case exec dir argv of Exec_fails \<Rightarrow> 0 | Exit_status s \<Rightarrow> if s mod 256 = 0 then 0 else -1 | Ended_by_signal \<Rightarrow> -1)"
proof -
  have "copy_status = 0" using build_main_status [OF assms(1)] .
  moreover have "(int s mod 256 = 0) = (s mod 256 = 0)" for s
    using zmod_int [of s 256] by simp linarith
  ultimately have spawn: "(spawnvp True copy_status e \<noteq> 0) \<longleftrightarrow>
      (case e of Exec_fails \<Rightarrow> False | Exit_status s \<Rightarrow> s mod 256 \<noteq> 0 | Ended_by_signal \<Rightarrow> True)" for e
    by (simp add: spawnvp_def split: exec_outcome.split)
  show ?thesis
    using assms(2) by (simp add: bld__exec_def posix_os_def spawn Let_def split: exec_outcome.split)
qed

end
