(* ===== verification/Ternary.thy ===== *)
theory Ternary
  imports CLib
begin

text \<open>
  Balanced ternary numbers as the tools of the soft core use them: sixteen trits of two bits each in
  a 32-bit word, 01 for plus and 10 for minus (\<open>tools/bin2ter.c\<close>). \<open>int\<close> arithmetic of the source
  never leaves its range here, so it is the integers.
\<close>

section \<open>The table generator\<close>

text \<open>\<open>max3\<close> after the loop of \<open>main\<close> that multiplies it fifteen times by 3.\<close>

definition max3 :: int where
  "max3 = ((\<lambda>m. m * 3) ^^ 15) 1"

function b2t_loop :: "int \<Rightarrow> int \<Rightarrow> u32 \<Rightarrow> u32" where
  "b2t_loop n v t =
     (if n > 0
      then let t = push_bit 2 t in
           if v = 0 then b2t_loop (n div 3) v t
           else if v > n div 2 then b2t_loop (n div 3) (v - n) (t OR 1)
           else if v < - (n div 2) then b2t_loop (n div 3) (v + n) (t OR 2)
           else b2t_loop (n div 3) v t
      else t)"
  by pat_completeness auto
termination
  by (relation "measure (\<lambda>(n, v, t). nat n)") auto

declare b2t_loop.simps [simp del]

definition b2t :: "int \<Rightarrow> u32" where
  "b2t v = b2t_loop max3 v 0"

section \<open>The value of a word\<close>

text \<open>A pair of bits; the pair 11 is not a trit, and stands for nothing here.\<close>

definition trit_value :: "nat \<Rightarrow> int" where
  "trit_value d = (if d = 1 then 1 else if d = 2 then -1 else 0)"

fun ter_nat :: "nat \<Rightarrow> int" where
  "ter_nat n = (if n = 0 then 0 else 3 * ter_nat (n div 4) + trit_value (n mod 4))"

declare ter_nat.simps [simp del]

definition ter_value :: "u32 \<Rightarrow> int" where
  "ter_value t = ter_nat (unat t)"

lemma ter_nat_push: "d < 4 \<Longrightarrow> ter_nat (4 * n + d) = 3 * ter_nat n + trit_value d"
  by (subst ter_nat.simps) (auto simp: ter_nat.simps [of 0] trit_value_def)

lemma push_trit:
  assumes "unat t < 2 ^ 30" "d \<in> {0, 1, 2}"
  shows "unat (push_bit 2 t OR d) = 4 * unat t + unat (d :: u32)"
proof -
  have "n < 2" if "bit d n" for n
    using assms(2) that bit_exp_iff [of 1 n, where 'a = u32] by (auto simp: bit_1_iff)
  then have disj: "push_bit 2 t AND d = 0"
    by (intro bit_word_eqI) (force simp: bit_simps)
  have "unat (push_bit 2 t) = 4 * unat t"
    using assms(1) by (simp add: push_bit_eq_mult unat_word_ariths)
  moreover have "unat d \<le> 2" using assms(2) by auto
  ultimately have "unat (push_bit 2 t + d) = 4 * unat t + unat d"
    using assms(1) by (subst unat_add_lem [THEN iffD1]) auto
  then show ?thesis using disjunctive_add_eq_or [OF disj] by simp
qed

lemma odd_half: "odd (n::int) \<Longrightarrow> n div 2 = (n - 1) div 2 \<and> (3 * n - 1) div 2 = n + (n - 1) div 2"
  by (auto elim!: oddE)

lemma trit_step:
  "\<bar>v\<bar> \<le> n + h \<Longrightarrow> n = 2 * h + 1 \<Longrightarrow> \<bar>v - n * (if v > h then 1 else if v < - h then -1 else 0)\<bar> \<le> (h::int)"
  by auto

lemma b2t_loop_value:
  "\<bar>v\<bar> \<le> (3 ^ Suc k - 1) div 2 \<Longrightarrow> unat t < 4 ^ (15 - k) \<Longrightarrow> k \<le> 15 \<Longrightarrow>
   ter_nat (unat (b2t_loop (3 ^ k) v t)) = 3 ^ Suc k * ter_nat (unat t) + v"
proof (induction k arbitrary: v t)
  case 0
  then have v: "v = 0 \<or> v = 1 \<or> v = -1" and t: "unat t < 2 ^ 30" by auto
  define d :: u32 where "d = (if v = 1 then 1 else if v = -1 then 2 else 0)"
  have "b2t_loop 1 v t = push_bit 2 t OR d"
    using v b2t_loop.simps [of 1 v t] b2t_loop.simps [of 0]
    by (elim disjE) (simp_all add: Let_def d_def)
  moreover have "unat (push_bit 2 t OR d) = 4 * unat t + unat d" "unat d < 4" "trit_value (unat d) = v"
    using push_trit [OF t, of d] v by (auto simp: d_def trit_value_def)
  ultimately show ?case using ter_nat_push [of "unat d" "unat t"] by simp
next
  case (Suc k)
  let ?n = "3 ^ Suc k :: int"
  define d :: u32 where "d = (if v > ?n div 2 then 1 else if v < - (?n div 2) then 2 else 0)"
  define w where "w = v - ?n * trit_value (unat d)"
  have pow: "(4::nat) ^ (15 - Suc k) \<le> 4 ^ 14" by (rule power_increasing) auto
  then have t: "unat t < 2 ^ 30" using Suc.prems(2) by simp
  have step: "b2t_loop ?n v t = b2t_loop (3 ^ k) w (push_bit 2 t OR d)"
    by (subst b2t_loop.simps) (auto simp: Let_def d_def w_def trit_value_def)
  have odd: "?n div 2 = (?n - 1) div 2" "(3 ^ Suc (Suc k) - 1) div 2 = ?n + (?n - 1) div 2"
    using odd_half [of "?n"] by simp_all
  have "\<bar>w\<bar> \<le> (?n - 1) div 2"
  proof -
    have digit: "trit_value (unat d) = (if v > ?n div 2 then 1 else if v < - (?n div 2) then -1 else 0)"
      by (simp add: d_def trit_value_def)
    have "odd ?n" by simp
    then obtain h where h: "?n = 2 * h + 1" by (elim oddE)
    then have half: "?n div 2 = h" "(?n - 1) div 2 = h" by simp_all
    show ?thesis
      unfolding w_def digit half using Suc.prems(1) unfolding odd(2) half by (rule trit_step [OF _ h])
  qed
  moreover have d: "d \<in> {0, 1, 2}" by (simp add: d_def)
  moreover have "unat (push_bit 2 t OR d) = 4 * unat t + unat d" "unat d < 4"
    using push_trit [OF t d] d by auto
  moreover have "4 * unat t + unat d < 4 ^ (15 - k)"
  proof -
    have "(4::nat) ^ (15 - k) = 4 * 4 ^ (15 - Suc k)" using Suc.prems(3) by (simp add: Suc_diff_le [symmetric] flip: power_Suc)
    moreover have "unat d \<le> 2" using d by auto
    ultimately show ?thesis using Suc.prems(2) by linarith
  qed
  ultimately have "ter_nat (unat (b2t_loop (3 ^ k) w (push_bit 2 t OR d)))
      = 3 ^ Suc k * (3 * ter_nat (unat t) + trit_value (unat d)) + w"
    using Suc.IH [of w "push_bit 2 t OR d"] Suc.prems(3) ter_nat_push [of "unat d" "unat t"] by simp
  then show ?case unfolding step by (simp add: w_def algebra_simps)
qed

definition ter_max :: int where "ter_max = (3 ^ 16 - 1) div 2"

lemma b2t_value: "\<bar>v\<bar> \<le> ter_max \<Longrightarrow> ter_value (b2t v) = v"
  using b2t_loop_value [of v 15 0]
  by (simp add: ter_value_def b2t_def max3_def ter_max_def ter_nat.simps [of 0] numeral_eq_Suc)

text \<open>Every pair of bits of the result is a trit.\<close>

fun trits :: "nat \<Rightarrow> bool" where
  "trits n = (if n = 0 then True else n mod 4 \<noteq> 3 \<and> trits (n div 4))"

declare trits.simps [simp del]

lemma trits_push: "trits n \<Longrightarrow> d < 3 \<Longrightarrow> trits (4 * n + d)"
  by (subst trits.simps) auto

lemma b2t_loop_step:
  assumes "n > 0"
  shows "\<exists>d w. d \<in> {0, 1, 2} \<and> b2t_loop n v t = b2t_loop (n div 3) w (push_bit 2 t OR d)"
proof -
  have "b2t_loop n v t = b2t_loop (n div 3) v (push_bit 2 t OR 0) \<or>
      b2t_loop n v t = b2t_loop (n div 3) (v - n) (push_bit 2 t OR 1) \<or>
      b2t_loop n v t = b2t_loop (n div 3) (v + n) (push_bit 2 t OR 2)"
    using assms by (simp add: b2t_loop.simps [of n v t] Let_def)
  then show ?thesis by blast
qed

lemma b2t_loop_Suc:
  obtains d w where "d \<in> {0, 1, 2}" "b2t_loop (3 ^ Suc k) v t = b2t_loop (3 ^ k) w (push_bit 2 t OR d)"
proof -
  have "(3::int) ^ Suc k > 0" "(3::int) ^ Suc k div 3 = 3 ^ k" by simp_all
  then show ?thesis using b2t_loop_step [of "3 ^ Suc k" v t] that by metis
qed

lemma b2t_loop_one:
  obtains d where "d \<in> {0, 1, 2}" "b2t_loop (3 ^ 0) v t = push_bit 2 t OR d"
proof -
  have "\<exists>d w. d \<in> {0, 1, 2} \<and> b2t_loop 1 v t = b2t_loop 0 w (push_bit 2 t OR d)"
    using b2t_loop_step [of 1 v t] by simp
  then show ?thesis using that by (auto simp only: b2t_loop.simps [of 0] power_0 less_irrefl if_False)
qed

lemma b2t_loop_trits:
  "trits (unat t) \<Longrightarrow> unat t < 4 ^ (15 - k) \<Longrightarrow> k \<le> 15 \<Longrightarrow> trits (unat (b2t_loop (3 ^ k) v t))"
proof (induction k arbitrary: v t)
  case (Suc k)
  have "(4::nat) ^ (15 - Suc k) \<le> 4 ^ 14" by (rule power_increasing) auto
  then have t: "unat t < 2 ^ 30" using Suc.prems(2) by simp
  obtain d w where d: "d \<in> {0, 1, 2}" and step: "b2t_loop (3 ^ Suc k) v t = b2t_loop (3 ^ k) w (push_bit 2 t OR d)"
    by (rule b2t_loop_Suc)
  have "unat d < 3" "unat d \<le> 2" using d by auto
  moreover have "(4::nat) ^ (15 - k) = 4 * 4 ^ (15 - Suc k)"
    using Suc.prems(3) by (simp add: Suc_diff_le [symmetric] flip: power_Suc)
  ultimately show ?case
    unfolding step using push_trit [OF t d] trits_push [OF Suc.prems(1), of "unat d"] Suc.prems(2,3)
    by (intro Suc.IH) (simp, linarith, simp)
next
  case 0
  obtain d where d: "d \<in> {0, 1, 2}" and step: "b2t_loop (3 ^ 0) v t = push_bit 2 t OR d"
    by (rule b2t_loop_one)
  have "unat d < 3" using d by auto
  then show ?case
    using step push_trit [OF _ d, of t] trits_push [OF 0(1), of "unat d"] 0(2) by simp
qed

lemma b2t_trits: "trits (unat (b2t v))"
  using b2t_loop_trits [of 0 15 v] by (simp add: b2t_def max3_def trits.simps [of 0] numeral_eq_Suc)

section \<open>The tables\<close>

text \<open>The rows of the two files: the address, the data and the number in the comment.\<close>

definition mask6 :: "int \<Rightarrow> nat" where
  "mask6 i = unat (word_of_int i AND (0x3F :: u32))"

definition t3 :: int where
  "t3 = ((\<lambda>t. t * 3) ^^ 5) 1"

text \<open>The two loops of \<open>main\<close> from the number \<open>i\<close> on.\<close>

function b2t_from :: "int \<Rightarrow> (nat \<times> nat \<times> int) list" where
  "b2t_from i = (if i < 32 then (mask6 i, unat (b2t i), i) # b2t_from (i + 1) else [])"
  by pat_completeness auto
termination
  by (relation "measure (\<lambda>i. nat (32 - i))") auto

function t2b_from :: "int \<Rightarrow> (nat \<times> nat \<times> int) list" where
  "t2b_from i = (if i \<le> t3 \<and> i < 32 then (unat (b2t i), mask6 i, i) # t2b_from (i + 1) else [])"
  by pat_completeness auto
termination
  by (relation "measure (\<lambda>i. nat (t3 + 1 - i))") auto

declare b2t_from.simps [simp del] t2b_from.simps [simp del]

definition b2t_rows :: "(nat \<times> nat \<times> int) list" where
  "b2t_rows = b2t_from (- 31)"

definition t2b_rows :: "(nat \<times> nat \<times> int) list" where
  "t2b_rows = t2b_from (- 31)"

section \<open>The lines of the tables\<close>

definition b2t_line :: "nat \<times> nat \<times> int \<Rightarrow> string" where
  "b2t_line r = (case r of (a, d, i) \<Rightarrow>
     CHR 0x09 # CHR 0x27 # ''h'' @ print_hex 4 a @ '': O_dat <= 8'' @ CHR 0x27 # ''h'' @ print_hex 2 d @
     ''; // '' @ print_dec i @ '' '' @ [CHR 0x0A])"

definition t2b_line :: "nat \<times> nat \<times> int \<Rightarrow> string" where
  "t2b_line r = (case r of (a, d, i) \<Rightarrow>
     CHR 0x09 # CHR 0x27 # ''h'' @ print_hex 4 a @ '': O_dat <= 6'' @ CHR 0x27 # ''h'' @ print_hex 2 d @
     ''; // '' @ print_dec i @ [CHR 0x0A])"

text \<open>\<open>main\<close>: the exit status and the contents of the two files.\<close>

definition bin2ter_main :: "string list \<Rightarrow> int \<times> (string \<times> string) option" where
  "bin2ter_main argv = (if length argv < 3 then (-1, None)
     else (0, Some (concat (map b2t_line b2t_rows), concat (map t2b_line t2b_rows))))"

section \<open>Properties\<close>

text \<open>
  C27. Every number of sixteen trits is encoded as itself: each pair of bits of the word is a trit, and
  the word has the value that was given.
\<close>

theorem b2t_encodes:
  assumes "\<bar>v\<bar> \<le> ter_max"
  shows "ter_value (b2t v) = v \<and> trits (unat (b2t v))"
  using b2t_value [OF assms] b2t_trits by simp

lemma b2t_encodes_witness: "ter_value (b2t (- 31)) = - 31 \<and> trits (unat (b2t (- 31)))"
  by (rule b2t_encodes) (simp add: ter_max_def)

lemma b2t_loop_bound:
  "unat t < 4 ^ j \<Longrightarrow> j + k < 16 \<Longrightarrow> unat (b2t_loop (3 ^ k) v t) < 4 ^ (j + Suc k)"
proof (induction k arbitrary: v t j)
  case (Suc k)
  have "(4::nat) ^ j \<le> 4 ^ 15" using Suc.prems(2) by (intro power_increasing) auto
  then have t: "unat t < 2 ^ 30" using Suc.prems(1) by simp
  obtain d w where d: "d \<in> {0, 1, 2}" and step: "b2t_loop (3 ^ Suc k) v t = b2t_loop (3 ^ k) w (push_bit 2 t OR d)"
    by (rule b2t_loop_Suc)
  have "unat d \<le> 2" using d by auto
  then have "unat (push_bit 2 t OR d) < 4 ^ Suc j"
    using push_trit [OF t d] Suc.prems(1) by simp
  then show ?case unfolding step using Suc.IH [of "push_bit 2 t OR d" "Suc j" w] Suc.prems(2) by simp
next
  case 0
  have "(4::nat) ^ j \<le> 4 ^ 15" using 0(2) by (intro power_increasing) auto
  then have t: "unat t < 2 ^ 30" using 0(1) by simp
  obtain d where d: "d \<in> {0, 1, 2}" and step: "b2t_loop (3 ^ 0) v t = push_bit 2 t OR d"
    by (rule b2t_loop_one)
  have "unat d \<le> 2" using d by auto
  then show ?case using step push_trit [OF t d] 0(1) by simp
qed

lemma b2t_loop_skip:
  "\<bar>v\<bar> \<le> (3 ^ m - 1) div 2 \<Longrightarrow> b2t_loop (3 ^ (m + k)) v 0 = b2t_loop (3 ^ m div 3) v 0"
proof (induction k)
  case 0
  then show ?case by (subst b2t_loop.simps) (auto simp: Let_def)
next
  case (Suc k)
  have "(3::int) ^ m \<le> 3 ^ Suc (m + k)" by (rule power_increasing) auto
  then have "\<not> v > 3 ^ Suc (m + k) div 2" "\<not> v < - (3 ^ Suc (m + k) div 2)"
    using Suc.prems zdiv_mono1 [of "3 ^ m - 1" "3 ^ Suc (m + k)" "2 :: int"] by linarith+
  then have "b2t_loop (3 ^ Suc (m + k)) v 0 = b2t_loop (3 ^ Suc (m + k) div 3) v 0"
    by (subst b2t_loop.simps) (auto simp: Let_def simp del: power_Suc)
  then show ?case using Suc by simp
qed

lemma b2t_small: "\<bar>v\<bar> \<le> 40 \<Longrightarrow> unat (b2t v) < 256"
  using b2t_loop_skip [of v 4 11] b2t_loop_bound [of 0 0 3 v]
  by (simp add: b2t_def max3_def numeral_eq_Suc)

lemma b2t_inj: "b2t i = b2t j \<Longrightarrow> \<bar>i\<bar> \<le> ter_max \<Longrightarrow> \<bar>j\<bar> \<le> ter_max \<Longrightarrow> i = j"
  by (metis b2t_value)

lemma mask6_mod: "mask6 i = nat (i mod 64)"
proof -
  have "(0x3F :: u32) = mask 6" by (simp add: mask_eq_exp_minus_1)
  then have "word_of_int i AND (0x3F :: u32) = take_bit 6 (word_of_int i)" by (simp only: take_bit_eq_mask)
  then have "mask6 i = nat (uint (take_bit 6 (word_of_int i :: u32)))"
    unfolding mask6_def unat_eq_nat_uint by (simp only:)
  also have "uint (take_bit 6 (word_of_int i :: u32)) = take_bit 6 i"
    by transfer simp
  finally show ?thesis by (simp add: take_bit_eq_mod)
qed

lemma mask6_inj: "mask6 i = mask6 j \<Longrightarrow> \<bar>i\<bar> < 32 \<Longrightarrow> \<bar>j\<bar> < 32 \<Longrightarrow> i = j"
proof -
  assume "mask6 i = mask6 j" and small: "\<bar>i\<bar> < 32" "\<bar>j\<bar> < 32"
  then have "i mod 64 = j mod 64" by (simp add: mask6_mod)
  then have "64 dvd i - j" by (simp only: mod_eq_dvd_iff)
  then obtain k where "i - j = 64 * k" by (elim dvdE)
  moreover from this have "k < 1" "k > -1" using small by linarith+
  ultimately show "i = j" by simp
qed

text \<open>Both loops run through the same numbers.\<close>

definition numbers :: "int list" where
  "numbers = [-31..31]"

lemma set_numbers: "set numbers = {-31..31}" and distinct_numbers: "distinct numbers"
  by (simp_all only: numbers_def set_upto distinct_upto)

lemma b2t_from_upto: "b2t_from i = map (\<lambda>i. (mask6 i, unat (b2t i), i)) [i..31]"
  by (induction i rule: b2t_from.induct) (subst b2t_from.simps, subst upto.simps, simp)

lemma t2b_from_upto: "t2b_from i = map (\<lambda>i. (unat (b2t i), mask6 i, i)) [i..31]"
proof (induction i rule: t2b_from.induct)
  case (1 i)
  have "t3 = 243" by (simp add: t3_def numeral_eq_Suc)
  then show ?case using 1 by (subst t2b_from.simps, subst upto.simps) simp
qed

lemma rows_all:
  "b2t_rows = map (\<lambda>i. (mask6 i, unat (b2t i), i)) numbers"
  "t2b_rows = map (\<lambda>i. (unat (b2t i), mask6 i, i)) numbers"
  by (simp_all only: b2t_rows_def t2b_rows_def b2t_from_upto t2b_from_upto numbers_def)

text \<open>A table as the module reads it: the data at an address.\<close>

definition lookup_row :: "(nat \<times> nat \<times> int) list \<Rightarrow> nat \<Rightarrow> nat option" where
  "lookup_row rows = map_of (map (\<lambda>(a, d, i). (a, d)) rows)"

lemma lookup_row_in: "distinct (map fst rows) \<Longrightarrow> (a, d, i) \<in> set rows \<Longrightarrow> lookup_row rows a = Some d"
  unfolding lookup_row_def by (intro map_of_is_SomeI) (force simp: comp_def case_prod_beta)+

text \<open>
  C28. The two tables are inverse to each other: what either gives for the data of a row of the other is
  the address of that row. No address occurs twice in either. The numbers of six bits fit six bits and
  the words fit eight bits, as address and as data, so no row is printed with cut data.
\<close>

theorem tables_inverse:
  "list_all (\<lambda>(a, d, i). a < 64 \<and> d < 256 \<and> lookup_row t2b_rows d = Some a) b2t_rows \<and>
   list_all (\<lambda>(a, d, i). a < 256 \<and> d < 64 \<and> lookup_row b2t_rows d = Some a) t2b_rows \<and>
   distinct (map fst b2t_rows) \<and> distinct (map fst t2b_rows)"
proof -
  have range: "\<bar>i\<bar> < 32" "\<bar>i\<bar> \<le> ter_max" "\<bar>i\<bar> \<le> 40" if "i \<in> set numbers" for i
    using that by (auto simp: ter_max_def set_numbers)
  have "inj_on mask6 (set numbers)"
    by (intro inj_onI) (rule mask6_inj, simp_all only: range)
  moreover have "inj_on (\<lambda>i. unat (b2t i)) (set numbers)"
  proof (intro inj_onI)
    fix i j assume "i \<in> set numbers" "j \<in> set numbers" "unat (b2t i) = unat (b2t j)"
    then show "i = j" using range(2) b2t_inj by (simp only: unsigned_word_eqI)
  qed
  ultimately have keys: "distinct (map fst b2t_rows)" "distinct (map fst t2b_rows)"
    by (simp_all add: rows_all comp_def distinct_map distinct_numbers)
  have "lookup_row t2b_rows (unat (b2t i)) = Some (mask6 i)" "lookup_row b2t_rows (mask6 i) = Some (unat (b2t i))"
    if "i \<in> set numbers" for i
    using that by (intro lookup_row_in [OF keys(2), of _ _ i] lookup_row_in [OF keys(1), of _ _ i]; simp add: rows_all)+
  moreover have "unat (b2t i) < 256" "mask6 i < 64" if "i \<in> set numbers" for i
    using b2t_small range(3) [OF that] by (simp_all add: mask6_mod)
  ultimately have "list_all (\<lambda>(a, d, i). a < 64 \<and> d < 256 \<and> lookup_row t2b_rows d = Some a) b2t_rows"
    "list_all (\<lambda>(a, d, i). a < 256 \<and> d < 64 \<and> lookup_row b2t_rows d = Some a) t2b_rows"
    unfolding list_all_iff by (auto simp only: rows_all set_map prod.case)
  then show ?thesis using keys by (simp only: simp_thms)
qed

end
