(* ===== verification/Assembler.thy ===== *)
theory Assembler
  imports Ternary
begin

text \<open>
  The assembler of the ternary core (\<open>tools/cod5asm.c\<close>). Its output is the list of rows it prints,
  each the address and the word of one line of the Verilog table.
\<close>

section \<open>The opcodes\<close>

text \<open>The name of an opcode and whether it takes a constant; the trits of all of them are \<open>----\<close>.\<close>

definition ops :: "(string \<times> bool) list" where
  "ops = [(''add'', False), (''sub'', False), (''ld'', False), (''st'', False), (''ldia'', True), (''ldib'', True),
     (''swap'', False), (''push'', False), (''pop'', False), (''call'', False), (''ret'', False), (''shift'', False),
     (''xor'', False), (''cons'', False), (''any'', False), (''slt'', False), (''pushr'', False), (''popr'', False),
     (''beq'', False), (''bne'', False), (''jmp'', False), (''nop'', False)]"

definition op_t4 :: string where
  "op_t4 = ''----''"

section \<open>Constants\<close>

text \<open>
  The loop of \<open>bin2ter\<close> over \<open>n = 3\<close> to the power 15 down to 1, with the characters it writes. They go
  to the buffer in four groups, the group of the lowest places first, each followed by a comma but
  the last.
\<close>

fun bin2ter_loop :: "nat \<Rightarrow> int \<Rightarrow> string" where
  "bin2ter_loop 0 v = []"
| "bin2ter_loop (Suc i) v =
     (let n = 3 ^ i in
      if v = n div 2 then CHR ''+'' # bin2ter_loop i (v - n)
      else if v = - (n div 2) then CHR ''-'' # bin2ter_loop i (v + n)
      else CHR ''0'' # bin2ter_loop i v)"

definition bin2ter :: "int \<Rightarrow> string" where
  "bin2ter v = (let ds = bin2ter_loop 16 v in
     take 4 (drop 12 ds) @ '','' @ take 4 (drop 8 ds) @ '','' @ take 4 (drop 4 ds) @ '','' @ take 4 ds)"

section \<open>Emitting trits\<close>

record asm =
  offset :: nat
  val :: u32
  rows :: "(nat \<times> u32) list"

text \<open>The word read from a group, and the text after it; an error stops the reading and emits nothing.\<close>

fun t4_scan :: "string \<Rightarrow> u32 \<Rightarrow> (string \<times> u32) option" where
  "t4_scan [] v = Some ([], v)"
| "t4_scan (c # cs) v =
     (if c = CHR ''+'' then t4_scan cs (push_bit 2 v OR 1)
      else if c = CHR ''-'' then t4_scan cs (push_bit 2 v OR 2)
      else if c = CHR ''0'' then t4_scan cs (push_bit 2 v OR 0)
      else if c = CHR '','' then Some (c # cs, v)
      else if isspace c then Some (dropWhile isspace (c # cs), v)
      else None)"

definition emit :: "u32 \<Rightarrow> asm \<Rightarrow> asm" where
  "emit v a = (let k = offset a mod 4 in
     if k = 0 then a\<lparr>val := v, offset := offset a + 1\<rparr>
     else if k = 1 then a\<lparr>val := val a OR push_bit 8 v, offset := offset a + 1\<rparr>
     else if k = 2 then a\<lparr>val := val a OR push_bit 16 v, offset := offset a + 1\<rparr>
     else a\<lparr>rows := rows a @ [(4 * (offset a div 4), val a OR push_bit 24 v)], val := 0, offset := offset a + 1\<rparr>)"

definition add_t4 :: "string \<Rightarrow> asm \<Rightarrow> string \<times> asm" where
  "add_t4 s a = (case t4_scan (dropWhile isspace s) 0 of
       None \<Rightarrow> ([], a)
     | Some (rest, v) \<Rightarrow> (rest, emit v a))"

section \<open>Instructions\<close>

text \<open>
  The comparison with the name of an opcode; it stops at the first difference, and where both end
  at once it runs on over whatever the two buffers hold.
\<close>

fun match_name :: "string \<Rightarrow> string \<Rightarrow> string c" where
  "match_name [] [] = Inl Uninitialised"
| "match_name (x # s) (y # n) = (if x = y then match_name s n else Inr (x # s))"
| "match_name s n = Inr s"

text \<open>The value and the state; the constant is read as four groups of the buffer at 0, 4, 8 and 12.\<close>

definition add_operand :: "string \<Rightarrow> asm \<Rightarrow> bool \<times> asm" where
  "add_operand s a = (let s1 = dropWhile isspace s in
     if s1 = [] \<or> hd s1 = CHR '';'' then (False, a)
     else if isdigit (hd s1) \<or> hd s1 = CHR ''-''
     then let b = bin2ter (atoi s1) in
       (True, snd (add_t4 (drop 12 b) (snd (add_t4 (drop 8 b) (snd (add_t4 (drop 4 b) (snd (add_t4 b a))))))))
     else (True, a))"

fun add_opcode_loop :: "(string \<times> bool) list \<Rightarrow> string \<Rightarrow> asm \<Rightarrow> (bool \<times> asm) c" where
  "add_opcode_loop [] s a = Inr (False, a)"
| "add_opcode_loop ((name, flag) # os) s a =
     bind_c (match_name s name) (\<lambda>r.
       if r \<noteq> [] \<and> (isspace (hd r) \<or> hd r = CHR '';'')
       then let a1 = snd (add_t4 op_t4 a) in
            if flag then Inr (add_operand r a1) else Inr (True, a1)
       else add_opcode_loop os s a)"

definition add_opcode :: "string \<Rightarrow> asm \<Rightarrow> (bool \<times> asm) c" where
  "add_opcode s a = add_opcode_loop ops s a"

section \<open>Lines and files\<close>

text \<open>The groups of a \<open>.t4\<close> line, one for every comma.\<close>

function add_groups :: "string \<Rightarrow> asm \<Rightarrow> asm" where
  "add_groups s a = (let (r, a1) = add_t4 s a in
     if r \<noteq> [] \<and> hd r = CHR '','' then add_groups (tl r) a1 else a1)"
  by pat_completeness auto

lemma t4_scan_length: "t4_scan s v = Some (r, w) \<Longrightarrow> length r \<le> length s"
  by (induction s v rule: t4_scan.induct) (auto split: if_splits intro: le_SucI length_dropWhile_le)

lemma add_t4_length: "length (fst (add_t4 s a)) \<le> length s"
  using t4_scan_length [of "dropWhile isspace s" 0] length_dropWhile_le [of isspace s]
  by (fastforce simp: add_t4_def split: option.splits)

termination add_groups
proof (relation "measure (\<lambda>(s, a). length s)", simp)
  fix s a x r a1
  assume "x = add_t4 s a" "(r, a1) = x" "r \<noteq> [] \<and> hd r = CHR '',''"
  moreover from this have "length r \<le> length s" using add_t4_length [of s a] by (metis fst_conv)
  ultimately show "((tl r, a1), (s, a)) \<in> measure (\<lambda>(s, a). length s)"
    by (cases r) auto
qed

declare add_groups.simps [simp del]

text \<open>One line: whether the program goes on, and the state after it.\<close>

definition asm_line :: "string \<Rightarrow> asm \<Rightarrow> (bool \<times> asm) c" where
  "asm_line buf a = (let inst = dropWhile isspace buf in
     if inst = [] then Inr (True, a)
     else if take 3 inst = ''.t4'' \<and> length inst > 3 \<and> isspace (inst ! 3) then Inr (True, add_groups (drop 4 inst) a)
     else if hd inst = CHR '';'' then Inr (True, a)
     else if take 4 inst = ''.org'' \<and> length inst > 4 \<and> isspace (inst ! 4)
     then let n = atoi (dropWhile isspace (drop 4 inst)) in
       if n < int (offset a) then Inr (False, a)
       else Inr (True, ((\<lambda>a. snd (add_t4 ''0000'' a)) ^^ (nat n - offset a)) a)
     else add_opcode inst a)"

fun asm_lines :: "string list \<Rightarrow> asm \<Rightarrow> (bool \<times> asm) c" where
  "asm_lines [] a = Inr (True, a)"
| "asm_lines (l # ls) a =
     bind_c (asm_line l a) (\<lambda>(ok, a1). if ok then asm_lines ls a1 else Inr (False, a1))"

text \<open>The rows of a file that was read to its end: the last word need not be complete.\<close>

definition asm_flush :: "asm \<Rightarrow> (nat \<times> u32) list" where
  "asm_flush a = (if offset a mod 4 = 0 then rows a else rows a @ [(4 * (offset a div 4), val a)])"

definition asm_row :: "nat \<times> u32 \<Rightarrow> string" where
  "asm_row r = CHR 0x09 # CHR 0x27 # ''h'' @ print_hex 4 (fst r) @ '': O_dat <= 32'' @ CHR 0x27 # ''h'' @
     print_hex 8 (unat (snd r)) @ ''; '' @ [CHR 0x0A]"

text \<open>
  \<open>main\<close> with the contents of the input file: the exit status and the text written. Where a line ends
  the program, the rows written before are in the file, the word in progress is not.
\<close>

definition cod5asm_main :: "string list \<Rightarrow> (string \<Rightarrow> string option) \<Rightarrow> (int \<times> string) c" where
  "cod5asm_main argv read_file =
     (if length argv < 4 \<or> argv ! 2 \<noteq> ''-o'' then Inr (-1, [])
      else case read_file (argv ! 1) of
        None \<Rightarrow> Inl OutOfBounds
      | Some content \<Rightarrow> bind_c (asm_lines (fgets_lines 1024 content) \<lparr>offset = 0, val = 0, rows = []\<rparr>) (\<lambda>(ok, a).
          Inr (if ok then (0, concat (map asm_row (asm_flush a))) else (-1, concat (map asm_row (rows a))))))"

section \<open>Groups of trits\<close>

definition trit_code :: "char \<Rightarrow> u32" where
  "trit_code c = (if c = CHR ''+'' then 1 else if c = CHR ''-'' then 2 else 0)"

definition group_word :: "string \<Rightarrow> u32" where
  "group_word g = foldl (\<lambda>v c. push_bit 2 v OR trit_code c) 0 g"

abbreviation trit_chars :: "char set" where
  "trit_chars \<equiv> {CHR ''+'', CHR ''-'', CHR ''0''}"

text \<open>A group may be followed by the end of the line, a comma, or white space.\<close>

definition stops :: "string \<Rightarrow> bool" where
  "stops rest \<longleftrightarrow> rest = [] \<or> hd rest = CHR '','' \<or> isspace (hd rest)"

lemma not_space [simp]: "\<not> isspace (CHR ''+'')" "\<not> isspace (CHR ''-'')" "\<not> isspace (CHR ''0'')" "\<not> isspace (CHR '','')"
  by (simp_all add: isspace_def)

lemma t4_scan_group:
  "set g \<subseteq> trit_chars \<Longrightarrow> stops rest \<Longrightarrow>
   t4_scan (g @ rest) v = Some (dropWhile isspace rest, foldl (\<lambda>v c. push_bit 2 v OR trit_code c) v g)"
proof (induction g arbitrary: v)
  case Nil
  then show ?case by (cases rest) (auto simp: stops_def)
next
  case (Cons c g)
  then show ?case by (auto simp: trit_code_def)
qed

lemma add_t4_group:
  assumes "set g \<subseteq> trit_chars" "g \<noteq> []" "stops rest"
  shows "add_t4 (g @ rest) a = (dropWhile isspace rest, emit (group_word g) a)"
    and "add_t4 (CHR '' '' # g @ rest) a = (dropWhile isspace rest, emit (group_word g) a)"
proof -
  obtain c g' where g: "g = c # g'" using assms(2) by (cases g) auto
  then have "\<not> isspace c" using assms(1) by auto
  then have "dropWhile isspace (g @ rest) = g @ rest" by (simp add: g)
  moreover have "isspace (CHR '' '')" by (simp add: isspace_def)
  ultimately show "add_t4 (g @ rest) a = (dropWhile isspace rest, emit (group_word g) a)"
    "add_t4 (CHR '' '' # g @ rest) a = (dropWhile isspace rest, emit (group_word g) a)"
    using t4_scan_group [OF assms(1,3)] by (simp_all add: add_t4_def group_word_def)
qed

lemma trit_code_range: "trit_code c \<in> {0, 1, 2}"
  by (simp add: trit_code_def)

lemma group_word_bound: "length g \<le> 15 \<Longrightarrow> unat (group_word g) < 4 ^ length g"
proof (induction g rule: rev_induct)
  case (snoc c g)
  then have "unat (group_word g) < 4 ^ length g" by simp
  moreover have "(4::nat) ^ length g \<le> 4 ^ 14" using snoc.prems by (intro power_increasing) auto
  ultimately have "unat (group_word g) < 2 ^ 30" by simp
  then have "unat (push_bit 2 (group_word g) OR trit_code c) = 4 * unat (group_word g) + unat (trit_code c)"
    by (rule push_trit [OF _ trit_code_range])
  moreover have "unat (trit_code c) \<le> 2" using trit_code_range [of c] by auto
  ultimately show ?case using \<open>unat (group_word g) < 4 ^ length g\<close> by (simp add: group_word_def)
qed (simp add: group_word_def)

lemma or_push:
  assumes "unat a < 2 ^ k" "unat b < 2 ^ (32 - k)" "k \<le> 32"
  shows "unat (a OR push_bit k (b :: u32)) = unat a + 2 ^ k * unat b"
proof -
  have "unat (take_bit k a) = unat a"
    by (simp add: unsigned_take_bit_eq take_bit_nat_eq_self assms(1))
  then have "take_bit k a = a" by (simp add: word_unat_eq_iff)
  then have bits: "n < k" if "bit a n" for n using that by (metis bit_take_bit_iff)
  then have disj: "a AND push_bit k b = 0"
    by (intro bit_word_eqI) (force simp: bit_simps)
  have le: "2 ^ k * unat b + 2 ^ k \<le> 2 ^ 32"
  proof -
    have "2 ^ k * Suc (unat b) \<le> 2 ^ k * 2 ^ (32 - k)" using assms(2) by (intro mult_le_mono2) simp
    then show ?thesis using assms(3) by (simp flip: power_add)
  qed
  have "2 ^ k * unat b < 2 ^ 32"
    using le zero_less_power [of "2::nat" k] by linarith
  then have b: "unat (push_bit k b) = 2 ^ k * unat b"
    by (simp add: unsigned_push_bit_eq push_bit_eq_mult [where 'a = nat] take_bit_nat_eq_self mult.commute)
  have "unat (a + push_bit k b) = unat a + unat (push_bit k b)"
    using assms(1) le b by (intro unat_add_lem [THEN iffD1]) simp
  then show ?thesis using disjunctive_add_eq_or [OF disj] b by simp
qed

section \<open>Rows of four groups\<close>

text \<open>The word of four groups, the first in the lowest byte.\<close>

definition row_word :: "string list \<Rightarrow> nat" where
  "row_word gs = foldr (\<lambda>g w. unat (group_word g) + 256 * w) gs 0"

definition t4_line :: "string list \<Rightarrow> string" where
  "t4_line gs = (case gs of [g0, g1, g2, g3] \<Rightarrow> ''.t4 '' @ g0 @ '','' @ g1 @ '','' @ g2 @ '','' @ g3 | _ \<Rightarrow> [])"

definition groups_ok :: "string list \<Rightarrow> bool" where
  "groups_ok gs \<longleftrightarrow> length gs = 4 \<and> (\<forall>g \<in> set gs. length g = 4 \<and> set g \<subseteq> trit_chars)"

lemma emit_four:
  assumes "offset a mod 4 = 0" "\<forall>g \<in> {g0, g1, g2, g3}. length g = 4"
  shows "\<exists>w. emit (group_word g3) (emit (group_word g2) (emit (group_word g1) (emit (group_word g0) a)))
      = a\<lparr>offset := offset a + 4, val := 0, rows := rows a @ [(offset a, w)]\<rparr> \<and> unat w = row_word [g0, g1, g2, g3]"
proof -
  define w where "w = ((group_word g0 OR push_bit 8 (group_word g1)) OR push_bit 16 (group_word g2)) OR push_bit 24 (group_word g3)"
  have b: "unat (group_word g) < 256" if "g \<in> {g0, g1, g2, g3}" for g
    using group_word_bound [of g] assms(2) that by auto
  have 1: "unat (group_word g0 OR push_bit 8 (group_word g1)) = unat (group_word g0) + 256 * unat (group_word g1)"
    using or_push [of "group_word g0" 8 "group_word g1"] b [of g0] b [of g1] by simp
  have 2: "unat ((group_word g0 OR push_bit 8 (group_word g1)) OR push_bit 16 (group_word g2))
      = unat (group_word g0) + 256 * unat (group_word g1) + 65536 * unat (group_word g2)"
    using or_push [of "group_word g0 OR push_bit 8 (group_word g1)" 16 "group_word g2"] 1 b [of g0] b [of g1] b [of g2] by simp
  have 3: "unat w = row_word [g0, g1, g2, g3]"
    using or_push [of "(group_word g0 OR push_bit 8 (group_word g1)) OR push_bit 16 (group_word g2)" 24 "group_word g3"]
      2 b [of g0] b [of g1] b [of g2] b [of g3] by (simp add: w_def row_word_def)
  obtain q where q: "offset a = 4 * q" using assms(1) by (metis mod_0_imp_dvd dvdE)
  have m: "Suc (4 * q) mod 4 = 1" "Suc (Suc (4 * q)) mod 4 = 2" "Suc (Suc (Suc (4 * q))) mod 4 = 3"
      "Suc (Suc (Suc (4 * q))) div 4 = q"
    by presburger+
  have "emit (group_word g3) (emit (group_word g2) (emit (group_word g1) (emit (group_word g0) a)))
      = a\<lparr>offset := offset a + 4, val := 0, rows := rows a @ [(offset a, w)]\<rparr>"
    by (simp add: emit_def Let_def q m w_def)
  then show ?thesis using 3 by blast
qed

lemma add_groups_group:
  assumes "set g \<subseteq> trit_chars" "g \<noteq> []"
  shows "add_groups (g @ CHR '','' # r) a = add_groups r (emit (group_word g) a)"
    and "add_groups (CHR '' '' # g @ CHR '','' # r) a = add_groups r (emit (group_word g) a)"
    and "add_groups (g @ [newline]) a = emit (group_word g) a"
  using add_t4_group [OF assms, of "CHR '','' # r"] add_t4_group [OF assms, of "[newline]"]
  by (simp_all add: add_groups.simps [of "_ @ _"] add_groups.simps [of "CHR '' '' # _ @ _"] stops_def isspace_def)

lemma asm_line_t4:
  assumes "groups_ok gs" "offset a mod 4 = 0"
  shows "\<exists>w. asm_line (t4_line gs @ [newline]) a
      = Inr (True, a\<lparr>offset := offset a + 4, val := 0, rows := rows a @ [(offset a, w)]\<rparr>) \<and> unat w = row_word gs"
proof -
  obtain g0 g1 g2 g3 where gs: "gs = [g0, g1, g2, g3]"
    using assms(1) by (auto simp: groups_ok_def numeral_eq_Suc length_Suc_conv)
  have g: "set g \<subseteq> trit_chars" "g \<noteq> []" if "g \<in> {g0, g1, g2, g3}" for g
    using assms(1) gs that by (auto simp: groups_ok_def)
  have "asm_line (t4_line gs @ [newline]) a =
      Inr (True, emit (group_word g3) (emit (group_word g2) (emit (group_word g1) (emit (group_word g0) a))))"
    using g by (simp add: asm_line_def gs t4_line_def add_groups_group isspace_def)
  then show ?thesis
    using emit_four [OF assms(2), of g0 g1 g2 g3] assms(1) gs by (auto simp: groups_ok_def)
qed

lemma asm_lines_t4:
  "\<forall>gs \<in> set gss. groups_ok gs \<Longrightarrow> offset a mod 4 = 0 \<Longrightarrow>
   \<exists>ws. asm_lines (map (\<lambda>gs. t4_line gs @ [newline]) gss) a
     = Inr (True, a\<lparr>offset := offset a + 4 * length gss, val := (if gss = [] then val a else 0),
            rows := rows a @ zip (map (\<lambda>i. offset a + 4 * i) [0..<length gss]) ws\<rparr>) \<and>
     map unat ws = map row_word gss"
proof (induction gss arbitrary: a)
  case (Cons gs gss)
  obtain w where w: "asm_line (t4_line gs @ [newline]) a
      = Inr (True, a\<lparr>offset := offset a + 4, val := 0, rows := rows a @ [(offset a, w)]\<rparr>)" "unat w = row_word gs"
    using asm_line_t4 [of gs a] Cons.prems by auto
  define b where "b = a\<lparr>offset := offset a + 4, val := 0, rows := rows a @ [(offset a, w)]\<rparr>"
  obtain ws where ws: "asm_lines (map (\<lambda>gs. t4_line gs @ [newline]) gss) b
     = Inr (True, b\<lparr>offset := offset b + 4 * length gss, val := (if gss = [] then val b else 0),
            rows := rows b @ zip (map (\<lambda>i. offset b + 4 * i) [0..<length gss]) ws\<rparr>)" "map unat ws = map row_word gss"
    using Cons.IH [of b] Cons.prems by (auto simp: b_def)
  have idx: "map (\<lambda>i. offset a + 4 * i) [0..<length (gs # gss)]
      = offset a # map (\<lambda>i. offset b + 4 * i) [0..<length gss]"
    by (simp add: map_upt_Suc b_def del: upt_Suc)
  show ?case
    by (rule exI [of _ "w # ws"]) (use w ws idx in \<open>simp add: b_def [symmetric], simp add: b_def\<close>)
qed auto

lemma t4_line_chars:
  assumes "groups_ok gs"
  shows "newline \<notin> set (t4_line gs)" "CHR 0x00 \<notin> set (t4_line gs)" "length (t4_line gs) < 1023"
proof -
  obtain g0 g1 g2 g3 where gs: "gs = [g0, g1, g2, g3]"
    using assms by (auto simp: groups_ok_def numeral_eq_Suc length_Suc_conv)
  have g: "set g0 \<subseteq> trit_chars" "set g1 \<subseteq> trit_chars" "set g2 \<subseteq> trit_chars" "set g3 \<subseteq> trit_chars"
    using assms by (simp_all add: gs groups_ok_def)
  then have "newline \<notin> set g0 \<union> set g1 \<union> set g2 \<union> set g3" "CHR 0x00 \<notin> set g0 \<union> set g1 \<union> set g2 \<union> set g3"
    by (simp_all add: contra_subsetD)
  then show "newline \<notin> set (t4_line gs)" "CHR 0x00 \<notin> set (t4_line gs)" by (simp_all add: gs t4_line_def)
  show "length (t4_line gs) < 1023" using assms by (simp add: gs t4_line_def groups_ok_def)
qed

section \<open>Properties of the assembler\<close>

text \<open>
  C16. A file of \<open>.t4\<close> lines of four groups of four trits is assembled to one row for each line: the
  addresses count up by four from zero, and every word holds the groups of its line, the first in
  the lowest byte.
\<close>

theorem t4_file_assembled:
  assumes "\<forall>gs \<in> set gss. groups_ok gs"
    and "read_file input = Some (concat (map (\<lambda>l. l @ [newline]) (map t4_line gss)))"
  shows "\<exists>ws. cod5asm_main [prog, input, ''-o'', output] read_file
      = Inr (0, concat (map asm_row (zip (map (\<lambda>i. 4 * i) [0..<length gss]) ws))) \<and>
    map unat ws = map row_word gss"
proof -
  have lines: "fgets_lines 1024 (concat (map (\<lambda>l. l @ [newline]) (map t4_line gss)))
      = map (\<lambda>gs. t4_line gs @ [newline]) gss"
    using assms(1) t4_line_chars by (subst fgets_lines_concat) auto
  obtain ws where ws: "asm_lines (map (\<lambda>gs. t4_line gs @ [newline]) gss) \<lparr>offset = 0, val = 0, rows = []\<rparr>
     = Inr (True, \<lparr>offset = 4 * length gss, val = 0, rows = zip (map (\<lambda>i. 4 * i) [0..<length gss]) ws\<rparr>)"
     "map unat ws = map row_word gss"
    using asm_lines_t4 [OF assms(1), of "\<lparr>offset = 0, val = 0, rows = []\<rparr>"] by (cases "gss = []") auto
  have "cod5asm_main [prog, input, ''-o'', output] read_file
      = Inr (0, concat (map asm_row (zip (map (\<lambda>i. 4 * i) [0..<length gss]) ws)))"
    using ws(1) assms(2) lines by (simp add: cod5asm_main_def asm_flush_def)
  then show ?thesis using ws(2) by blast
qed

lemma t4_file_assembled_witness:
  "\<exists>ws. cod5asm_main [''cod5asm'', ''a.asm'', ''-o'', ''b.v'']
       (\<lambda>f. Some (concat (map (\<lambda>l. l @ [newline]) (map t4_line [[''+-00'', ''0000'', ''++++'', ''000-'']]))))
      = Inr (0, concat (map asm_row (zip (map (\<lambda>i. 4 * i) [0..<length [[''+-00'', ''0000'', ''++++'', ''000-'']]]) ws))) \<and>
    map unat ws = map row_word [[''+-00'', ''0000'', ''++++'', ''000-'']]"
  by (rule t4_file_assembled) (simp_all add: groups_ok_def)

text \<open>The text of the lowest four trits of a word.\<close>

definition trit_char :: "nat \<Rightarrow> char" where
  "trit_char d = (if d = 1 then CHR ''+'' else if d = 2 then CHR ''-'' else CHR ''0'')"

definition group_text :: "u32 \<Rightarrow> string" where
  "group_text w = (let n = unat w in
     [trit_char (n div 64 mod 4), trit_char (n div 16 mod 4), trit_char (n div 4 mod 4), trit_char (n mod 4)])"

lemma group_word_snoc:
  assumes "length g \<le> 14"
  shows "unat (group_word (g @ [c])) = 4 * unat (group_word g) + unat (trit_code c)"
proof -
  have "unat (group_word g) < 4 ^ length g" using group_word_bound [of g] assms by simp
  moreover have "(4::nat) ^ length g \<le> 4 ^ 14" using assms by (intro power_increasing) auto
  ultimately have "unat (group_word g) < 2 ^ 30" by simp
  then show ?thesis using push_trit [OF _ trit_code_range] by (simp add: group_word_def)
qed

lemma trit_code_char: "d mod 4 \<noteq> 3 \<Longrightarrow> unat (trit_code (trit_char (d mod 4))) = d mod 4"
proof -
  assume "d mod 4 \<noteq> 3"
  moreover have "d mod 4 < 4" by simp
  ultimately have "d mod 4 = 0 \<or> d mod 4 = 1 \<or> d mod 4 = 2" by linarith
  then show ?thesis by (auto simp: trit_code_def trit_char_def)
qed

lemma trits_digit: "trits n \<Longrightarrow> n mod 4 \<noteq> 3 \<and> trits (n div 4)"
  by (cases "n = 0") (simp_all add: trits.simps [of n] trits.simps [of 0])

lemma group_word_text:
  assumes "trits (unat w)" "unat w < 256"
  shows "group_word (group_text w) = w"
proof -
  define n where "n = unat w"
  have t: "n mod 4 \<noteq> 3" "n div 4 mod 4 \<noteq> 3" "n div 16 mod 4 \<noteq> 3" "n div 64 mod 4 \<noteq> 3"
    using assms(1) trits_digit [of n] trits_digit [of "n div 4"] trits_digit [of "n div 4 div 4"]
      trits_digit [of "n div 4 div 4 div 4"] by (simp_all add: n_def div_mult2_eq [symmetric])
  have four: "unat (group_word [a, b, c, d])
      = 4 * (4 * (4 * unat (trit_code a) + unat (trit_code b)) + unat (trit_code c)) + unat (trit_code d)" for a b c d
    using group_word_snoc [of "[a, b, c]" d] group_word_snoc [of "[a, b]" c] group_word_snoc [of "[a]" b]
      group_word_snoc [of "[]" a] by (simp add: group_word_def)
  have "unat (group_word (group_text w)) = 4 * (4 * (4 * (n div 64 mod 4) + n div 16 mod 4) + n div 4 mod 4) + n mod 4"
    using t by (simp add: group_text_def Let_def four trit_code_char n_def)
  also have "\<dots> = n"
  proof -
    have "n div 16 = n div 4 div 4" "n div 64 = n div 4 div 4 div 4" by (simp_all add: div_mult2_eq [symmetric])
    moreover have "n div 4 div 4 div 4 mod 4 = n div 4 div 4 div 4" using assms(2) by (simp add: n_def div_mult2_eq [symmetric])
    moreover have "4 * (k div 4) + k mod 4 = k" for k :: nat by simp
    ultimately show ?thesis by (simp only:)
  qed
  finally show ?thesis by (simp add: n_def word_unat_eq_iff)
qed

text \<open>
  The group of trits that the table generator computes for a number from -40 to 40, written as
  text, is assembled to a byte with that value.
\<close>

theorem number_assembled:
  assumes "\<bar>v\<bar> \<le> 40"
  shows "ter_value (group_word (group_text (b2t v))) = v"
proof -
  have "\<bar>v\<bar> \<le> ter_max" using assms by (simp add: ter_max_def)
  then show ?thesis
    using group_word_text [of "b2t v"] b2t_small [OF assms] b2t_value b2t_trits by simp
qed

lemma number_assembled_witness: "ter_value (group_word (group_text (b2t (- 17)))) = - 17"
  by (rule number_assembled) simp

section \<open>The constants of instructions\<close>

text \<open>The value of trits, the most significant first, and the trits of the buffer in that order.\<close>

definition char_value :: "char \<Rightarrow> int" where
  "char_value c = (if c = CHR ''+'' then 1 else if c = CHR ''-'' then -1 else 0)"

definition chars_value :: "string \<Rightarrow> int" where
  "chars_value s = foldl (\<lambda>a c. 3 * a + char_value c) 0 s"

definition places :: "string \<Rightarrow> string" where
  "places b = take 4 (drop 15 b) @ take 4 (drop 10 b) @ take 4 (drop 5 b) @ take 4 b"

lemma chars_value_acc: "foldl (\<lambda>a c. 3 * a + char_value c) x s = 3 ^ length s * x + chars_value s"
proof (induction s arbitrary: x)
  case (Cons c s)
  show ?case
    using Cons.IH [of "3 * x + char_value c"] Cons.IH [of "char_value c"]
    by (simp add: chars_value_def algebra_simps)
qed (simp add: chars_value_def)

lemma chars_value_Cons: "chars_value (c # s) = 3 ^ length s * char_value c + chars_value s"
  using chars_value_acc [of "char_value c" s] by (simp add: chars_value_def)

lemma length_bin2ter_loop [simp]: "length (bin2ter_loop i v) = i"
  by (induction i arbitrary: v) (simp_all add: Let_def)

lemma bin2ter_loop_value: "0 < i \<Longrightarrow> chars_value (bin2ter_loop i v) \<noteq> v"
proof (induction i arbitrary: v)
  case (Suc i)
  show ?case
  proof (cases "i = 0")
    case True
    then show ?thesis by (simp add: Let_def chars_value_def char_value_def)
  next
    case False
    then have IH: "chars_value (bin2ter_loop i w) \<noteq> w" for w using Suc.IH by simp
    consider "v = 3 ^ i div 2" | "v \<noteq> 3 ^ i div 2" "v = - (3 ^ i div 2)" | "v \<noteq> 3 ^ i div 2" "v \<noteq> - (3 ^ i div 2)"
      by blast
    then show ?thesis
    proof cases
      case 1
      then have "bin2ter_loop (Suc i) v = CHR ''+'' # bin2ter_loop i (v - 3 ^ i)" by (simp add: Let_def)
      then show ?thesis using IH [of "v - 3 ^ i"] by (simp only: chars_value_Cons length_bin2ter_loop) (simp add: char_value_def)
    next
      case 2
      then have "bin2ter_loop (Suc i) v = CHR ''-'' # bin2ter_loop i (v + 3 ^ i)" by (simp add: Let_def)
      then show ?thesis using IH [of "v + 3 ^ i"] by (simp only: chars_value_Cons length_bin2ter_loop) (simp add: char_value_def)
    next
      case 3
      then have "bin2ter_loop (Suc i) v = CHR ''0'' # bin2ter_loop i v" by (simp add: Let_def)
      then show ?thesis using IH [of v] by (simp only: chars_value_Cons length_bin2ter_loop) (simp add: char_value_def)
    qed
  qed
qed simp

lemma bin2ter_group_length: "length (take 4 (drop 12 (bin2ter_loop 16 v))) = 4"
  by simp

lemma places_groups:
  assumes "length g0 = 4" "length g1 = 4" "length g2 = 4" "length g3 = 4"
  shows "places (g0 @ '','' @ g1 @ '','' @ g2 @ '','' @ g3) = g3 @ g2 @ g1 @ g0"
  using assms by (simp add: places_def)

lemma places_bin2ter: "places (bin2ter v) = bin2ter_loop 16 v"
proof -
  let ?d = "bin2ter_loop 16 v"
  have "places (bin2ter v) = take 4 ?d @ take 4 (drop 4 ?d) @ take 4 (drop 8 ?d) @ take 4 (drop 12 ?d)"
    unfolding bin2ter_def Let_def by (rule places_groups) simp_all
  also have "\<dots> = take (4 + (4 + (4 + 4))) ?d"
    by (simp only: take_add drop_drop) simp
  finally show ?thesis by simp
qed

text \<open>
  The constant an instruction is given is never the one that is assembled: the conversion compares
  with half the place value where it has to look for a larger one, so the trits it writes never
  have the value of the number, not even for zero.
\<close>

theorem bin2ter_never_exact: "chars_value (places (bin2ter v)) \<noteq> v"
  using bin2ter_loop_value [of 16 v] by (simp add: places_bin2ter)

text \<open>
  Of the four groups of a constant the second is lost: it is read from the fourth character of the
  buffer, which is the comma after the first, and is always a zero byte.
\<close>

theorem operand_second_group_zero:
  "add_t4 (drop 4 (bin2ter v)) a = (drop 4 (bin2ter v), emit 0 a)"
proof -
  have "drop 4 (g @ '','' @ r) = '','' @ r" if "length g = 4" for g r :: string using that by simp
  then have "\<exists>r. drop 4 (bin2ter v) = CHR '','' # r"
    unfolding bin2ter_def Let_def by (metis append_Cons append_Nil bin2ter_group_length)
  then show ?thesis by (auto simp: add_t4_def)
qed

section \<open>Names of instructions\<close>

lemma match_name_prefix: "c \<notin> set n \<Longrightarrow> take (length p) n = p \<Longrightarrow> match_name (p @ c # s) n = Inr (c # s)"
  by (induction p n rule: match_name.induct) (auto simp: neq_Nil_conv split: list.splits)

lemma match_name_other:
  "take (length p) n \<noteq> p \<Longrightarrow> \<exists>x r. match_name (p @ s) n = Inr (x # r) \<and> x \<in> set p"
  by (induction p n rule: match_name.induct) auto

lemma op_names: "\<forall>(n, f) \<in> set ops. \<forall>x \<in> set n. \<not> isspace x \<and> x \<noteq> CHR '';''"
  by (auto simp: ops_def isspace_def)

lemma add_t4_op: "add_t4 op_t4 a = ([], emit 0xAA a)"
proof -
  have "group_word op_t4 = 0xAA" by (simp add: group_word_def op_t4_def trit_code_def)
  then show ?thesis using add_t4_group(1) [of op_t4 "[]" a] by (simp add: op_t4_def stops_def)
qed

lemma add_opcode_find:
  "find (\<lambda>(n, f). take (length p) n = p) os = Some (n, False) \<Longrightarrow>
   \<forall>(n, f) \<in> set os. \<forall>x \<in> set n. \<not> isspace x \<and> x \<noteq> CHR '';'' \<Longrightarrow>
   isspace c \<or> c = CHR '';'' \<Longrightarrow> \<forall>x \<in> set p. \<not> isspace x \<and> x \<noteq> CHR '';'' \<Longrightarrow>
   add_opcode_loop os (p @ c # s) a = Inr (True, emit 0xAA a)"
proof (induction os)
  case (Cons e os)
  obtain m f where e: "e = (m, f)" by (cases e)
  show ?case
  proof (cases "take (length p) m = p")
    case True
    moreover have "c \<notin> set m" using Cons.prems(2,3) e by auto
    ultimately show ?thesis
      using Cons.prems match_name_prefix [of c m p s] by (simp add: e add_t4_op)
  next
    case False
    then obtain x r where "match_name (p @ c # s) m = Inr (x # r)" "x \<in> set p"
      using match_name_other [of p m "c # s"] by auto
    then show ?thesis using Cons False by (simp add: e)
  qed
qed simp

text \<open>
  A name need not be written out: every beginning of the name of an opcode, followed by white space
  or a comment, is taken for the first opcode that begins with it, and as all opcodes have the same
  trits, all of them are assembled to the same byte.
\<close>

theorem opcode_prefix_accepted:
  assumes "find (\<lambda>(n, f). take (length p) n = p) ops = Some (n, False)"
    and "isspace c \<or> c = CHR '';''" "\<forall>x \<in> set p. \<not> isspace x \<and> x \<noteq> CHR '';''"
  shows "add_opcode (p @ c # s) a = Inr (True, emit 0xAA a)"
  using add_opcode_find [OF assms(1) op_names assms(2,3)] by (simp add: add_opcode_def)

lemma opcode_prefix_accepted_witness:
  "add_opcode (''s'' @ CHR '';'' # []) \<lparr>offset = 0, val = 0, rows = []\<rparr>
    = Inr (True, emit 0xAA \<lparr>offset = 0, val = 0, rows = []\<rparr>)"
  by (rule opcode_prefix_accepted [where n = "''sub''"]) (simp_all add: ops_def isspace_def)

end
