(* ===== verification/Dump.thy ===== *)
theory Dump
  imports CLib
begin

text \<open>
  The converter from a disassembly to memory images (\<open>tools/dump2v.c\<close>): four files of bits, one for
  each byte of a word, and the Verilog table. A line is the C string fgets read; what it would read
  after the end of that string is \<open>Uninitialised\<close>.
\<close>

section \<open>Single characters\<close>

text \<open>The four bits of a hexadecimal digit; none where the program exits.\<close>

definition nibble :: "char \<Rightarrow> nat option" where
  "nibble c = (if 48 \<le> ascii c \<and> ascii c \<le> 57 then Some (ascii c - 48)
     else if 97 \<le> ascii c \<and> ascii c \<le> 102 then Some (ascii c - 97 + 10) else None)"

fun bits_loop :: "nat \<Rightarrow> nat \<Rightarrow> string" where
  "bits_loop 0 n = []"
| "bits_loop (Suc i) n = (if n AND 8 \<noteq> 0 then CHR ''1'' else CHR ''0'') # bits_loop i (push_bit 1 n)"

definition print_bits :: "char \<Rightarrow> string option" where
  "print_bits c = map_option (bits_loop 4) (nibble c)"

definition letter :: "char \<Rightarrow> char" where
  "letter c = (if 48 \<le> ascii c \<and> ascii c \<le> 57 then char_of (ascii c - 48 + 65)
     else if 65 \<le> ascii c \<and> ascii c \<le> 70 then char_of (ascii c - 65 + 10 + 65)
     else if 97 \<le> ascii c \<and> ascii c \<le> 102 then char_of (ascii c - 97 + 10 + 65)
     else CHR '' '')"

section \<open>The state of the conversion\<close>

record dump =
  table :: string
  byte0 :: string
  byte1 :: string
  byte2 :: string
  byte3 :: string
  next_addr :: int
  dumping :: bool

text \<open>Bits for the file of a byte, and the ends of the four lines.\<close>

definition put_bits :: "nat \<Rightarrow> string \<Rightarrow> dump \<Rightarrow> dump" where
  "put_bits k bs d =
     (if k = 0 then d\<lparr>byte0 := byte0 d @ bs\<rparr> else if k = 1 then d\<lparr>byte1 := byte1 d @ bs\<rparr>
      else if k = 2 then d\<lparr>byte2 := byte2 d @ bs\<rparr> else d\<lparr>byte3 := byte3 d @ bs\<rparr>)"

definition end_lines :: "dump \<Rightarrow> dump" where
  "end_lines d = d\<lparr>byte0 := byte0 d @ [newline], byte1 := byte1 d @ [newline],
     byte2 := byte2 d @ [newline], byte3 := byte3 d @ [newline]\<rparr>"

text \<open>One word: the eight bits of each of its bytes as a line of the file of that byte.\<close>

definition add_word :: "string \<Rightarrow> string \<Rightarrow> string \<Rightarrow> string \<Rightarrow> dump \<Rightarrow> dump" where
  "add_word b0 b1 b2 b3 d = end_lines (put_bits 0 b0 (put_bits 1 b1 (put_bits 2 b2 (put_bits 3 b3 d))))"

lemmas word_defs = add_word_def end_lines_def put_bits_def

text \<open>Eight zero bits.\<close>

definition zero_bits :: string where
  "zero_bits = the (print_bits (CHR ''0'')) @ the (print_bits (CHR ''0''))"

definition row :: "int \<Rightarrow> string \<Rightarrow> string \<Rightarrow> string" where
  "row addr word comment = CHR 0x09 # CHR 0x27 # ''h'' @ print_hex 4 (nat (addr mod 2 ^ 32)) @ '': O_dat <= 32'' @
     CHR 0x27 # ''h'' @ word @ ''; /*'' @ comment @ ''*/'' @ [newline]"

function fill_gap :: "int \<Rightarrow> dump \<Rightarrow> dump" where
  "fill_gap line d =
     (if next_addr d < line
      then fill_gap line ((add_word zero_bits zero_bits zero_bits zero_bits
             (d\<lparr>table := table d @ row (next_addr d) ''00000000'' ''         nop ''\<rparr>))\<lparr>next_addr := next_addr d + 4\<rparr>)
      else d)"
  by pat_completeness auto
termination
  by (relation "measure (\<lambda>(line, d). nat (line - next_addr d))") (auto simp: word_defs)

declare fill_gap.simps [simp del]

section \<open>Lines\<close>

text \<open>strstr: the text from the first occurrence on.\<close>

fun strstr :: "string \<Rightarrow> string \<Rightarrow> string option" where
  "strstr s pat = (if take (length pat) s = pat then Some s else case s of [] \<Rightarrow> None | c # cs \<Rightarrow> strstr cs pat)"

declare strstr.simps [simp del]

text \<open>strtol with base 16, and the conversion of its result to \<open>int\<close>.\<close>

definition strtol16 :: "string \<Rightarrow> int" where
  "strtol16 s = signed_take_bit 31 (max (- (2 ^ 63)) (min (2 ^ 63 - 1)
     (case scan_hex (length s + 1) s of Scan_Val v \<Rightarrow> v | _ \<Rightarrow> 0)))"

text \<open>The character at an index; the zero at the end is read as such, what follows it is stale.\<close>

definition char_at :: "string \<Rightarrow> nat \<Rightarrow> char c" where
  "char_at s i = (if i < length s then Inr (s ! i) else if i = length s then Inr (CHR 0x00) else Inl Uninitialised)"

fun chars_at :: "string \<Rightarrow> nat list \<Rightarrow> string c" where
  "chars_at s [] = Inr []"
| "chars_at s (i # is) = bind_c (char_at s i) (\<lambda>c. bind_c (chars_at s is) (\<lambda>cs. Inr (c # cs)))"

text \<open>
  The digits at the given indexes as bits of the given files, one after the other; the program ends
  at the first that is no digit, with what was written before it in the files.
\<close>

fun print_digits :: "string \<Rightarrow> (nat \<times> nat) list \<Rightarrow> dump \<Rightarrow> (bool \<times> dump) c" where
  "print_digits s [] d = Inr (True, d)"
| "print_digits s ((k, i) # js) d = bind_c (char_at s i) (\<lambda>c. case print_bits c of
       None \<Rightarrow> Inr (False, d)
     | Some bs \<Rightarrow> print_digits s js (put_bits k bs d))"

definition dump_label :: "string \<Rightarrow> dump \<Rightarrow> (bool \<times> dump) c" where
  "dump_label buf d = bind_c (chars_at buf [0..<8]) (\<lambda>cs.
     Inr (True, d\<lparr>table := table d @ ''/* ('' @ map letter cs @ '') '' @ buf @ '' */''\<rparr>))"

definition dump_inst :: "string \<Rightarrow> string \<Rightarrow> dump \<Rightarrow> (bool \<times> dump) c" where
  "dump_inst addr rest d =
     (let line = strtol16 addr; d1 = fill_gap line d; inst = dropWhile isspace rest;
          offset = length addr + 1 + (length rest - length inst)
      in if 2 ^ 31 \<le> next_addr d1 then Inl SignedOverflow
      else if 1024 \<le> offset + 11 then Inl OutOfBounds
      else bind_c (print_digits inst [(3, 0), (3, 1), (2, 3), (2, 4), (1, 6), (1, 7), (0, 9), (0, 10)] d1) (\<lambda>(go, d2).
      if \<not> go then Inr (False, d2)
      else if length inst < 12 then Inl Uninitialised
      else if 2 ^ 31 \<le> line + 4 then Inl SignedOverflow
      else let cs = map (\<lambda>i. inst ! i) [9, 10, 6, 7, 3, 4, 0, 1];
               comment = takeWhile (\<lambda>c. c \<noteq> newline \<and> c \<noteq> CHR 0x0D) (drop 12 inst);
               d3 = end_lines d2
           in Inr (True, d3\<lparr>table := table d3 @ row line cs (comment @ '' ('' @ map letter cs @ '')''),
                next_addr := line + 4\<rparr>)))"

text \<open>One line: whether the program goes on, and the state.\<close>

definition dump_line :: "string \<Rightarrow> dump \<Rightarrow> (bool \<times> dump) c" where
  "dump_line buf d =
     (if dumping d
      then if strstr buf ''>:'' \<noteq> None then dump_label buf d
           else (case strstr buf '':'' of None \<Rightarrow> Inr (True, d)
             | Some s \<Rightarrow> dump_inst (takeWhile (\<lambda>c. c \<noteq> CHR '':'') buf) (tl s) d)
      else if strstr buf ''00000000 '' \<noteq> None \<and> strstr buf ''>:'' \<noteq> None
      then Inr (True, d\<lparr>table := table d @ ''/* '' @ buf @ '' */'', dumping := True\<rparr>)
      else Inr (True, d))"

fun dump_lines :: "string list \<Rightarrow> dump \<Rightarrow> (bool \<times> dump) c" where
  "dump_lines [] d = Inr (True, d)"
| "dump_lines (l # ls) d = bind_c (dump_line l d) (\<lambda>(go, d1). if go then dump_lines ls d1 else Inr (False, d1))"

definition dump_start :: dump where
  "dump_start = \<lparr>table = [], byte0 = [], byte1 = [], byte2 = [], byte3 = [], next_addr = 0, dumping = False\<rparr>"

text \<open>
  \<open>main\<close> with what can be read from the input file: the exit status and the files; each byte file
  ends with an empty line. The arguments are used without a test of their number, the names of the
  byte files are made in \<open>buf\<close>, and a file that cannot be opened is read all the same.
\<close>

definition dump2v_main :: "string list \<Rightarrow> (string \<Rightarrow> string option) \<Rightarrow> (int \<times> dump) c" where
  "dump2v_main argv read_file =
     (if length argv < 3 \<or> 1024 \<le> length (argv ! 2) + 1 then Inl OutOfBounds
      else case read_file (argv ! 1) of
        None \<Rightarrow> Inl OutOfBounds
      | Some content \<Rightarrow> bind_c (dump_lines (fgets_lines 1024 content) dump_start) (\<lambda>(go, d).
          if go then Inr (0, end_lines d) else Inr (-1, d)))"

section \<open>The images as lists of words\<close>

type_synonym word_bits = "string \<times> string \<times> string \<times> string"

definition file_of :: "string list \<Rightarrow> string" where
  "file_of ls = concat (map (\<lambda>l. l @ [newline]) ls)"

lemma file_of_simps [simp]: "file_of [] = []" "file_of (ls @ [l]) = file_of ls @ l @ [newline]"
  by (simp_all add: file_of_def)

definition images :: "dump \<Rightarrow> word_bits list \<Rightarrow> bool" where
  "images d ws \<longleftrightarrow> byte0 d = file_of (map (\<lambda>(b0, b1, b2, b3). b0) ws) \<and> byte1 d = file_of (map (\<lambda>(b0, b1, b2, b3). b1) ws) \<and>
     byte2 d = file_of (map (\<lambda>(b0, b1, b2, b3). b2) ws) \<and> byte3 d = file_of (map (\<lambda>(b0, b1, b2, b3). b3) ws) \<and>
     next_addr d = 4 * int (length ws)"

abbreviation zero_word :: word_bits where
  "zero_word \<equiv> (zero_bits, zero_bits, zero_bits, zero_bits)"

lemma images_add_word:
  "images d ws \<Longrightarrow> images ((add_word b0 b1 b2 b3 (d\<lparr>table := t\<rparr>))\<lparr>next_addr := next_addr d + 4\<rparr>) (ws @ [(b0, b1, b2, b3)])"
  by (simp add: images_def word_defs)

lemma fill_gap_images:
  "images d ws \<Longrightarrow> line = 4 * (int (length ws) + int n) \<Longrightarrow>
   images (fill_gap line d) (ws @ replicate n zero_word) \<and> next_addr (fill_gap line d) = line"
proof (induction n arbitrary: d ws)
  case 0
  then have "\<not> next_addr d < line" by (simp add: images_def)
  then have "fill_gap line d = d" by (simp add: fill_gap.simps [of line d])
  then show ?case using 0 by (simp add: images_def)
next
  case (Suc n)
  let ?d = "(add_word zero_bits zero_bits zero_bits zero_bits
     (d\<lparr>table := table d @ row (next_addr d) ''00000000'' ''         nop ''\<rparr>))\<lparr>next_addr := next_addr d + 4\<rparr>"
  have "next_addr d < line" using Suc.prems by (simp add: images_def)
  then have step: "fill_gap line d = fill_gap line ?d" by (subst fill_gap.simps) simp
  have "ws @ replicate (Suc n) zero_word = (ws @ [zero_word]) @ replicate n zero_word" by simp
  then show ?case
    unfolding step using Suc.IH [OF images_add_word [OF Suc.prems(1)]] Suc.prems(2) by simp
qed

text \<open>The value of bits and of a digit.\<close>

definition bit_value :: "char \<Rightarrow> nat" where
  "bit_value c = (if c = CHR ''1'' then 1 else 0)"

definition bits_value :: "string \<Rightarrow> nat" where
  "bits_value bs = foldl (\<lambda>a c. 2 * a + bit_value c) 0 bs"

definition digit_ok :: "char \<Rightarrow> bool" where
  "digit_ok c \<longleftrightarrow> nibble c \<noteq> None"

lemma bits_loop_nibbles: "\<forall>n < 16. length (bits_loop 4 n) = 4 \<and> bits_value (bits_loop 4 n) = n"
  by code_simp

lemma bits_value_acc: "foldl (\<lambda>a c. 2 * a + bit_value c) x bs = 2 ^ length bs * x + bits_value bs"
proof (induction bs arbitrary: x)
  case (Cons c bs)
  show ?case
    using Cons.IH [of "2 * x + bit_value c"] Cons.IH [of "bit_value c"] by (simp add: bits_value_def algebra_simps)
qed (simp add: bits_value_def)

lemma bits_value_append: "length cs = 4 \<Longrightarrow> bits_value (bs @ cs) = 16 * bits_value bs + bits_value cs"
  using bits_value_acc [of "bits_value bs" cs] by (simp add: bits_value_def)

lemma print_bits_value:
  assumes "nibble c = Some n"
  shows "\<exists>bs. print_bits c = Some bs \<and> length bs = 4 \<and> bits_value bs = n"
proof -
  have "n < 16" using assms by (auto simp: nibble_def split: if_splits)
  then have "length (bits_loop 4 n) = 4 \<and> bits_value (bits_loop 4 n) = n" using bits_loop_nibbles by simp
  then show ?thesis using assms by (simp add: print_bits_def)
qed

text \<open>
  The instruction at the address \<open>A\<close> becomes the line with the number \<open>A div 4\<close> of each of the four
  files, whatever the gap before it, which is filled with zero words; the last byte of the line of
  the disassembly goes to the file of byte 0, the first to the file of byte 3, each as the eight bits
  of its two digits.
\<close>

lemma instruction_at_its_address:
  assumes "images d ws" "strtol16 addr = 4 * int a" "length ws \<le> a"
    and "\<forall>c \<in> set [d0, d1, d2, d3, d4, d5, d6, d7]. digit_ok c" "\<not> isspace d0"
    and "rest = ws' @ [d0, d1, sa, d2, d3, sb, d4, d5, sc, d6, d7, sd] @ comment" "\<forall>c \<in> set ws'. isspace c"
    and "length addr + length ws' < 1012" "4 * int a + 4 < 2 ^ 31"
  shows "\<exists>d' b. dump_inst addr rest d = Inr (True, d') \<and>
    images d' (ws @ replicate (a - length ws) zero_word @ [b]) \<and>
    (case b of (b0, b1, b2, b3) \<Rightarrow>
       map bits_value [b3, b2, b1, b0] = map (\<lambda>(h, l). 16 * the (nibble h) + the (nibble l))
         [(d0, d1), (d2, d3), (d4, d5), (d6, d7)])"
proof -
  let ?inst = "[d0, d1, sa, d2, d3, sb, d4, d5, sc, d6, d7, sd] @ comment"
  have inst: "dropWhile isspace rest = ?inst"
    using assms(5-7) by (simp add: dropWhile_append3 dropWhile_append2)
  have digit: "\<exists>bs n. nibble c = Some n \<and> print_bits c = Some bs \<and> length bs = 4 \<and> bits_value bs = n" if "digit_ok c" for c
    using that print_bits_value by (fastforce simp: digit_ok_def)
  obtain p0 p1 p2 p3 p4 p5 p6 p7 where p: "map print_bits [d0, d1, d2, d3, d4, d5, d6, d7] = map Some [p0, p1, p2, p3, p4, p5, p6, p7]"
      "list_all2 (\<lambda>p c. length p = 4 \<and> bits_value p = the (nibble c)) [p0, p1, p2, p3, p4, p5, p6, p7] [d0, d1, d2, d3, d4, d5, d6, d7]"
    using digit [of d0] digit [of d1] digit [of d2] digit [of d3] digit [of d4] digit [of d5] digit [of d6] digit [of d7] assms(4)
    by auto
  define d1 where "d1 = fill_gap (strtol16 addr) d"
  have line: "strtol16 addr = 4 * (int (length ws) + int (a - length ws))" using assms(2,3) by simp
  have gap: "images d1 (ws @ replicate (a - length ws) zero_word)" "next_addr d1 = strtol16 addr"
    using fill_gap_images [OF assms(1) line] by (simp_all add: d1_def)
  let ?js = "[(3, 0), (3, 1), (2, 3), (2, 4), (1, 6), (1, 7), (0, 9), (0, 10)] :: (nat \<times> nat) list"
  have digits: "\<exists>d2. print_digits ?inst ?js d1 = Inr (True, d2) \<and>
      end_lines d2 = add_word (p6 @ p7) (p4 @ p5) (p2 @ p3) (p0 @ p1) d1"
    using p(1) by (simp add: char_at_def word_defs)
  then obtain d2 where d2: "print_digits ?inst ?js d1 = Inr (True, d2)"
      "end_lines d2 = add_word (p6 @ p7) (p4 @ p5) (p2 @ p3) (p0 @ p1) d1" by blast
  have offset: "\<not> 1024 \<le> length addr + 1 + (length rest - length ?inst) + 11" "\<not> length ?inst < 12"
    using assms(6,8) by simp_all
  have no_overflow: "\<not> 2 ^ 31 \<le> strtol16 addr + 4" "\<not> 2 ^ 31 \<le> strtol16 addr" using assms(2,9) by simp_all
  have add_table: "(add_word b0 b1 b2 b3 d1)\<lparr>table := t, next_addr := n\<rparr>
      = (add_word b0 b1 b2 b3 (d1\<lparr>table := t\<rparr>))\<lparr>next_addr := n\<rparr>" for b0 b1 b2 b3 t n
    by (simp add: word_defs)
  obtain t where run: "dump_inst addr rest d = Inr (True, (add_word (p6 @ p7) (p4 @ p5) (p2 @ p3) (p0 @ p1)
      (d1\<lparr>table := t\<rparr>))\<lparr>next_addr := next_addr d1 + 4\<rparr>)"
    unfolding dump_inst_def Let_def inst d1_def [symmetric] gap(2)
    by (simp only: offset no_overflow d2 bind_c_Inr split if_True if_False add_table not_True_eq_False simp_thms)
  show ?thesis
    using run images_add_word [OF gap(1), of "p6 @ p7" "p4 @ p5" "p2 @ p3" "p0 @ p1" t] p(2) by (fastforce simp: bits_value_append)
qed

section \<open>A whole disassembly\<close>

text \<open>
  The lines of a disassembly: labels, instructions with the text of their address, its value in
  words, the digits of the four bytes and the rest of the line, and other lines.
\<close>

datatype dump_item = Label_Line string | Word_Line string nat "(char \<times> char) list" string | Other_Line string

fun item_line :: "dump_item \<Rightarrow> string" where
  "item_line (Label_Line l) = l @ [newline]"
| "item_line (Word_Line addr a ds comment) =
     addr @ '':'' @ [CHR 0x09] @ concat (map (\<lambda>(h, l). [h, l, CHR '' '']) ds) @ comment @ [newline]"
| "item_line (Other_Line l) = l @ [newline]"

fun item_ok :: "dump_item \<Rightarrow> bool" where
  "item_ok (Label_Line l) \<longleftrightarrow> strstr (l @ [newline]) ''>:'' \<noteq> None \<and> 7 \<le> length l"
| "item_ok (Word_Line addr a ds comment) \<longleftrightarrow> strtol16 addr = 4 * int a \<and> 4 * int a + 4 < 2 ^ 31 \<and>
     CHR '':'' \<notin> set addr \<and> length ds = 4 \<and> (\<forall>(h, l) \<in> set ds. digit_ok h \<and> digit_ok l) \<and>
     strstr (item_line (Word_Line addr a ds comment)) ''>:'' = None"
| "item_ok (Other_Line l) \<longleftrightarrow> CHR '':'' \<notin> set l"

definition line_ok :: "string \<Rightarrow> bool" where
  "line_ok l \<longleftrightarrow> last l = newline \<and> newline \<notin> set (butlast l) \<and> CHR 0x00 \<notin> set l \<and> l \<noteq> [] \<and> length l < 1024"

text \<open>The words of a disassembly with their numbers, and the bytes of a word.\<close>

fun item_words :: "dump_item list \<Rightarrow> (nat \<times> nat list) list" where
  "item_words [] = []"
| "item_words (Word_Line addr a ds comment # is) =
     (a, map (\<lambda>(h, l). 16 * the (nibble h) + the (nibble l)) ds) # item_words is"
| "item_words (i # is) = item_words is"

definition word_bytes :: "word_bits \<Rightarrow> nat list" where
  "word_bytes = (\<lambda>(b0, b1, b2, b3). map bits_value [b3, b2, b1, b0])"

text \<open>The memory that starts with the word \<open>n\<close> and holds the given words in rising order, zero between them.\<close>

fun memory :: "nat \<Rightarrow> (nat \<times> nat list) list \<Rightarrow> nat list list" where
  "memory n [] = []"
| "memory n ((a, bs) # ws) = replicate (a - n) [0, 0, 0, 0] @ [bs] @ memory (Suc a) ws"

fun rising :: "nat \<Rightarrow> (nat \<times> 'a) list \<Rightarrow> bool" where
  "rising n [] = True"
| "rising n ((a, bs) # ws) \<longleftrightarrow> n \<le> a \<and> rising (Suc a) ws"

lemma strstr_colon [simp]: "CHR '':'' \<notin> set s \<Longrightarrow> strstr (s @ CHR '':'' # t) '':'' = Some (CHR '':'' # t)"
proof (induction s)
  case Nil
  show ?case by (simp add: strstr.simps [of "_ # _"])
next
  case (Cons c s)
  then have "strstr (s @ CHR '':'' # t) '':'' = Some (CHR '':'' # t)" by simp
  then show ?case using Cons.prems by (subst strstr.simps) auto
qed

lemma strstr_None:
  assumes "CHR '':'' \<notin> set s"
  shows "strstr s '':'' = None" "strstr s ''>:'' = None"
proof -
  have "strstr s '':'' = None \<and> strstr s ''>:'' = None" using assms
  proof (induction s)
    case Nil
    show ?case by (simp add: strstr.simps [of "[]"])
  next
    case (Cons c s)
    then have "strstr s '':'' = None" "strstr s ''>:'' = None" "c \<noteq> CHR '':''" "take 1 s \<noteq> '':''" 
      by (cases s; auto)+
    then show ?case by (auto simp: strstr.simps [of "c # s"])
  qed
  then show "strstr s '':'' = None" "strstr s ''>:'' = None" by simp_all
qed

lemma memory_above: "rising n ws \<Longrightarrow> x < n \<Longrightarrow> map_of ws x = None"
  by (induction n ws rule: rising.induct) auto

lemma memory_nth:
  "rising n ws \<Longrightarrow> i < length (memory n ws) \<Longrightarrow>
   memory n ws ! i = (case map_of ws (n + i) of None \<Rightarrow> [0, 0, 0, 0] | Some bs \<Rightarrow> bs)"
proof (induction n ws arbitrary: i rule: memory.induct)
  case (2 n a bs ws)
  consider "i < a - n" | "i = a - n" | j where "i = a - n + Suc j"
    by (metis add_Suc_right less_imp_Suc_add linorder_neqE_nat)
  then show ?case
  proof cases
    case 1
    then have "map_of ws (n + i) = None" using 2(2) by (intro memory_above [of "Suc a"]) auto
    then show ?thesis using 1 by (auto simp: nth_append)
  next
    case 2
    then show ?thesis using \<open>rising n ((a, bs) # ws)\<close> by (simp add: nth_append)
  next
    case 3
    then have i: "\<not> i < a - n" "i - (a - n) = Suc j" "n + i = Suc a + j"
      and "j < length (memory (Suc a) ws)" using 2(2,3) by auto
    then show ?thesis using 2(1) [of j] 2(2) by (simp add: nth_append)
  qed
qed simp

text \<open>What the steps of a line keep.\<close>

lemma dumping_frames [simp]:
  "dumping (put_bits k bs d) = dumping d" "dumping (end_lines d) = dumping d" "dumping (add_word b0 b1 b2 b3 d) = dumping d"
  by (simp_all add: word_defs)

lemma dumping_fill_gap [simp]: "dumping (fill_gap line d) = dumping d"
proof (induction line d rule: fill_gap.induct)
  case (1 line d)
  then show ?case by (subst fill_gap.simps) simp
qed

lemma dumping_print_digits: "print_digits s js d = Inr (go, d') \<Longrightarrow> dumping d' = dumping d"
  by (induction s js d rule: print_digits.induct) (auto simp: bind_c_eq_Inr split: option.splits)

lemma dumping_dump_inst: "dump_inst addr rest d = Inr (go, d') \<Longrightarrow> dumping d' = dumping d"
  by (auto simp: dump_inst_def Let_def bind_c_eq_Inr simp del: print_digits.simps
      split: if_splits prod.splits dest!: dumping_print_digits)

lemma digit_ok_not_space: "digit_ok c \<Longrightarrow> \<not> isspace c"
  by (auto simp: digit_ok_def nibble_def isspace_def split: if_splits)

lemma images_frame [simp]: "images (d\<lparr>table := t\<rparr>) ws = images d ws" "images (d\<lparr>dumping := b\<rparr>) ws = images d ws"
  by (simp_all add: images_def)

lemma dump_line_word:
  assumes "images d ws" "dumping d" "length ws \<le> a" "length l < 1024"
    and l: "l = item_line (Word_Line addr a ds comment)" and ok: "item_ok (Word_Line addr a ds comment)"
  shows "\<exists>d' b. dump_line l d = Inr (True, d') \<and> dumping d' \<and> images d' (ws @ replicate (a - length ws) zero_word @ [b]) \<and>
    word_bytes b = map (\<lambda>(h, l). 16 * the (nibble h) + the (nibble l)) ds"
proof -
  from ok have addr: "strtol16 addr = 4 * int a" "4 * int a + 4 < 2 ^ 31" "CHR '':'' \<notin> set addr"
    and digits: "length ds = 4" "\<forall>(h, l) \<in> set ds. digit_ok h \<and> digit_ok l" and no_label: "strstr l ''>:'' = None"
    by (simp_all add: l)
  obtain h0 l0 h1 l1 h2 l2 h3 l3 where ds: "ds = [(h0, l0), (h1, l1), (h2, l2), (h3, l3)]"
    using digits(1) by (auto simp: numeral_eq_Suc length_Suc_conv)
  define rest where "rest = [CHR 0x09] @ [h0, l0, CHR '' '', h1, l1, CHR '' '', h2, l2, CHR '' '', h3, l3, CHR '' ''] @ (comment @ [newline])"
  have tab: "isspace (CHR 0x09)" by (simp add: isspace_def)
  have l': "l = addr @ CHR '':'' # rest" by (simp add: l ds rest_def)
  have "takeWhile (\<lambda>c. c \<noteq> CHR '':'') l = addr" using addr(3) unfolding l' by (intro takeWhile_append_stop) auto
  then have step: "dump_line l d = dump_inst addr rest d"
    using assms(2) no_label strstr_colon [OF addr(3), of rest] by (simp add: dump_line_def l')
  have "\<exists>d' b. dump_inst addr rest d = Inr (True, d') \<and> images d' (ws @ replicate (a - length ws) zero_word @ [b]) \<and>
    (case b of (b0, b1, b2, b3) \<Rightarrow> map bits_value [b3, b2, b1, b0] =
       map (\<lambda>(h, l). 16 * the (nibble h) + the (nibble l)) [(h0, l0), (h1, l1), (h2, l2), (h3, l3)])"
    by (rule instruction_at_its_address [OF assms(1) addr(1) assms(3) _ _ rest_def])
      (use digits(2) assms(4) addr(2) in \<open>auto simp: ds l' rest_def tab digit_ok_not_space\<close>)
  then show ?thesis
    unfolding step ds word_bytes_def using dumping_dump_inst assms(2) by (fastforce split: prod.splits)
qed

lemma word_bytes_zero [simp]: "word_bytes zero_word = [0, 0, 0, 0]"
  by code_simp

lemma dump_items:
  assumes "images d ws" "dumping d" "\<forall>i \<in> set items. item_ok i \<and> length (item_line i) < 1024"
    and "rising (length ws) (item_words items)"
  shows "\<exists>d' ws'. dump_lines (map item_line items) d = Inr (True, d') \<and> images d' ws' \<and>
    map word_bytes ws' = map word_bytes ws @ memory (length ws) (item_words items)"
  using assms
proof (induction items arbitrary: d ws)
  case Nil
  then show ?case by auto
next
  case (Cons i items)
  have ok: "item_ok i" "length (item_line i) < 1024" using Cons.prems(3) by simp_all
  have rest: "\<forall>i \<in> set items. item_ok i \<and> length (item_line i) < 1024" using Cons.prems(3) by simp
  show ?case
  proof (cases i)
    case (Label_Line l)
    then have long: "strstr (l @ [newline]) ''>:'' \<noteq> None" "7 \<le> length l" using ok(1) by simp_all
    have "\<exists>cs. chars_at (l @ [newline]) [0..<8] = Inr cs"
      using long(2) by (simp add: char_at_def upt_rec)
    then obtain t where "dump_line (item_line i) d = Inr (True, d\<lparr>table := t\<rparr>)"
      using Cons.prems(2) long(1) Label_Line by (auto simp: dump_line_def dump_label_def)
    then show ?thesis
      using Cons.IH [of "d\<lparr>table := t\<rparr>" ws] Cons.prems(1,2,4) rest Label_Line by simp
  next
    case (Other_Line l)
    then have "CHR '':'' \<notin> set (l @ [newline])" using ok(1) by simp
    then have "dump_line (item_line i) d = Inr (True, d)"
      using Cons.prems(2) strstr_None by (simp add: dump_line_def Other_Line)
    then show ?thesis using Cons.IH [of d ws] Cons.prems(1,2,4) rest Other_Line by simp
  next
    case (Word_Line addr a ds comment)
    then have "length ws \<le> a" "rising (Suc a) (item_words items)" using Cons.prems(4) by simp_all
    obtain d1 b where d1: "dump_line (item_line i) d = Inr (True, d1)" "dumping d1"
        "images d1 (ws @ replicate (a - length ws) zero_word @ [b])"
        "word_bytes b = map (\<lambda>(h, l). 16 * the (nibble h) + the (nibble l)) ds"
      using dump_line_word [OF Cons.prems(1,2) \<open>length ws \<le> a\<close> ok(2) _ ok(1) [unfolded Word_Line]] Word_Line by blast
    have "length (ws @ replicate (a - length ws) zero_word @ [b]) = Suc a" using \<open>length ws \<le> a\<close> by simp
    then show ?thesis
      using Cons.IH [OF d1(3,2) rest] d1(1,4) \<open>rising (Suc a) _\<close> Word_Line by simp
  qed
qed

text \<open>
  A file: lines before the start of the code, the line that starts it, and the items.
\<close>

definition starts_code :: "string \<Rightarrow> bool" where
  "starts_code l \<longleftrightarrow> strstr l ''00000000 '' \<noteq> None \<and> strstr l ''>:'' \<noteq> None"

lemma skip_lines:
  "\<not> dumping d \<Longrightarrow> \<forall>l \<in> set ls. \<not> starts_code l \<Longrightarrow> dump_lines (ls @ rest) d = dump_lines rest d"
  by (induction ls) (auto simp: dump_line_def starts_code_def)

lemma fgets_lines_ok: "\<forall>l \<in> set ls. line_ok l \<Longrightarrow> fgets_lines 1024 (concat ls) = ls"
proof (induction ls)
  case (Cons l ls)
  then have ok: "line_ok l" by simp
  then have l: "l = butlast l @ [newline]" by (metis line_ok_def append_butlast_last_id)
  have "newline \<notin> set (butlast l)" "CHR 0x00 \<notin> set (butlast l)" "length (butlast l) < 1024 - 1"
    using ok by (auto simp: line_ok_def dest: in_set_butlastD)
  from fgets_lines_line [OF this, of "concat ls"] show ?case
    using l Cons by (metis append.assoc append_Cons append_Nil concat.simps(2) list.set_intros(2))
qed simp

text \<open>
  C17. Converting a whole disassembly, with lines before the code, labels and instructions at rising
  addresses with gaps between them, ends with status 0, and the four files read together are the
  memory of the program: the word with the number \<open>i\<close> has the four bytes of the instruction at the
  address \<open>4 * i\<close>, its first byte in the file of byte 3, and is zero where there is none.
\<close>

theorem disassembly_converted:
  assumes "\<forall>l \<in> set (before @ start # map item_line items). line_ok l"
    and "\<forall>l \<in> set before. \<not> starts_code l" "starts_code start"
    and "\<forall>i \<in> set items. item_ok i" "rising 0 (item_words items)"
    and "length argv \<ge> 3" "length (argv ! 2) < 1023"
    and "read_file (argv ! 1) = Some (concat (before @ start # map item_line items))"
  shows "\<exists>d ws. dump2v_main argv read_file = Inr (0, end_lines d) \<and> images d ws \<and>
    map word_bytes ws = memory 0 (item_words items) \<and>
    (\<forall>i < length ws. word_bytes (ws ! i) =
       (case map_of (item_words items) i of None \<Rightarrow> [0, 0, 0, 0] | Some bs \<Rightarrow> bs))"
proof -
  let ?d = "dump_start\<lparr>table := ''/* '' @ start @ '' */'', dumping := True\<rparr>"
  have begin': "dump_lines (before @ start # map item_line items) dump_start = dump_lines (map item_line items) ?d"
    using assms(2,3) by (subst skip_lines) (simp_all add: dump_line_def dump_start_def starts_code_def)
  have "images ?d []" by (simp add: images_def dump_start_def)
  moreover have "\<forall>i \<in> set items. item_ok i \<and> length (item_line i) < 1024"
    using assms(1,4) by (auto simp: line_ok_def)
  ultimately obtain d ws where d: "dump_lines (map item_line items) ?d = Inr (True, d)" "images d ws"
      "map word_bytes ws = memory 0 (item_words items)"
    using dump_items [of ?d "[]" items] assms(5) by auto
  have "word_bytes (ws ! i) = (case map_of (item_words items) i of None \<Rightarrow> [0, 0, 0, 0] | Some bs \<Rightarrow> bs)"
    if "i < length ws" for i
    using memory_nth [OF assms(5), of i] d(3) that by (metis add_0 length_map nth_map)
  moreover have "dump2v_main argv read_file = Inr (0, end_lines d)"
    unfolding dump2v_main_def assms(8) using assms(6,7) d(1)
    by (simp add: fgets_lines_ok [OF assms(1)] begin' del: concat_append concat.simps)
  ultimately show ?thesis using d(2,3) by blast
qed

definition example_items :: "dump_item list" where
  "example_items = [Word_Line ''   0'' 0 [(CHR ''1'', CHR ''3''), (CHR ''0'', CHR ''5''), (CHR ''f'', CHR ''0''), (CHR ''0'', CHR ''0'')] ''li a0,15'',
     Other_Line [], Label_Line ''00000008 <main>:'',
     Word_Line ''   8'' 2 [(CHR ''6'', CHR ''7''), (CHR ''8'', CHR ''0''), (CHR ''0'', CHR ''0''), (CHR ''0'', CHR ''0'')] ''ret'']"

lemma disassembly_converted_witness:
  "\<exists>d ws. dump2v_main [''dump2v'', ''a.dis'', ''rom.v'']
        [''a.dis'' \<mapsto> concat ([''code.elf'' @ [newline]] @ (''00000000 <_start>:'' @ [newline]) # map item_line example_items)]
        = Inr (0, end_lines d) \<and> images d ws \<and>
     map word_bytes ws = memory 0 [(0, [0x13, 5, 0xF0, 0]), (2, [0x67, 0x80, 0, 0])] \<and>
     (\<forall>i < length ws. word_bytes (ws ! i) =
       (case map_of [(0, [0x13, 5, 0xF0, 0]), (2, [0x67, 0x80, 0, 0])] i of None \<Rightarrow> [0, 0, 0, 0] | Some bs \<Rightarrow> bs))"
proof -
  have ws': "item_words example_items = [(0, [0x13, 5, 0xF0, 0]), (2, [0x67, 0x80, 0, 0])]" by code_simp
  have "\<forall>l \<in> set ([''code.elf'' @ [newline]] @ (''00000000 <_start>:'' @ [newline]) # map item_line example_items). line_ok l"
    by code_simp
  moreover have "\<forall>l \<in> set [''code.elf'' @ [newline]]. \<not> starts_code l" by code_simp
  moreover have "starts_code (''00000000 <_start>:'' @ [newline])" by code_simp
  moreover have "\<forall>i \<in> set example_items. item_ok i" by code_simp
  moreover have "rising 0 (item_words example_items)" by (simp add: ws')
  ultimately show ?thesis
    using disassembly_converted [of "[''code.elf'' @ [newline]]" "''00000000 <_start>:'' @ [newline]" example_items
        "[''dump2v'', ''a.dis'', ''rom.v'']"] by (simp only: ws') simp
qed

end
