(* ===== verification/Daemons.thy ===== *)
theory Daemons
  imports CLib
begin

text \<open>
  The small programs that run on the laptop itself: the LED daemon (\<open>teres1-ledctrl.c\<close>), the switch of
  the debug console (\<open>teres1-debug.c\<close>) and the audio manager (\<open>teres1-audioselect.c\<close>). Their effect
  is the sequence of writes or commands they leave; a write to a file that cannot be opened is lost.
\<close>

section \<open>Pins\<close>

text \<open>What was written, each with the path of the file; \<open>openable\<close> says which files can be opened.\<close>

type_synonym writes = "(string \<times> string) list"

definition write_file :: "(string \<Rightarrow> bool) \<Rightarrow> string \<Rightarrow> string \<Rightarrow> writes \<Rightarrow> writes" where
  "write_file openable path s w = (if openable path then w @ [(path, s)] else w)"

definition gpio_path :: "int \<Rightarrow> string \<Rightarrow> string" where
  "gpio_path gpio name = ''/sys/class/gpio/gpio'' @ print_dec gpio @ name"

definition export_gpio :: "(string \<Rightarrow> bool) \<Rightarrow> int \<Rightarrow> writes \<Rightarrow> writes" where
  "export_gpio openable gpio w =
     write_file openable (gpio_path gpio ''/direction'') ''out''
       (write_file openable ''/sys/class/gpio/export'' (print_dec gpio) w)"

text \<open>One byte is written, whatever the length of the number.\<close>

definition set_gpio :: "(string \<Rightarrow> bool) \<Rightarrow> int \<Rightarrow> int \<Rightarrow> writes \<Rightarrow> writes" where
  "set_gpio openable gpio value w = write_file openable (gpio_path gpio ''/value'') (take 1 (print_dec value)) w"

section \<open>The LED daemon\<close>

definition LED_CAPS :: int where "LED_CAPS = 71"
definition LED_NUM :: int where "LED_NUM = 68"

text \<open>An input event of the kernel.\<close>

record input_event =
  ev_type :: nat
  ev_code :: nat
  ev_value :: int

definition led_event :: "(string \<Rightarrow> bool) \<Rightarrow> input_event \<Rightarrow> writes \<Rightarrow> writes" where
  "led_event openable ie w =
     (if ev_type ie = 17
      then if ev_code ie = 0 then set_gpio openable LED_NUM (ev_value ie) w
           else if ev_code ie = 1 then set_gpio openable LED_CAPS (ev_value ie) w
           else w
      else w)"

text \<open>
  One round of the endless loop: the device cannot be opened, or the pins are exported and the events
  are handled until reading fails.
\<close>

definition led_round :: "(string \<Rightarrow> bool) \<Rightarrow> input_event list option \<Rightarrow> writes \<Rightarrow> writes" where
  "led_round openable session w = (case session of
       None \<Rightarrow> w
     | Some evs \<Rightarrow> fold (led_event openable) evs (export_gpio openable LED_CAPS (export_gpio openable LED_NUM w)))"

definition ledctrl_main :: "(string \<Rightarrow> bool) \<Rightarrow> string list \<Rightarrow> input_event list option list \<Rightarrow> writes" where
  "ledctrl_main openable argv rounds = (if length argv < 2 then [] else fold (led_round openable) rounds [])"

section \<open>The debug switch\<close>

definition DEBUGEN :: int where "DEBUGEN = 361"

definition debug_main :: "(string \<Rightarrow> bool) \<Rightarrow> nat \<Rightarrow> nat \<Rightarrow> string list \<Rightarrow> writes" where
  "debug_main openable uid euid argv =
     (if uid \<noteq> 0 \<or> uid \<noteq> euid \<or> length argv < 2 then []
      else let switch = (\<lambda>mode. set_gpio openable DEBUGEN mode (export_gpio openable DEBUGEN [])) in
        if argv ! 1 = ''off'' then switch 1 else if argv ! 1 = ''on'' then switch 0 else [])"

section \<open>The audio manager\<close>

text \<open>
  The mixer settings a call sends, as the control and its new value (their quoting for the shell is
  left out); the two parameters are \<open>char\<close>,
  so the values passed are taken modulo 256.
\<close>

definition SUNXI_HMIC_STS :: int where
  "SUNXI_HMIC_STS = 0x01c22c00 + 0x319"

definition select_mode :: "int \<Rightarrow> int \<Rightarrow> (string \<times> string) list" where
  "select_mode mmsel mval =
     (if mmsel mod 256 = 2
      then if mval mod 256 = 0
           then [(''External Speaker'', ''on''), (''Headphone'', ''off'')]
           else [(''External Speaker'', ''off''), (''Headphone'', ''on'')]
      else if mmsel mod 256 = 4
      then (if mval mod 256 = 0
            then [(''RADC input Mixer MIC1 boost'', ''unmute''), (''LADC input Mixer MIC1 boost'', ''unmute''),
                  (''RADC input Mixer MIC2 boost'', ''mute''), (''LADC input Mixer MIC2 boost'', ''mute'')]
            else [(''RADC input Mixer MIC2 boost'', ''unmute''), (''LADC input Mixer MIC2 boost'', ''unmute''),
                  (''RADC input Mixer MIC1 boost'', ''mute''), (''LADC input Mixer MIC1 boost'', ''mute'')]) @
           [(''ADCL Mux'', ''ADC''), (''ADCR Mux'', ''ADC''), (''AIF1 AD0L Mixer ADCL'', ''ADC''),
            (''AIF1 AD0R Mixer ADCR'', ''ADC'')]
      else [])"

text \<open>
  \<open>readLine\<close> reads up to a newline into a buffer that grows by 128 bytes: the line and what is left of
  the file, or none where the program ends with status 1. The end of the file is compared as a \<open>char\<close>:
  where \<open>char\<close> is unsigned, as on the A64, it is never recognised and the buffer grows until memory is
  exhausted; where it is signed, the character 255 ends a line too. The buffer grows only before a
  character is stored, so the end mark of a line of 128 characters is written behind it.
\<close>

definition readLine :: "bool \<Rightarrow> string \<Rightarrow> (string \<times> string) option c" where
  "readLine signed_char s =
     (let l = takeWhile (\<lambda>c. c \<noteq> newline \<and> \<not> (signed_char \<and> ascii c = 255)) s
      in if length l = length s \<and> \<not> signed_char then Inr None
         else if l \<noteq> [] \<and> length l mod 128 = 0 then Inl OutOfBounds
         else Inr (Some (l, drop (length l + 1) s)))"

text \<open>
  The status byte is tested with a logical and, so every bit of it counts.
\<close>

definition audio_status :: "u8 \<Rightarrow> (string \<times> string) list" where
  "audio_status m =
     (if m \<noteq> 0 \<and> (0x08 :: int) \<noteq> 0 then select_mode 4 1 else select_mode 4 0) @
     (if m \<noteq> 0 \<and> (0x04 :: int) \<noteq> 0 then select_mode 2 1 else select_mode 2 0)"

text \<open>
  The loop over the jack events: for each time the device is opened, the events until reading fails, or
  none where it cannot be opened, which ends the program.
\<close>

definition jack_event :: "input_event \<Rightarrow> (string \<times> string) list" where
  "jack_event ie = (if ev_type ie = 5 then select_mode (int (ev_code ie)) (ev_value ie) else [])"

fun jack_rounds :: "input_event list option list \<Rightarrow> int option \<times> (string \<times> string) list" where
  "jack_rounds [] = (None, [])"
| "jack_rounds (None # rs) = (Some 255, [])"
| "jack_rounds (Some evs # rs) = (case jack_rounds rs of (r, ms) \<Rightarrow> (r, concat (map jack_event evs) @ ms))"

text \<open>
  \<open>main\<close>, with the contents of \<open>/boot/uEnv.txt\<close> where it exists and the status byte where the memory can
  be mapped. The line of the file is read through a pointer to a local array of \<open>readLine\<close>, which is
  gone; and no statement sets the device, so opening it fails whatever \<open>argv\<close> is.
\<close>

definition audio_main :: "bool \<Rightarrow> string option \<Rightarrow> u8 option \<Rightarrow> string list \<Rightarrow> (int \<times> (string \<times> string) list) c" where
  "audio_main signed_char uenv mem argv =
     (case uenv of
        Some s \<Rightarrow> bind_c (readLine signed_char s) (\<lambda>r. case r of None \<Rightarrow> Inr (1, []) | Some _ \<Rightarrow> Inl OutOfBounds)
      | None \<Rightarrow> (case mem of
          None \<Rightarrow> Inr (-1, [])
        | Some m \<Rightarrow> (case jack_rounds [None] of (r, ms) \<Rightarrow> Inr (the r, audio_status m @ ms))))"

section \<open>Properties\<close>

definition written_to :: "string \<Rightarrow> writes \<Rightarrow> string list" where
  "written_to path w = map snd (filter (\<lambda>(p, s). p = path) w)"

lemma written_to_simps [simp]:
  "written_to path [] = []"
  "written_to path (write_file openable p s w) = written_to path w @ (if openable p \<and> p = path then [s] else [])"
  by (auto simp: written_to_def write_file_def)

text \<open>The pin of an event of the LEDs.\<close>

definition led_pin :: "input_event \<Rightarrow> int option" where
  "led_pin ie = (if ev_type ie = 17 then (if ev_code ie = 0 then Some LED_NUM else if ev_code ie = 1 then Some LED_CAPS else None) else None)"

lemma gpio_paths:
  "gpio_path LED_NUM ''/value'' \<noteq> gpio_path LED_CAPS ''/value''"
  "gpio_path LED_NUM ''/direction'' \<noteq> gpio_path LED_CAPS ''/value''"
  "gpio_path LED_CAPS ''/direction'' \<noteq> gpio_path LED_NUM ''/value''"
  "gpio_path LED_NUM ''/direction'' \<noteq> gpio_path LED_NUM ''/value''"
  "gpio_path LED_CAPS ''/direction'' \<noteq> gpio_path LED_CAPS ''/value''"
  "''/sys/class/gpio/export'' \<noteq> gpio_path LED_NUM ''/value''"
  "''/sys/class/gpio/export'' \<noteq> gpio_path LED_CAPS ''/value''"
  by code_simp+

lemma led_pins: "LED_NUM \<noteq> LED_CAPS"
  by (simp add: LED_NUM_def LED_CAPS_def)

lemma led_event_written:
  assumes "pin = LED_NUM \<or> pin = LED_CAPS" "openable (gpio_path pin ''/value'')"
  shows "written_to (gpio_path pin ''/value'') (led_event openable e w)
    = written_to (gpio_path pin ''/value'') w @ (if led_pin e = Some pin then [take 1 (print_dec (ev_value e))] else [])"
proof -
  have "gpio_path LED_CAPS ''/value'' \<noteq> gpio_path LED_NUM ''/value''" using gpio_paths(1) by metis
  then show ?thesis
    using assms led_pins gpio_paths(1)
    by (elim disjE) (simp_all add: led_event_def led_pin_def set_gpio_def)
qed

lemma led_events_written:
  assumes "pin = LED_NUM \<or> pin = LED_CAPS" "openable (gpio_path pin ''/value'')"
  shows "written_to (gpio_path pin ''/value'') (fold (led_event openable) evs w)
    = written_to (gpio_path pin ''/value'') w @
      map (\<lambda>e. take 1 (print_dec (ev_value e))) (filter (\<lambda>e. led_pin e = Some pin) evs)"
  by (induction evs arbitrary: w) (simp_all add: led_event_written [of pin openable, OF assms])

lemma export_written:
  assumes "pin = LED_NUM \<or> pin = LED_CAPS" "q = LED_NUM \<or> q = LED_CAPS"
  shows "written_to (gpio_path pin ''/value'') (export_gpio openable q w) = written_to (gpio_path pin ''/value'') w"
  using assms gpio_paths by (elim disjE) (simp_all add: export_gpio_def)

text \<open>
  In one session with the keyboard the pin of each LED gets exactly the values of the events of that
  LED, in their order and nothing else: the LED follows the keyboard's, as far as its value is one
  character.
\<close>

theorem leds_follow_events:
  assumes "pin = LED_NUM \<or> pin = LED_CAPS" "openable (gpio_path pin ''/value'')"
  shows "written_to (gpio_path pin ''/value'') (led_round openable (Some evs) w)
    = written_to (gpio_path pin ''/value'') w @
      map (\<lambda>e. take 1 (print_dec (ev_value e))) (filter (\<lambda>e. led_pin e = Some pin) evs)"
  using assms(1) by (simp add: led_round_def led_events_written [of pin openable, OF assms] export_written)

lemma leds_follow_events_witness:
  "written_to (gpio_path LED_CAPS ''/value'') (led_round (\<lambda>p. True)
       (Some [\<lparr>ev_type = 17, ev_code = 1, ev_value = 1\<rparr>, \<lparr>ev_type = 17, ev_code = 0, ev_value = 1\<rparr>]) [])
    = written_to (gpio_path LED_CAPS ''/value'') [] @ map (\<lambda>e. take 1 (print_dec (ev_value e)))
        (filter (\<lambda>e. led_pin e = Some LED_CAPS)
          [\<lparr>ev_type = 17, ev_code = 1, ev_value = 1\<rparr>, \<lparr>ev_type = 17, ev_code = 0, ev_value = 1\<rparr>])"
  by (rule leds_follow_events) simp_all

text \<open>
  The audio manager does not tell the headset from the headphones: whatever bit of the status is
  set, both are selected, so with headphones alone the microphone of the laptop is muted.
\<close>

theorem any_status_bit_selects_both:
  assumes "m \<noteq> 0"
  shows "audio_main signed_char None (Some m) argv = Inr (255, select_mode 4 1 @ select_mode 2 1)"
  using assms by (simp add: audio_main_def audio_status_def)

lemma any_status_bit_selects_both_witness:
  "audio_main False None (Some 0x04) [''teres1-audioselect''] = Inr (255, select_mode 4 1 @ select_mode 2 1)"
  by (rule any_status_bit_selects_both) simp

end
