(* ===== verification/SerialMonitors.thy ===== *)
theory SerialMonitors
  imports CLib
begin

unbundle bit_operations_syntax

text \<open>
  The three programs that connect a terminal to the serial line of the board: \<open>tools/monitor.c\<close> has one
  for Unix and one for Windows, \<open>common/vstudio/monitor/monitor.c\<close> is another one for Windows. The bytes
  on the screen and on the line are lists; what the line, the keyboard and the system calls give is the
  input of each round.
\<close>

section \<open>Unix: the settings of the line and of the terminal\<close>

text \<open>Terminal attributes, and the numbers the system has for their bits.\<close>

record termios =
  c_iflag :: u32
  c_oflag :: u32
  c_cflag :: u32
  c_lflag :: u32
  ispeed :: u32
  ospeed :: u32

record termios_bits =
  IGNBRK :: u32
  BRKINT :: u32
  PARMRK :: u32
  ISTRIP :: u32
  INLCR :: u32
  IGNCR :: u32
  ICRNL :: u32
  IXON :: u32
  INPCK :: u32
  PARENB :: u32
  CSTOPB :: u32
  CSIZE :: u32
  CS8 :: u32
  ICANON :: u32
  B115200 :: u32

definition line_settings :: "termios_bits \<Rightarrow> termios \<Rightarrow> termios" where
  "line_settings T tty =
     (let t1 = tty\<lparr>c_iflag := 0, c_oflag := 4, c_lflag := 0, ospeed := B115200 T, ispeed := B115200 T\<rparr>;
          t2 = t1\<lparr>c_iflag := c_iflag t1 AND NOT (IGNBRK T OR BRKINT T OR PARMRK T OR ISTRIP T OR INLCR T OR IGNCR T OR
                 ICRNL T OR IXON T OR INPCK T)\<rparr>;
          t3 = t2\<lparr>c_iflag := c_iflag t2 OR BRKINT T, c_cflag := c_cflag t2 AND NOT (PARENB T)\<rparr>;
          t4 = t3\<lparr>c_cflag := c_cflag t3 AND NOT (CSTOPB T)\<rparr>;
          t5 = t4\<lparr>c_cflag := c_cflag t4 AND NOT (CSIZE T)\<rparr>
      in t5\<lparr>c_cflag := c_cflag t5 OR CS8 T\<rparr>)"

definition terminal_settings :: "termios_bits \<Rightarrow> termios \<Rightarrow> termios" where
  "terminal_settings T orig_termios = orig_termios\<lparr>c_lflag := c_lflag orig_termios AND NOT (ICANON T)\<rparr>"

section \<open>Unix: the relay loop\<close>

text \<open>
  One round of the relay loop: how many bytes the serial line has, what reading them gives (none for an
  error), and what the keyboard has: nothing, a byte, or its end.
\<close>

datatype key = No_key | Key char | End_of_input

record tick =
  available :: int
  serial :: "string option"
  keyboard :: key

text \<open>The first byte of the buffer, what went to the screen and to the serial line, and the pauses.\<close>

record monitor =
  buffer0 :: "char option"
  screen :: string
  sent :: string
  pauses :: nat

text \<open>\<open>select\<close> looks at the descriptors below its first argument, which is 1.\<close>

definition ready :: "(nat \<Rightarrow> bool) \<Rightarrow> nat \<Rightarrow> bool" where
  "ready readable fd = (fd < 1 \<and> readable fd)"

definition relay :: "tick \<Rightarrow> monitor \<Rightarrow> monitor c" where
  "relay e s =
     (let got = (if available e > 0 then serial e else Some []);
          s1 = (case got of None \<Rightarrow> s
            | Some bs \<Rightarrow> if bs = [] then s else s\<lparr>buffer0 := Some (hd bs), screen := screen s @ bs\<rparr>);
          n = (case got of None \<Rightarrow> -1 | Some bs \<Rightarrow> int (length bs));
          send = (\<lambda>s. case buffer0 s of None \<Rightarrow> Inl Uninitialised | Some c \<Rightarrow> Inr (s\<lparr>sent := sent s @ [c]\<rparr>))
      in if ready (\<lambda>fd. keyboard e \<noteq> No_key) 0
         then (case keyboard e of Key c \<Rightarrow> send (s1\<lparr>buffer0 := Some c\<rparr>) | _ \<Rightarrow> send s1)
         else Inr (if n \<le> 0 then s1\<lparr>pauses := pauses s1 + 1\<rparr> else s1))"

fun relay_all :: "tick list \<Rightarrow> monitor \<Rightarrow> monitor c" where
  "relay_all [] s = Inr s"
| "relay_all (e # es) s = bind_c (relay e s) (relay_all es)"

section \<open>Unix: the course of the program\<close>

text \<open>
  Where \<open>main\<close> is: before and after the signal handler is installed, after the line is opened and
  configured, after the settings of the terminal are saved, in the relay loop, at its end with a status,
  or killed by its own handler. \<open>orig_termios\<close> is a global variable, all zero at the start.
\<close>

datatype phase = Starting | Handling | Opened | Configured | Saved | Relaying | Stopped int | Killed

record session =
  phase :: phase
  serial_line :: termios
  terminal :: termios
  orig_termios :: termios
  relaying :: monitor

definition zeroed :: termios where
  "zeroed = \<lparr>c_iflag = 0, c_oflag = 0, c_cflag = 0, c_lflag = 0, ispeed = 0, ospeed = 0\<rparr>"

definition reset :: "session \<Rightarrow> session" where
  "reset s = s\<lparr>terminal := orig_termios s\<rparr>"

text \<open>The handler resets the terminal, restores the old handling of the signal and sends it again.\<close>

definition sigint_handler :: "session \<Rightarrow> session" where
  "sigint_handler s = (reset s)\<lparr>phase := Killed\<rparr>"

text \<open>
  The steps of the program and of the user, with a terminal as standard input. Opening the line waits
  until the line has a carrier, so an interrupt while the handler is installed and the line is not yet
  open is no rare event.
\<close>

inductive session_step :: "termios_bits \<Rightarrow> session \<Rightarrow> session \<Rightarrow> bool" for T :: termios_bits where
  sigaction: "phase s = Starting \<Longrightarrow> session_step T s (s\<lparr>phase := Handling\<rparr>)"
| open_line: "phase s = Handling \<Longrightarrow> session_step T s (s\<lparr>phase := Opened, serial_line := p\<rparr>)"
| open_fails: "phase s = Handling \<Longrightarrow> session_step T s (s\<lparr>phase := Stopped (- 1)\<rparr>)"
| configure: "phase s = Opened \<Longrightarrow> session_step T s (s\<lparr>phase := Configured, serial_line := line_settings T (serial_line s)\<rparr>)"
| configure_fails: "phase s = Opened \<Longrightarrow> session_step T s (s\<lparr>phase := Stopped (- 1)\<rparr>)"
| save: "phase s = Configured \<Longrightarrow> session_step T s (s\<lparr>phase := Saved, orig_termios := terminal s\<rparr>)"
| change: "phase s = Saved \<Longrightarrow> session_step T s (s\<lparr>phase := Relaying, terminal := terminal_settings T (orig_termios s)\<rparr>)"
| relay: "phase s = Relaying \<Longrightarrow> relay e (relaying s) = Inr m \<Longrightarrow> session_step T s (s\<lparr>relaying := m\<rparr>)"
| interrupt: "phase s \<in> {Handling, Opened, Configured, Saved, Relaying} \<Longrightarrow> session_step T s (sigint_handler s)"
| early_interrupt: "phase s = Starting \<Longrightarrow> session_step T s (s\<lparr>phase := Killed\<rparr>)"

inductive_cases session_stepE: "session_step T s s'"

inductive reached :: "termios_bits \<Rightarrow> termios \<Rightarrow> session \<Rightarrow> bool" for T :: termios_bits and t :: termios where
  start: "phase s = Starting \<Longrightarrow> terminal s = t \<Longrightarrow> orig_termios s = zeroed \<Longrightarrow> reached T t s"
| step: "reached T t s \<Longrightarrow> session_step T s s' \<Longrightarrow> reached T t s'"

section \<open>The settings\<close>

lemma line_flags:
  "c_iflag (line_settings T tty) = BRKINT T" "c_lflag (line_settings T tty) = 0"
  "c_cflag (line_settings T tty) = (c_cflag tty AND NOT (PARENB T OR CSTOPB T OR CSIZE T)) OR CS8 T"
  by (simp_all add: line_settings_def Let_def bit_eq_iff bit_simps)

lemma terminal_other_flags:
  "c_lflag (terminal_settings T t) = c_lflag t AND NOT (ICANON T)" "c_iflag (terminal_settings T t) = c_iflag t"
  by (simp_all add: terminal_settings_def)

section \<open>An interrupt and the settings of the terminal\<close>

text \<open>What holds of the terminal in each phase, when its settings at the start were \<open>t\<close>.\<close>

definition settings_ok :: "termios_bits \<Rightarrow> termios \<Rightarrow> session \<Rightarrow> bool" where
  "settings_ok T t s = (case phase s of
       Saved \<Rightarrow> terminal s = t \<and> orig_termios s = t
     | Relaying \<Rightarrow> terminal s = terminal_settings T t \<and> orig_termios s = t
     | Killed \<Rightarrow> terminal s \<in> {t, zeroed}
     | _ \<Rightarrow> terminal s = t \<and> orig_termios s = zeroed)"

lemma settings_step: "session_step T s s' \<Longrightarrow> settings_ok T t s \<Longrightarrow> settings_ok T t s'"
  by (induction rule: session_step.induct) (auto simp: settings_ok_def sigint_handler_def reset_def)

lemma settings_reached: "reached T t s \<Longrightarrow> settings_ok T t s"
  by (induction rule: reached.induct) (auto simp: settings_ok_def intro: settings_step [unfolded settings_ok_def])

text \<open>
  C40. Whenever the user interrupts the monitor, its terminal is left with the settings it had before the
  program, exactly if the signal handler was not yet installed or the settings were already saved: an
  interrupt while the line is opened and configured sets all of them to zero.
\<close>

theorem interrupt_restores_terminal:
  assumes "reached T t s" "session_step T s s'" "phase s' = Killed" "t \<noteq> zeroed"
  shows "(terminal s' = t \<longleftrightarrow> phase s \<in> {Starting, Saved, Relaying}) \<and> (terminal s' \<noteq> t \<longrightarrow> terminal s' = zeroed)"
  using settings_reached [OF assms(1)] assms(2,3,4)
  by (auto simp: settings_ok_def sigint_handler_def reset_def elim!: session_stepE)

definition some_terminal :: termios where
  "some_terminal = \<lparr>c_iflag = 0x500, c_oflag = 5, c_cflag = 0xBF, c_lflag = 0x8A3B, ispeed = 15, ospeed = 15\<rparr>"

definition linux_bits :: termios_bits where
  "linux_bits = \<lparr>IGNBRK = 1, BRKINT = 2, PARMRK = 8, ISTRIP = 0x20, INLCR = 0x40, IGNCR = 0x80, ICRNL = 0x100, IXON = 0x400,
     INPCK = 0x10, PARENB = 0x100, CSTOPB = 0x40, CSIZE = 0x30, CS8 = 0x30, ICANON = 2, B115200 = 0x1002\<rparr>"

definition at_start :: session where
  "at_start = \<lparr>phase = Starting, serial_line = zeroed, terminal = some_terminal, orig_termios = zeroed,
     relaying = \<lparr>buffer0 = None, screen = [], sent = [], pauses = 0\<rparr>\<rparr>"

lemma interrupt_restores_terminal_witness:
  "\<exists>s. reached linux_bits some_terminal s \<and> phase s = Handling \<and> session_step linux_bits s (sigint_handler s) \<and>
     terminal (sigint_handler s) = zeroed"
proof -
  let ?s = "at_start\<lparr>phase := Handling\<rparr>"
  have "reached linux_bits some_terminal at_start" by (rule reached.start) (simp_all add: at_start_def)
  then have s: "reached linux_bits some_terminal ?s" by (rule reached.step) (rule session_step.sigaction, simp add: at_start_def)
  have step: "session_step linux_bits ?s (sigint_handler ?s)" by (rule session_step.interrupt) simp
  have "terminal (sigint_handler ?s) = zeroed"
    using interrupt_restores_terminal [OF s step] by (simp add: sigint_handler_def some_terminal_def zeroed_def)
  then show ?thesis using s step by (intro exI [of _ ?s]) simp
qed

section \<open>The relay\<close>

definition typed :: "tick \<Rightarrow> string" where
  "typed e = (case keyboard e of Key c \<Rightarrow> [c] | _ \<Rightarrow> [])"

definition arrived :: "tick \<Rightarrow> string" where
  "arrived e = (if available e > 0 then (case serial e of None \<Rightarrow> [] | Some bs \<Rightarrow> bs) else [])"

lemma relay_step:
  assumes "keyboard e \<noteq> End_of_input"
  shows "\<exists>s'. relay e s = Inr s' \<and> screen s' = screen s @ arrived e \<and> sent s' = sent s @ typed e"
  using assms by (cases "keyboard e") (auto simp: relay_def ready_def Let_def typed_def arrived_def split: option.splits)

text \<open>
  As long as the input of the monitor has not ended, the screen shows what the serial line
  delivers and the serial line gets what is typed, everything in order and nothing twice.
\<close>

theorem monitor_relays:
  assumes "\<forall>e \<in> set es. keyboard e \<noteq> End_of_input"
  shows "\<exists>s'. relay_all es s = Inr s' \<and> screen s' = screen s @ concat (map arrived es) \<and>
    sent s' = sent s @ concat (map typed es)"
  using assms
proof (induction es arbitrary: s)
  case (Cons e es)
  obtain s1 where s1: "relay e s = Inr s1" "screen s1 = screen s @ arrived e" "sent s1 = sent s @ typed e"
    using relay_step [of e s] Cons.prems by auto
  then show ?case using Cons.IH [of s1] Cons.prems by auto
qed simp

lemma monitor_relays_witness:
  "\<exists>s'. relay_all [\<lparr>available = 2, serial = Some ''ok'', keyboard = Key (CHR ''x'')\<rparr>]
      \<lparr>buffer0 = None, screen = [], sent = [], pauses = 0\<rparr> = Inr s' \<and>
    screen s' = screen \<lparr>buffer0 = None, screen = [], sent = [], pauses = 0\<rparr> @
      concat (map arrived [\<lparr>available = 2, serial = Some ''ok'', keyboard = Key (CHR ''x'')\<rparr>]) \<and>
    sent s' = sent \<lparr>buffer0 = None, screen = [], sent = [], pauses = 0\<rparr> @
      concat (map typed [\<lparr>available = 2, serial = Some ''ok'', keyboard = Key (CHR ''x'')\<rparr>])"
  by (rule monitor_relays) simp

text \<open>
  When the input of the monitor has ended it is always ready and never gives a byte, so every round
  sends the byte that is left in the buffer, without a pause and without end.
\<close>

theorem ended_input_repeats_byte:
  assumes "buffer0 s = Some c" "\<forall>e \<in> set es. keyboard e = End_of_input \<and> available e \<le> 0"
  shows "relay_all es s = Inr (s\<lparr>sent := sent s @ replicate (length es) c\<rparr>)"
  using assms
proof (induction es arbitrary: s)
  case (Cons e es)
  then show ?case using Cons.IH [of "s\<lparr>sent := sent s @ [c]\<rparr>"] by (simp add: relay_def ready_def Let_def)
qed simp

lemma ended_input_repeats_byte_witness:
  "relay_all (replicate 3 \<lparr>available = 0, serial = None, keyboard = End_of_input\<rparr>)
      \<lparr>buffer0 = Some (CHR ''q''), screen = [], sent = ''q'', pauses = 0\<rparr>
    = Inr (\<lparr>buffer0 = Some (CHR ''q''), screen = [], sent = ''q'', pauses = 0\<rparr>\<lparr>sent :=
        sent \<lparr>buffer0 = Some (CHR ''q''), screen = [], sent = ''q'', pauses = 0\<rparr> @
        replicate (length (replicate 3 \<lparr>available = 0, serial = None, keyboard = End_of_input\<rparr>)) (CHR ''q'')\<rparr>)"
  by (rule ended_input_repeats_byte) simp_all

section \<open>Windows: setting up the line\<close>

text \<open>The members the program sets; \<open>others\<close> stands for those it leaves as they are.\<close>

record 'x dcb =
  BaudRate :: nat
  ByteSize :: nat
  Parity :: nat
  StopBits :: nat
  others :: 'x

record commtimeouts =
  ReadIntervalTimeout :: nat
  ReadTotalTimeoutMultiplier :: nat
  ReadTotalTimeoutConstant :: nat
  WriteTotalTimeoutMultiplier :: nat
  WriteTotalTimeoutConstant :: nat

text \<open>What the system calls answer; the events of the reads and of the writes are two calls of \<open>CreateEvent\<close>.\<close>

record 'x serial_api =
  port_opens :: bool
  GetCommState :: "'x dcb option"
  SetCommState :: "'x dcb \<Rightarrow> bool"
  GetCommTimeouts :: "commtimeouts option"
  SetCommTimeouts :: "commtimeouts \<Rightarrow> bool"
  read_event :: bool
  write_event :: bool

definition line_115200 :: "'x dcb \<Rightarrow> 'x dcb" where
  "line_115200 d = d\<lparr>BaudRate := 115200, ByteSize := 8, Parity := 0, StopBits := 0\<rparr>"

definition monitor_timeouts :: "commtimeouts \<Rightarrow> commtimeouts" where
  "monitor_timeouts t = t\<lparr>ReadIntervalTimeout := 10, ReadTotalTimeoutMultiplier := 0, ReadTotalTimeoutConstant := 0,
     WriteTotalTimeoutMultiplier := 1, WriteTotalTimeoutConstant := 500\<rparr>"

text \<open>The message of the call that failed, or the settings that are in force.\<close>

definition setup_port :: "'x serial_api \<Rightarrow> string + 'x dcb \<times> commtimeouts" where
  "setup_port a =
     (if \<not> port_opens a then Inl ''Cannot open serial port''
      else case GetCommState a of
        None \<Rightarrow> Inl ''Cannot get state of serial port''
      | Some d \<Rightarrow>
          if \<not> SetCommState a (line_115200 d) then Inl ''Cannot setup serial port''
          else (case GetCommTimeouts a of
              None \<Rightarrow> Inl ''Cannot get timeout serial port''
            | Some t \<Rightarrow>
                if \<not> SetCommTimeouts a (monitor_timeouts t) then Inl ''Cannot set timeout serial port''
                else if \<not> read_event a then Inl ''Cannot create event''
                else if \<not> write_event a then Inl ''Cannot create event''
                else Inr (line_115200 d, monitor_timeouts t)))"

section \<open>Windows: the relay loop\<close>

text \<open>A C string on the screen, with a line feed after each carriage return.\<close>

definition print :: "string \<Rightarrow> string" where
  "print p = concat (map (\<lambda>c. if c = CHR 0x0D then [c, newline] else [c]) (takeWhile (\<lambda>c. c \<noteq> CHR 0x00) p))"

text \<open>
  The buffer of 4097 bytes belongs to the program and, while a read is pending, to the system, which
  stores the bytes of the read when they arrive: \<open>stored\<close> is their number until the program has seen
  them, \<open>asked\<close> the number of bytes the pending read wants at most. \<open>delivered\<close> is not of the program:
  what the system has stored, in order.
\<close>

definition sizeof_buffer :: nat where
  "sizeof_buffer = 4097"

record win_monitor =
  buffer :: string
  fWaitingOnRead :: bool
  asked :: nat
  stored :: "nat option"
  delivered :: "string list"
  shown :: string
  written :: string
  exited :: bool

datatype read_file = Read_now string | Read_pending | Read_error

text \<open>
  One round: how a new read begins, what arrives before the program looks for it, whether its result can
  be had, what arrives afterwards, the key that is pressed, what arrives after the key was put into the
  buffer and before the write takes it from there, and whether the key can be written.
\<close>

record win_tick =
  ReadFile :: read_file
  arrives :: "string option"
  GetOverlappedResult :: bool
  arrives_late :: "string option"
  kbhit :: "char option"
  arrives_writing :: "string option"
  WriteFile :: bool

definition store :: "string \<Rightarrow> string \<Rightarrow> string" where
  "store bs buf = bs @ drop (length bs) buf"

text \<open>The system stores the bytes of a read, at most as many as the read asks for.\<close>

definition fill_buffer :: "string \<Rightarrow> win_monitor \<Rightarrow> win_monitor c" where
  "fill_buffer bs s =
     (if length bs > length (buffer s) then Inl OutOfBounds
      else Inr (s\<lparr>buffer := store bs (buffer s), delivered := delivered s @ [bs]\<rparr>))"

definition complete :: "string option \<Rightarrow> win_monitor \<Rightarrow> win_monitor c" where
  "complete a s = (case a of
       None \<Rightarrow> Inr s
     | Some bs \<Rightarrow>
         if fWaitingOnRead s \<and> stored s = None
         then bind_c (fill_buffer (take (asked s) bs) s) (\<lambda>s1. Inr (s1\<lparr>stored := Some (length (take (asked s) bs))\<rparr>))
         else Inr s)"

definition show_buffer :: "nat \<Rightarrow> win_monitor \<Rightarrow> win_monitor c" where
  "show_buffer bytesRead s =
     (if bytesRead \<ge> length (buffer s) then Inl OutOfBounds
      else let b = (buffer s)[bytesRead := CHR 0x00] in Inr (s\<lparr>buffer := b, shown := shown s @ print b\<rparr>))"

definition receive :: "win_tick \<Rightarrow> win_monitor \<Rightarrow> win_monitor c" where
  "receive t s =
     (if \<not> fWaitingOnRead s
      then let size = sizeof_buffer - 2
           in case ReadFile t of
              Read_error \<Rightarrow> Inr s
            | Read_pending \<Rightarrow> Inr (s\<lparr>fWaitingOnRead := True, asked := size\<rparr>)
            | Read_now bs \<Rightarrow> bind_c (fill_buffer (take size bs) s) (show_buffer (length (take size bs)))
      else (case stored s of
              None \<Rightarrow> Inr s
            | Some n \<Rightarrow>
                let s1 = s\<lparr>fWaitingOnRead := False, stored := None\<rparr>
                in if GetOverlappedResult t then show_buffer n s1 else Inr s1))"

definition send_key :: "win_tick \<Rightarrow> win_monitor \<Rightarrow> win_monitor c" where
  "send_key t s = (case kbhit t of
       None \<Rightarrow> Inr s
     | Some c \<Rightarrow> bind_c (complete (arrives_writing t) (s\<lparr>buffer := (buffer s)[0 := c, 1 := CHR 0x00]\<rparr>)) (\<lambda>s1.
         Inr (if WriteFile t then s1\<lparr>written := written s1 @ [buffer s1 ! 0]\<rparr> else s1\<lparr>exited := True\<rparr>)))"

definition win_round :: "win_tick \<Rightarrow> win_monitor \<Rightarrow> win_monitor c" where
  "win_round t s =
     bind_c (complete (arrives t) s) (\<lambda>s0. bind_c (receive t s0) (\<lambda>s1. bind_c (complete (arrives_late t) s1) (send_key t)))"

primrec win_loop :: "win_tick list \<Rightarrow> win_monitor \<Rightarrow> win_monitor c" where
  "win_loop [] s = Inr s"
| "win_loop (t # ts) s = (if exited s then Inr s else bind_c (win_round t s) (win_loop ts))"

definition uncollected :: "win_monitor \<Rightarrow> string" where
  "uncollected s = (case stored s of None \<Rightarrow> [] | Some n \<Rightarrow> take n (buffer s))"

definition relayed :: "win_monitor \<Rightarrow> bool" where
  "relayed s \<longleftrightarrow> length (buffer s) = sizeof_buffer \<and> (\<not> fWaitingOnRead s \<longrightarrow> stored s = None) \<and>
     (fWaitingOnRead s \<longrightarrow> asked s < sizeof_buffer) \<and> (\<forall>n. stored s = Some n \<longrightarrow> n < sizeof_buffer) \<and> \<not> exited s \<and>
     shown s @ print (uncollected s) = concat (map print (delivered s))"

text \<open>
  A round without an error of the line, in which no key is pressed while bytes that have arrived are not
  yet shown, and none arrive between a key and its write.
\<close>

definition quiet :: "win_tick \<Rightarrow> bool" where
  "quiet t \<longleftrightarrow> GetOverlappedResult t \<and> WriteFile t \<and>
     (kbhit t \<noteq> None \<longrightarrow> arrives_late t = None \<and> arrives_writing t = None)"

definition keys :: "win_tick \<Rightarrow> string" where
  "keys t = (case kbhit t of None \<Rightarrow> [] | Some c \<Rightarrow> [c])"

lemma print_terminated: "n < length b \<Longrightarrow> print (b[n := CHR 0x00]) = print (take n b)"
proof -
  assume n: "n < length b"
  then have "b[n := CHR 0x00] = take n b @ CHR 0x00 # drop (Suc n) b" by (simp add: upd_conv_take_nth_drop)
  then show ?thesis by (auto simp: print_def takeWhile_append takeWhile_eq_all_conv [THEN iffD2])
qed

lemma print_Nil [simp]: "print [] = []"
  by (simp add: print_def)

lemma store_simps [simp]:
  "take (length bs) (store bs b) = bs" "length bs \<le> length b \<Longrightarrow> length (store bs b) = length b"
  by (simp_all add: store_def)

lemma complete_relayed:
  assumes "relayed s"
  shows "\<exists>s'. complete a s = Inr s' \<and> relayed s' \<and> written s' = written s"
proof (cases a)
  case (Some bs)
  define got where "got = take (asked s) bs"
  then have len: "length got \<le> asked s" by simp
  show ?thesis
  proof (cases "fWaitingOnRead s \<and> stored s = None")
    case True
    then show ?thesis
      using assms len unfolding Some complete_def option.case got_def [symmetric]
      by (auto simp: fill_buffer_def relayed_def uncollected_def)
  qed (use assms Some in \<open>auto simp: complete_def\<close>)
qed (use assms in \<open>simp add: complete_def\<close>)

lemma show_relayed:
  assumes "length (buffer s) = sizeof_buffer" "n < sizeof_buffer" "stored s = None" "\<not> exited s" "\<not> fWaitingOnRead s"
    "shown s @ print (take n (buffer s)) = concat (map print (delivered s))"
  shows "\<exists>s'. show_buffer n s = Inr s' \<and> relayed s' \<and> written s' = written s"
  using assms by (simp add: show_buffer_def relayed_def uncollected_def Let_def print_terminated)

lemma receive_relayed:
  assumes "relayed s" "quiet t"
  shows "\<exists>s'. receive t s = Inr s' \<and> relayed s' \<and> written s' = written s"
proof (cases "fWaitingOnRead s")
  case True
  show ?thesis
  proof (cases "stored s")
    case (Some n)
    let ?s = "s\<lparr>fWaitingOnRead := False, stored := None\<rparr>"
    have "\<exists>s'. show_buffer n ?s = Inr s' \<and> relayed s' \<and> written s' = written ?s"
      using assms(1) Some by (intro show_relayed) (simp_all add: relayed_def uncollected_def)
    then show ?thesis using True Some assms(2) by (auto simp: receive_def quiet_def)
  qed (use True assms(1) in \<open>simp add: receive_def\<close>)
next
  case False
  then have none: "stored s = None" using assms(1) by (simp add: relayed_def)
  show ?thesis
  proof (cases "ReadFile t")
    case (Read_now bs)
    define got where "got = take (sizeof_buffer - 2) bs"
    let ?s = "s\<lparr>buffer := store got (buffer s), delivered := delivered s @ [got]\<rparr>"
    have len: "length got < sizeof_buffer" by (simp add: got_def sizeof_buffer_def)
    have "\<exists>s'. show_buffer (length got) ?s = Inr s' \<and> relayed s' \<and> written s' = written ?s"
      using assms(1) False none len by (intro show_relayed) (simp_all add: relayed_def uncollected_def)
    moreover have "receive t s = bind_c (fill_buffer got s) (show_buffer (length got))"
      using False Read_now by (simp only: receive_def Let_def read_file.case got_def [symmetric] simp_thms if_True)
    moreover have "length got \<le> length (buffer s)" using assms(1) len by (simp add: relayed_def)
    ultimately show ?thesis by (simp add: fill_buffer_def)
  qed (use False none assms(1) in \<open>auto simp: receive_def relayed_def uncollected_def sizeof_buffer_def\<close>)
qed

lemma late_or_key:
  assumes "relayed s" "quiet t" "stored s = None"
  shows "\<exists>s'. bind_c (complete (arrives_late t) s) (send_key t) = Inr s' \<and> relayed s' \<and> written s' = written s @ keys t"
proof (cases "kbhit t")
  case None
  then show ?thesis using complete_relayed [OF assms(1), of "arrives_late t"] by (auto simp: send_key_def keys_def)
next
  case (Some c)
  then have "arrives_late t = None" "arrives_writing t = None" "WriteFile t" using assms(2) by (simp_all add: quiet_def)
  then show ?thesis
    using assms(1,3) Some by (auto simp: complete_def send_key_def relayed_def uncollected_def keys_def sizeof_buffer_def)
qed

lemma receive_collects:
  assumes "receive t s = Inr s'" "relayed s"
  shows "stored s' = None"
  using assms by (auto simp: receive_def relayed_def show_buffer_def fill_buffer_def Let_def split: if_splits read_file.splits option.splits)

lemma round_relayed:
  assumes "relayed s" "quiet t"
  shows "\<exists>s'. win_round t s = Inr s' \<and> relayed s' \<and> written s' = written s @ keys t"
proof -
  obtain s0 where s0: "complete (arrives t) s = Inr s0" "relayed s0" "written s0 = written s"
    using complete_relayed [OF assms(1)] by blast
  obtain s1 where s1: "receive t s0 = Inr s1" "relayed s1" "written s1 = written s0"
    using receive_relayed [OF s0(2) assms(2)] by blast
  show ?thesis
    using late_or_key [OF s1(2) assms(2) receive_collects [OF s1(1) s0(2)]] s0 s1 by (simp add: win_round_def)
qed

lemma loop_relayed:
  assumes "list_all quiet ts" "relayed s"
  shows "\<exists>s'. win_loop ts s = Inr s' \<and> relayed s' \<and> written s' = written s @ concat (map keys ts)"
  using assms
proof (induction ts arbitrary: s)
  case (Cons t ts)
  obtain s1 where s1: "win_round t s = Inr s1" "relayed s1" "written s1 = written s @ keys t"
    using round_relayed [of s t] Cons.prems by auto
  then show ?case using Cons.IH [OF _ s1(2)] Cons.prems by (auto simp: relayed_def)
qed simp

definition win_start :: "string \<Rightarrow> win_monitor" where
  "win_start b = \<lparr>buffer = b, fWaitingOnRead = False, asked = 0, stored = None, delivered = [], shown = [], written = [], exited = False\<rparr>"

text \<open>
  C39. The Windows monitor relays in order and never leaves its buffer, whatever number of bytes the line
  has for it, while the line has no error and no key is pressed between the arrival of bytes and their
  display (nor bytes arrive between a key and its write): what is on the screen, with the bytes that wait
  in the buffer, is every read in order, each shown up to its first zero byte, and the line got exactly
  the keys.
\<close>

theorem windows_monitor_relays:
  assumes "list_all quiet ts" "length b = sizeof_buffer"
  shows "\<exists>s. win_loop ts (win_start b) = Inr s \<and>
    shown s @ print (uncollected s) = concat (map print (delivered s)) \<and> written s = concat (map keys ts)"
proof -
  have start: "relayed (win_start b)" using assms(2) by (simp add: relayed_def win_start_def uncollected_def)
  show ?thesis using loop_relayed [OF assms(1) start] by (auto simp: relayed_def win_start_def)
qed

lemma windows_monitor_relays_witness:
  "\<exists>s. win_loop [\<lparr>ReadFile = Read_pending, arrives = None, GetOverlappedResult = True, arrives_late = Some ''ok'', kbhit = None, arrives_writing = None, WriteFile = True\<rparr>,
       \<lparr>ReadFile = Read_error, arrives = None, GetOverlappedResult = True, arrives_late = None, kbhit = Some (CHR ''x''), arrives_writing = None, WriteFile = True\<rparr>]
      (win_start (replicate 4097 (CHR ''?''))) = Inr s \<and>
    shown s @ print (uncollected s) = concat (map print (delivered s)) \<and> written s = ''x''"
  using windows_monitor_relays [of "[\<lparr>ReadFile = Read_pending, arrives = None, GetOverlappedResult = True, arrives_late = Some ''ok'', kbhit = None, arrives_writing = None, WriteFile = True\<rparr>,
       \<lparr>ReadFile = Read_error, arrives = None, GetOverlappedResult = True, arrives_late = None, kbhit = Some (CHR ''x''), arrives_writing = None, WriteFile = True\<rparr>]"
      "replicate 4097 (CHR ''?'')"]
  by (simp add: quiet_def keys_def sizeof_buffer_def)

text \<open>
  A key that is pressed after bytes have arrived and before they are shown is written over them: it
  goes to the line, but the screen shows it in place of the bytes, which are lost.
\<close>

theorem key_overwrites_received:
  assumes "fWaitingOnRead s" "asked s = sizeof_buffer - 2" "stored s = None" "length (buffer s) = sizeof_buffer" "\<not> exited s"
    and "arrives t = None" "arrives_late t = Some bs" "bs \<noteq> []" "length bs \<le> 4095" "kbhit t = Some c" "WriteFile t"
    and "arrives u = None" "arrives_late u = None" "GetOverlappedResult u" "kbhit u = None"
  shows "\<exists>s'. win_loop [t, u] s = Inr s' \<and> delivered s' = delivered s @ [bs] \<and> shown s' = shown s @ print [c] \<and>
    written s' = written s @ [c]"
proof -
  let ?b = "(store bs (buffer s))[0 := c, 1 := CHR 0x00]"
  have len: "length (store bs (buffer s)) = 4097" using assms(4,9) by (simp add: sizeof_buffer_def)
  have "print (take (length bs) ?b) = print [c]"
  proof (cases bs)
    case (Cons d ds)
    obtain e r where "store bs (buffer s) = d # e # r"
      using len Cons by (cases "store bs (buffer s)"; cases "tl (store bs (buffer s))") (auto simp: store_def)
    then show ?thesis using Cons by (cases ds) (simp_all add: print_def)
  qed (use assms(8) in simp)
  then have "print (?b[length bs := CHR 0x00]) = print [c]" using assms(9) len by (subst print_terminated) simp_all
  moreover have "?b ! 0 = c" using len by (simp add: nth_list_update)
  ultimately show ?thesis
    using assms len
    by (simp add: win_round_def receive_def complete_def fill_buffer_def send_key_def show_buffer_def Let_def sizeof_buffer_def
      split: option.split)
qed

lemma key_overwrites_received_witness:
  "\<exists>s'. win_loop [\<lparr>ReadFile = Read_error, arrives = None, GetOverlappedResult = True, arrives_late = Some ''data'', kbhit = Some (CHR ''x''), arrives_writing = None, WriteFile = True\<rparr>,
       \<lparr>ReadFile = Read_error, arrives = None, GetOverlappedResult = True, arrives_late = None, kbhit = None, arrives_writing = None, WriteFile = True\<rparr>]
      ((win_start (replicate 4097 (CHR ''?'')))\<lparr>fWaitingOnRead := True, asked := 4095\<rparr>) = Inr s' \<and>
    delivered s' = [''data''] \<and> shown s' = ''x'' \<and> written s' = ''x''"
  using key_overwrites_received [of "(win_start (replicate 4097 (CHR ''?'')))\<lparr>fWaitingOnRead := True, asked := 4095\<rparr>"
      "\<lparr>ReadFile = Read_error, arrives = None, GetOverlappedResult = True, arrives_late = Some ''data'', kbhit = Some (CHR ''x''), arrives_writing = None, WriteFile = True\<rparr>"
      "''data''" "CHR ''x''"
      "\<lparr>ReadFile = Read_error, arrives = None, GetOverlappedResult = True, arrives_late = None, kbhit = None, arrives_writing = None, WriteFile = True\<rparr>"]
  by (simp add: win_start_def print_def sizeof_buffer_def)

text \<open>And bytes that arrive between a key and its write are sent back to the line in place of the key.\<close>

lemma received_sent_back:
  assumes "fWaitingOnRead s" "0 < asked s" "asked s < length (buffer s)" "stored s = None"
    and "kbhit t = Some c" "arrives_writing t = Some (b # bs)" "WriteFile t"
  shows "\<exists>s'. send_key t s = Inr s' \<and> written s' = written s @ [b]"
  using assms by (cases "asked s") (auto simp: send_key_def complete_def fill_buffer_def store_def)

section \<open>The other Windows monitor\<close>

definition list_ports :: "(string \<Rightarrow> bool) \<Rightarrow> string" where
  "list_ports QueryDosDevice =
     concat (map (\<lambda>i. let buf = ''COM'' @ print_dec (int i) in if QueryDosDevice buf then buf @ '' found'' @ [newline] else [])
       [0..<255])"

text \<open>The settings of the line; whether they can be made is not looked at.\<close>

definition vs_settings :: "(string \<Rightarrow> 'x dcb) \<Rightarrow> commtimeouts \<Rightarrow> 'x dcb \<times> commtimeouts" where
  "vs_settings BuildCommDCB t =
     (BuildCommDCB ''baud=115200 parity=N data=8 stop=1'',
      t\<lparr>ReadIntervalTimeout := 1, ReadTotalTimeoutMultiplier := 0, ReadTotalTimeoutConstant := 1,
        WriteTotalTimeoutMultiplier := 0, WriteTotalTimeoutConstant := 1\<rparr>)"

text \<open>
  A record of the console: whether it is of a key that goes down, its character, and what is at the place
  of the key code, also in a record of another kind.
\<close>

record input_record =
  key_down :: bool
  AsciiChar :: char
  wVirtualKeyCode :: nat

record vs_tick =
  line_read :: "string option"
  console :: "input_record option"

record vs_monitor =
  vs_len :: nat
  irec :: "nat option"
  vs_screen :: string
  vs_sent :: string
  naps :: nat

text \<open>\<open>irec\<close> is the key code of the last record; before the first one the variable has no value.\<close>

definition vs_read :: "vs_tick \<Rightarrow> vs_monitor \<Rightarrow> vs_monitor" where
  "vs_read t s = (case line_read t of
       None \<Rightarrow> s\<lparr>vs_len := 0\<rparr>
     | Some bs \<Rightarrow> s\<lparr>vs_len := length bs, vs_screen := vs_screen s @ c_string (bs @ [CHR 0x00])\<rparr>)"

definition vs_key :: "vs_tick \<Rightarrow> vs_monitor \<Rightarrow> vs_monitor" where
  "vs_key t s = (case console t of
       Some r \<Rightarrow>
         let s1 = s\<lparr>irec := Some (wVirtualKeyCode r)\<rparr>
         in if key_down r
            then s1\<lparr>vs_sent := vs_sent s1 @ [AsciiChar r],
              vs_screen := vs_screen s1 @ (if AsciiChar r = CHR 0x0D then [AsciiChar r, newline] else [AsciiChar r])\<rparr>
            else s1
     | None \<Rightarrow> if vs_len s = 0 then s\<lparr>naps := naps s + 1\<rparr> else s)"

text \<open>The loop runs at least once and tests the last key code after each round: whether it has ended.\<close>

primrec vs_loop :: "vs_tick list \<Rightarrow> vs_monitor \<Rightarrow> (bool \<times> vs_monitor) c" where
  "vs_loop [] s = Inr (False, s)"
| "vs_loop (t # ts) s =
     (let s1 = vs_key t (vs_read t s)
      in case irec s1 of
           None \<Rightarrow> Inl Uninitialised
         | Some k \<Rightarrow> if k \<noteq> 27 then vs_loop ts s1 else Inr (True, s1))"

definition vs_main :: "(string \<Rightarrow> bool) \<Rightarrow> string \<Rightarrow> bool \<Rightarrow> vs_tick list \<Rightarrow> (int option \<times> string \<times> string) c" where
  "vs_main QueryDosDevice port opened ts =
     (if \<not> opened then Inr (Some (- 1), ''Cannot open '' @ port @ [newline] @ list_ports QueryDosDevice, [])
      else bind_c (vs_loop ts \<lparr>vs_len = 0, irec = None, vs_screen = ''Press ESC to exit.'' @ [newline], vs_sent = [], naps = 0\<rparr>)
        (\<lambda>(ended, s). Inr (if ended then (Some 0, vs_screen s @ newline # ''---> END'' @ [newline], vs_sent s)
                         else (None, vs_screen s, vs_sent s))))"

text \<open>The key code of a round's record, and the character it sends.\<close>

definition key_code :: "vs_tick \<Rightarrow> nat option" where
  "key_code t = map_option wVirtualKeyCode (console t)"

definition pressed :: "vs_tick \<Rightarrow> string" where
  "pressed t = (case console t of Some r \<Rightarrow> if key_down r then [AsciiChar r] else [] | None \<Rightarrow> [])"

lemma vs_round:
  "irec (vs_key t (vs_read t s)) = (case key_code t of None \<Rightarrow> irec s | Some k \<Rightarrow> Some k)"
  "vs_sent (vs_key t (vs_read t s)) = vs_sent s @ pressed t"
  by (auto simp: vs_key_def vs_read_def key_code_def pressed_def Let_def split: option.splits)

lemma vs_loop_ends:
  assumes "list_all (\<lambda>t. key_code t \<noteq> Some 27) ts" "key_code t = Some 27" "irec s \<noteq> Some 27"
    and "irec s = None \<longrightarrow> key_code (hd (ts @ [t])) \<noteq> None"
  shows "\<exists>s'. vs_loop (ts @ t # rest) s = Inr (True, s') \<and> vs_sent s' = vs_sent s @ concat (map pressed (ts @ [t]))"
  using assms
proof (induction ts arbitrary: s)
  case Nil
  then show ?case by (simp add: Let_def vs_round)
next
  case (Cons u ts)
  let ?s = "vs_key u (vs_read u s)"
  obtain k where k: "irec ?s = Some k" "k \<noteq> 27"
    using Cons.prems by (cases "key_code u"; cases "irec s") (auto simp: vs_round)
  obtain s' where "vs_loop (ts @ t # rest) ?s = Inr (True, s')" "vs_sent s' = vs_sent ?s @ concat (map pressed (ts @ [t]))"
    using Cons.IH [of ?s] Cons.prems k by auto
  then show ?case using k by (simp add: Let_def vs_round)
qed

text \<open>
  This monitor ends with status 0 at the first record whose code is that of the escape key, whatever
  the line and later rounds bring, and has sent the characters of all keys pressed until then, also
  that of escape and the zero byte of every key without a character; but if there is no record in
  its first round, it tests a variable that has no value.
\<close>

theorem escape_ends_monitor:
  assumes "list_all (\<lambda>t. key_code t \<noteq> Some 27) ts" "key_code t = Some 27"
  shows "(key_code (hd (ts @ [t])) \<noteq> None \<longrightarrow>
      (\<exists>out. vs_main q port True (ts @ t # rest) = Inr (Some 0, out, concat (map pressed (ts @ [t]))))) \<and>
    (key_code (hd (ts @ [t])) = None \<longrightarrow> vs_main q port True (ts @ t # rest) = Inl Uninitialised)"
proof -
  let ?s = "\<lparr>vs_len = 0, irec = None, vs_screen = ''Press ESC to exit.'' @ [newline], vs_sent = [], naps = 0\<rparr>"
  have "\<exists>out. vs_main q port True (ts @ t # rest) = Inr (Some 0, out, concat (map pressed (ts @ [t])))"
    if "key_code (hd (ts @ [t])) \<noteq> None"
    using vs_loop_ends [OF assms, of ?s rest] that by (auto simp: vs_main_def)
  moreover have "vs_main q port True (ts @ t # rest) = Inl Uninitialised" if "key_code (hd (ts @ [t])) = None"
    using that assms(2) by (cases ts) (simp_all add: vs_main_def vs_round Let_def)
  ultimately show ?thesis by blast
qed

lemma escape_ends_monitor_witness:
  "\<exists>out. vs_main (\<lambda>p. False) ''COM3'' True
      [\<lparr>line_read = Some ''ok'', console = Some \<lparr>key_down = True, AsciiChar = CHR 0x00, wVirtualKeyCode = 16\<rparr>\<rparr>,
       \<lparr>line_read = None, console = None\<rparr>,
       \<lparr>line_read = None, console = Some \<lparr>key_down = True, AsciiChar = CHR 0x1B, wVirtualKeyCode = 27\<rparr>\<rparr>]
    = Inr (Some 0, out, [CHR 0x00, CHR 0x1B])"
  using escape_ends_monitor [of "[\<lparr>line_read = Some ''ok'', console = Some \<lparr>key_down = True, AsciiChar = CHR 0x00, wVirtualKeyCode = 16\<rparr>\<rparr>,
       \<lparr>line_read = None, console = None\<rparr>]"
      "\<lparr>line_read = None, console = Some \<lparr>key_down = True, AsciiChar = CHR 0x1B, wVirtualKeyCode = 27\<rparr>\<rparr>" "\<lambda>p. False" "''COM3''" "[]"]
  by (simp add: key_code_def pressed_def)

end
