(* ===== verification/Spec2Isabelle.thy ===== *)
theory Spec2Isabelle
  imports Update BackEnds Controller BuildRuns Processes Assembler Dump Daemons SerialMonitors
begin

text \<open>
  A verification development for the C programs of the repository: the keyboard controller of the TERES
  laptop with its bootloader and the program that loads its firmware
  (\<open>DIY-LAPTOP/SOFTWARE/A64-TERES/TERES-KBD-RELEASE\<close>), the small programs of the laptop
  (\<open>teres1-ledctrl\<close>, \<open>teres1-debug\<close>, \<open>teres1-audioselect\<close>), and the tools of the ternary core
  (\<open>TERES-GMA1/tools\<close>, \<open>TERES-GMA1/common/vstudio/monitor\<close>). This theory only brings the others together.

  \<^bold>\<open>How C is modelled.\<close> State is a record that is passed and returned; a machine integer is a word of its
  width wherever it can wrap, an \<open>int\<close> where the code stays far from the limits; a C string is the list of its
  characters before the zero. What C leaves undefined is an outcome of its own: \<open>'a c\<close> is \<open>Inl\<close> of
  \<open>OutOfBounds\<close>, \<open>Uninitialised\<close> or \<open>SignedOverflow\<close>, or \<open>Inr\<close> of a value (\<open>Prelude\<close>), so an access outside an array
  is a result one can prove absent or reachable. Calls of \<open>die\<close> and \<open>exit\<close> are error values. Libraries and
  operating systems that are not in the repository are records of functions over an outside world, or the
  inputs of a step; what the code relies on of them is a named hypothesis of the theorem that needs it
  (\<open>delivers\<close>, \<open>spm_hardware\<close>, \<open>counts_handles\<close>, \<open>win_counts\<close>, \<open>documented\<close>, \<dots>), and every such theorem has an
  instance with a concrete world. Messages to the terminal are left out, except where they are the output.

  \<^bold>\<open>Shared.\<close> \<open>Prelude\<close>: outcomes, integer types, collections of rules. \<open>CLib\<close>: the functions of the C library
  (\<open>sscanf\<close> with \<open>%2x\<close>, \<open>fgets\<close>, \<open>atoi\<close>, \<open>isspace\<close>, \<dots>). \<open>Interfaces\<close>, \<open>TaskOrder\<close>, and locales in
  \<open>HostLoader\<close> and \<open>Update\<close>: the contracts between components. \<open>image_source\<close> is interpreted on the Intel hex image,
  \<open>report_device\<close> on the libusb link with the bootloader behind it, \<open>host_invariant\<close> on the loader with libusb
  and with the Windows calls, \<open>task_order\<close> on the recursion of the project builder, \<open>flash_backend\<close>, which
  extends \<open>report_device\<close>, on the back ends of Linux, Windows and Mac OS X.

  \<^bold>\<open>The firmware loader\<close> (\<open>HostLoaderApp/hid_bootloader_cli.c\<close>).
  \<^item> \<open>IntelHex\<close>: \<open>read_intel_hex\<close>, \<open>parse_hex_line\<close> with its 32-bit address sum, \<open>ihex_bytes_within_range\<close>,
    \<open>ihex_get_data\<close>. A record is given the meaning of the format, a whole file of data and base address records
    becomes the map of its bytes; a corrupted byte of address, data or checksum is refused (one of the type
    need not be); the range check leaves out the top of the image and can wrap.
  \<^item> \<open>HostLoader\<close>: \<open>parse_options\<close>, the loops that open the device and program it, \<open>main\<close>. The wait for the device may
    last for ever, so it is a \<open>partial_function (option)\<close>; its result is characterised for every outside world.
  \<^item> \<open>UsbAccess\<close>, \<open>WindowsAccess\<close>, \<open>MacAccess\<close>: \<open>open_usb_device\<close>, \<open>teensy_open\<close>, \<open>teensy_write\<close>,
    \<open>teensy_close\<close>, \<open>hard_reboot\<close> of the four variants (libusb and uhid in the first). No handle is lost; the list of
    devices on Mac OS X holds those that are attached. \<open>BackEnds\<close> compares the four.

  \<^bold>\<open>The bootloader\<close> (\<open>BootLoaderHID\<close>). \<open>Bootloader\<close>: \<open>Application_Jump_Check\<close>, the control request with the
  self-programming commands it gives, the timer, \<open>main\<close> as a step relation with its reachable states; a contract
  (programmed pages, time left) that the handler refines. \<open>BootDescriptors\<close>: its USB descriptors. \<open>Flashing\<close> and
  \<open>Update\<close> put loader, bootloader and the data sheet of the flash together: from the text of a hex file to the
  bytes in the flash and the start of the new program.

  \<^bold>\<open>The keyboard controller\<close> (\<open>TERES-HID/KeyboardMouse.c\<close>, \<open>Descriptors.c\<close>). \<open>Touchpad\<close>: the buttons on the
  converter, the touch pad read over two wires, gestures, the timers, the mouse report. \<open>KeyMatrix\<close>: the scan of
  the matrix with its tables, modifiers, the Fn layer, the keyboard report, the chord that enters the bootloader;
  every access to a table is checked, and a wait for a pin may last for ever (\<open>'a c option\<close>).
  \<open>HidReports\<close> says what a HID report descriptor means; \<open>Descriptors\<close> has the descriptors the firmware hands out and
  shows what a host reads from its reports. \<open>Controller\<close> is the whole firmware: start, USB callbacks, the
  main loop with the requests that are served in it and the interrupts between its rounds, with the invariant
  of all runs.

  \<^bold>\<open>The project builder\<close> (\<open>tools/build.c\<close>). \<open>Json\<close>: the reader, which parses its text level by level into a stack of
  22 objects; \<open>JsonSafety\<close>: it stays inside text and stack for every text; \<open>JsonDocs\<close>, \<open>JsonWalk\<close>, \<open>JsonVisit\<close>: on the
  text of a document of limited depth and length, the visitor is called on every node in order. \<open>BuildTasks\<close>: the
  callback that collects tasks, one task, the recursion over dependencies, \<open>main\<close>; \<open>Processes\<close>: \<open>_spawnvp\<close>.
  \<open>BuildRuns\<close>: from the text of \<open>tasks.json\<close> to the commands that are started. \<open>json__visitor\<close> and
  \<open>bld__depends\<close> take fuel; \<open>fuel_doc\<close> and the number of tasks are enough (shown in the theorems), and where the code
  recurses without end it is shown that no fuel is enough.

  \<^bold>\<open>The tools of the ternary core.\<close> \<open>Ternary\<close> (\<open>bin2ter.c\<close>), \<open>Assembler\<close> (\<open>cod5asm.c\<close>), \<open>Dump\<close> (\<open>dump2v.c\<close>): a
  whole disassembly becomes the memory image with each instruction at its address; the two conversion tables
  are inverse to each other.
  \<^bold>\<open>Small programs.\<close> \<open>Daemons\<close>: LED daemon, debug switch, audio manager. \<open>SerialMonitors\<close>: the three monitors of
  the serial line, with the signal handler and the terminal settings as a step relation, and the overlapped
  reads of Windows with the sizes they ask for.

  \<^bold>\<open>Not modelled.\<close> LUFA, libusb, IOKit, Win32, termios, the flash and the USB hardware: they are not in the
  repository. \<open>LUFAConfig.h\<close>: compile-time switches of LUFA. The XMEGA branch of \<open>SetupHardware\<close>: the build is for
  AVR8. \<open>printf_verbose\<close>, \<open>usage\<close> and the texts of messages.
  Concurrency inside a statement: interrupts of the keyboard firmware are taken between the rounds of its
  loop, those of the bootloader between its steps. Timing: a transfer
  that is answered after its timeout is one that fails; the time the bootloader waits is counted in timer
  overflows and does not run during the transfers of an update. The Verilog of the core and
  the scripts and boards of the repository are not C programs.
\<close>

end
